(* ===== verification/Prelude.thy ===== *)
theory Prelude
  imports Main "HOL-Library.Word" "HOL-Library.AList" "HOL-Library.Multiset"
begin

unbundle bit_operations_syntax

text \<open>
  What every component shares: the machine types of the C++ code, the ways a call can fail, the
  state-and-exception type of a method together with its weakest-precondition calculus, and the
  arithmetic facts on 64-bit addresses and sizes.

  Addresses and \<open>size_t\<close> values are \<open>64 word\<close>, so \<open>+\<close>, \<open>-\<close> and \<open>*\<close> wrap around as they do in the
  code. An \<open>assert\<close> is modelled as it acts in a build with assertions: a failing one is the
  error \<open>AssertionFailure\<close>. What the C++ standard leaves undefined and the code does not check
  (\<open>front()\<close> of an empty queue, an index beyond a vector) is the error \<open>UndefinedBehaviour\<close>,
  unbounded recursion is \<open>Diverges\<close>, and the end of a program with a status code is \<open>Exit\<close>.
\<close>

section \<open>Machine types\<close>

type_synonym u8 = "8 word"
type_synonym u32 = "32 word"
type_synonym u64 = "64 word"
type_synonym ptr = "64 word"

abbreviation nullptr :: ptr where "nullptr \<equiv> 0"

section \<open>Failing computations\<close>

datatype cpp_error =
    AssertionFailure
  | RuntimeError string
  | InvalidArgument string
  | OutOfRange
  | BadAlloc
  | UndefinedBehaviour
  | Diverges
  | Exit int

text \<open>
  A method of an object whose state is \<open>'s\<close>: it returns a value or throws, and leaves a state in
  both cases, because a C++ exception does not undo what was done before it was thrown.
\<close>

type_synonym ('s, 'a) action = "'s \<Rightarrow> (cpp_error + 'a) \<times> 's"

definition ret :: "'a \<Rightarrow> ('s, 'a) action" where
  "ret x s = (Inr x, s)"

definition throw :: "cpp_error \<Rightarrow> ('s, 'a) action" where
  "throw e s = (Inl e, s)"

definition seqE :: "('s, 'a) action \<Rightarrow> ('a \<Rightarrow> ('s, 'b) action) \<Rightarrow> ('s, 'b) action" where
  "seqE m f s = (case m s of (Inl e, s') \<Rightarrow> (Inl e, s') | (Inr x, s') \<Rightarrow> f x s')"

text \<open>
  An assertion that fails ends the call: this is a build with assertions (Debug). A build without them
  (Release) agrees on the calls that fail none.
\<close>

definition assertE :: "bool \<Rightarrow> ('s, unit) action" where
  "assertE b = (if b then ret () else throw AssertionFailure)"

definition readE :: "('s \<Rightarrow> 'a) \<Rightarrow> ('s, 'a) action" where
  "readE f s = (Inr (f s), s)"

definition modifyE :: "('s \<Rightarrow> 's) \<Rightarrow> ('s, unit) action" where
  "modifyE f s = (Inr (), f s)"

text \<open>A call of a function that has no state of its own and may throw.\<close>

definition liftE :: "cpp_error + 'a \<Rightarrow> ('s, 'a) action" where
  "liftE r s = (r, s)"

text \<open>A method of a member object, called on the object that holds it.\<close>

definition onE :: "('s \<Rightarrow> 't) \<Rightarrow> ('t \<Rightarrow> 's \<Rightarrow> 's) \<Rightarrow> ('t, 'a) action \<Rightarrow> ('s, 'a) action" where
  "onE get put m s = (case m (get s) of (r, t) \<Rightarrow> (r, put t s))"

section \<open>Weakest preconditions\<close>

named_theorems wp_simps \<open>weakest preconditions of the building blocks\<close>

definition wp :: "('s, 'a) action \<Rightarrow> ('a \<Rightarrow> 's \<Rightarrow> bool) \<Rightarrow> (cpp_error \<Rightarrow> 's \<Rightarrow> bool) \<Rightarrow> 's \<Rightarrow> bool" where
  "wp m Q E s = (case m s of (Inl e, s') \<Rightarrow> E e s' | (Inr x, s') \<Rightarrow> Q x s')"

lemma wp_ret [wp_simps]: "wp (ret x) Q E s = Q x s"
  by (simp add: wp_def ret_def)

lemma wp_throw [wp_simps]: "wp (throw e) Q E s = E e s"
  by (simp add: wp_def throw_def)

lemma wp_seqE [wp_simps]: "wp (seqE m f) Q E s = wp m (\<lambda>x. wp (f x) Q E) E s"
  by (simp add: wp_def seqE_def split: prod.splits sum.splits)

lemma wp_assertE [wp_simps]: "wp (assertE b) Q E s = (if b then Q () s else E AssertionFailure s)"
  by (simp add: assertE_def wp_simps)

lemma wp_readE [wp_simps]: "wp (readE f) Q E s = Q (f s) s"
  by (simp add: wp_def readE_def)

lemma wp_modifyE [wp_simps]: "wp (modifyE f) Q E s = Q () (f s)"
  by (simp add: wp_def modifyE_def)

lemma wp_liftE [wp_simps]:
  "wp (liftE r) Q E s = (case r of Inl e \<Rightarrow> E e s | Inr x \<Rightarrow> Q x s)"
  by (simp add: wp_def liftE_def)

lemma wp_onE [wp_simps]:
  "wp (onE get put m) Q E s =
     wp m (\<lambda>x t. Q x (put t s)) (\<lambda>e t. E e (put t s)) (get s)"
  by (simp add: wp_def onE_def split: prod.splits sum.splits)

lemma wp_if [wp_simps]:
  "wp (if b then m1 else m2) Q E s = (if b then wp m1 Q E s else wp m2 Q E s)"
  by simp

lemma wp_mono:
  assumes "wp m Q E s"
    and "\<And>x s'. Q x s' \<Longrightarrow> Q' x s'"
    and "\<And>e s'. E e s' \<Longrightarrow> E' e s'"
  shows "wp m Q' E' s"
  using assms by (simp add: wp_def split: prod.splits sum.splits)

lemma wp_seqI:
  assumes "wp m R E s" and "\<And>x t. R x t \<Longrightarrow> wp (f x) Q E t"
  shows "wp (seqE m f) Q E s"
  unfolding wp_seqE by (rule wp_mono [OF assms(1)]) (simp_all add: assms(2))

lemma seqE_liftE_Inr [simp]: "seqE (liftE (Inr x)) f = f x"
  by (rule ext) (simp add: seqE_def liftE_def)

lemma wp_conj:
  assumes "wp m Q E s" and "wp m Q' E' s"
  shows "wp m (\<lambda>x s. Q x s \<and> Q' x s) (\<lambda>e s. E e s \<and> E' e s) s"
  using assms by (simp add: wp_def split: prod.splits sum.splits)

lemma wpD_Inr: "wp m Q E s \<Longrightarrow> m s = (Inr x, s') \<Longrightarrow> Q x s'"
  by (simp add: wp_def)

lemma wpD_Inl: "wp m Q E s \<Longrightarrow> m s = (Inl e, s') \<Longrightarrow> E e s'"
  by (simp add: wp_def)

lemma wp_result: "wp m Q E s \<Longrightarrow> wp m (\<lambda>x s'. Q x s' \<and> m s = (Inr x, s')) E s"
  by (auto simp: wp_def split: prod.splits sum.splits)

lemma wpI:
  assumes "\<And>x s'. m s = (Inr x, s') \<Longrightarrow> Q x s'"
    and "\<And>e s'. m s = (Inl e, s') \<Longrightarrow> E e s'"
  shows "wp m Q E s"
  using assms by (auto simp: wp_def split: prod.splits sum.splits)

lemma wp_snd: "wp m Q E s \<Longrightarrow> (\<And>x t. Q x t \<Longrightarrow> P t) \<Longrightarrow> (\<And>e t. E e t \<Longrightarrow> P t) \<Longrightarrow> P (snd (m s))"
  by (auto simp: wp_def split: prod.splits sum.splits)

lemmas method_defs = ret_def throw_def seqE_def assertE_def readE_def modifyE_def liftE_def onE_def

lemma seqE_cong [fundef_cong]:
  assumes "m s = m' s'" and "s = s'"
    and "\<And>x t. m' s' = (Inr x, t) \<Longrightarrow> f x t = f' x t"
  shows "seqE m f s = seqE m' f' s'"
  using assms by (auto simp: seqE_def split: prod.splits sum.splits)

section \<open>Addresses and sizes\<close>

text \<open>The bytes of a range, as natural numbers, so that a range never wraps around.\<close>

definition range_of :: "ptr \<Rightarrow> u64 \<Rightarrow> nat set" where
  "range_of a n = {unat a ..< unat a + unat n}"

definition no_wrap :: "ptr \<Rightarrow> u64 \<Rightarrow> bool" where
  "no_wrap a n \<longleftrightarrow> unat a + unat n < 2 ^ 64"

named_theorems word_nat \<open>unsigned word arithmetic read as natural numbers\<close>

lemma unat_add_no_wrap:
  "unat (a :: 'a :: len word) + unat b < 2 ^ LENGTH('a) \<Longrightarrow> unat (a + b) = unat a + unat b"
  by (simp add: unat_word_ariths)

lemma unat_plus_no_wrap: "no_wrap a n \<Longrightarrow> unat (a + n) = unat a + unat n"
  by (simp add: no_wrap_def unat_add_no_wrap)

lemma unat_diff_le: "(b :: 'a :: len word) \<le> a \<Longrightarrow> unat (a - b) = unat a - unat b"
  by (simp add: unat_sub)

lemmas word_order_nat = word_le_nat_alt word_less_nat_alt

lemma unat_64_bound: "unat (x :: u64) < 18446744073709551616"
  using unsigned_less [of x] by simp

lemma unat_32_bound: "unat (x :: u32) < 4294967296"
  using unsigned_less [of x] by simp

text \<open>Widening keeps the value.\<close>

lemma unat_ucast_32_64: "unat (ucast (n :: u32) :: u64) = unat n"
proof -
  have "unat n < 2 ^ 64" by (rule less_trans [OF unat_32_bound]) simp
  then show ?thesis by (simp add: unsigned_ucast_eq take_bit_nat_eq_self)
qed

lemma unat_of_nat_below:
  assumes "i < unat (n :: 'a :: len word)"
  shows "unat (of_nat i :: 'a word) = i"
proof -
  have "i < 2 ^ LENGTH('a)" using assms unsigned_less by (rule less_trans)
  then show ?thesis by (simp add: unat_of_nat)
qed

lemma unat_drop_bit_div: "unat (drop_bit n (w :: 'a :: len word)) = unat w div 2 ^ n"
  unfolding unat_drop_bit_eq by (simp add: drop_bit_eq_div)

text \<open>Rounding up to a multiple, as the code writes it, on natural numbers.\<close>

definition round_up :: "nat \<Rightarrow> nat \<Rightarrow> nat" where
  "round_up n d = (n + d - 1) div d * d"

lemma round_up_dvd [simp]: "d dvd round_up n d"
  by (simp add: round_up_def)

lemma round_up_ge: "0 < d \<Longrightarrow> n \<le> round_up n d"
proof -
  assume d: "0 < d"
  have "n + d - 1 = (n + d - 1) div d * d + (n + d - 1) mod d"
    by simp
  moreover have "(n + d - 1) mod d < d" using d by simp
  ultimately show ?thesis using d unfolding round_up_def by linarith
qed

lemma round_up_less: "0 < d \<Longrightarrow> round_up n d < n + d"
proof -
  assume d: "0 < d"
  have "(n + d - 1) div d * d \<le> n + d - 1"
    by (rule div_times_less_eq_dividend)
  with d show ?thesis unfolding round_up_def by linarith
qed

lemma round_up_multiple: "0 < d \<Longrightarrow> d dvd n \<Longrightarrow> round_up n d = n"
proof -
  assume d: "0 < d" and "d dvd n"
  then obtain q where "n = d * q" by (auto elim: dvdE)
  moreover have "(d * q + d - 1) div d = q"
    by (rule div_nat_eqI) (use d in auto)
  ultimately show ?thesis by (simp add: round_up_def mult.commute)
qed

text \<open>Element \<open>i\<close> of a vector; an index beyond the vector is not checked by the code.\<close>

definition vec_at :: "'a list \<Rightarrow> nat \<Rightarrow> cpp_error + 'a" where
  "vec_at xs i = (if i < length xs then Inr (xs ! i) else Inl UndefinedBehaviour)"

lemma ucast_of_nat:
  "LENGTH('a :: len) \<le> LENGTH('b :: len) \<Longrightarrow> ucast (of_nat n :: 'b word) = (of_nat n :: 'a word)"
  by (simp add: word_unat_eq_iff unsigned_ucast_eq unat_of_nat take_bit_eq_mod mod_mod_cancel le_imp_power_dvd)

lemma unat_round_up_word:
  assumes "0 < unat (d :: u64)" and "unat n + unat d < 2 ^ 64"
  shows "unat ((n + d - 1) div d * d) = round_up (unat n) (unat d)"
proof -
  have nd: "unat (n + d) = unat n + unat d" using assms(2) by (intro unat_add_no_wrap) simp
  then have "(1 :: u64) \<le> n + d" using assms(1) by (simp add: word_le_nat_alt)
  then have "unat (n + d - 1) = unat n + unat d - 1" using nd by (simp add: unat_diff_le)
  then have q: "unat ((n + d - 1) div d) = (unat n + unat d - 1) div unat d" by (simp add: unat_div)
  have "(unat n + unat d - 1) div unat d * unat d \<le> unat n + unat d - 1"
    by (rule div_times_less_eq_dividend)
  then have "(unat n + unat d - 1) div unat d * unat d < 2 ^ 64" using assms(2) by linarith
  then show ?thesis
    unfolding round_up_def unat_word_ariths(2) q by simp
qed

text \<open>The mask idiom \<open>x & ~(2^k - 1)\<close> clears the low bits.\<close>

lemma and_not_mask_word: "(x :: 'a :: len word) AND NOT (2 ^ k - 1) = push_bit k (drop_bit k x)"
  unfolding mask_eq_exp_minus_1 [symmetric]
  by (rule bit_word_eqI) (auto simp: bit_simps)

lemma unat_and_not_mask: "unat ((x :: 'a :: len word) AND NOT (2 ^ k - 1)) = unat x div 2 ^ k * 2 ^ k"
proof -
  have "unat x div 2 ^ k * 2 ^ k \<le> unat x"
    by (rule div_times_less_eq_dividend)
  then have "unat x div 2 ^ k * 2 ^ k < 2 ^ LENGTH('a)"
    using unsigned_less [of x] by (rule le_less_trans)
  then show ?thesis
    unfolding and_not_mask_word unsigned_push_bit_eq unat_drop_bit_div
    by (simp add: push_bit_eq_mult take_bit_eq_mod)
qed

text \<open>An alignment the code accepts: a power of two that leaves room in the address space.\<close>

definition valid_alignment :: "u64 \<Rightarrow> bool" where
  "valid_alignment al \<longleftrightarrow> (\<exists>k \<le> 48. al = 2 ^ k)"

lemma power_and_pred: "(2 ^ k :: 'a :: len word) AND (2 ^ k - 1) = 0"
  unfolding mask_eq_exp_minus_1 [symmetric]
  by (rule bit_word_eqI) (auto simp: bit_simps)

lemma valid_alignment_assert: "valid_alignment al \<Longrightarrow> al AND (al - 1) = 0"
  by (auto simp: valid_alignment_def power_and_pred)

lemma valid_alignment_64: "valid_alignment 64"
  unfolding valid_alignment_def by (rule exI [of _ 6]) simp

lemma unat_two_power: "k < LENGTH('a) \<Longrightarrow> unat (2 ^ k :: 'a :: len word) = 2 ^ k"
proof -
  assume "k < LENGTH('a)"
  then have "(2 :: nat) ^ k < 2 ^ LENGTH('a)"
    by (rule power_strict_increasing) simp
  moreover have "(2 ^ k :: 'a word) = of_nat (2 ^ k)" by simp
  ultimately show ?thesis by (simp only: unat_of_nat mod_less)
qed

text \<open>Rounding an address or an offset up to an alignment, in machine arithmetic.\<close>

lemma valid_alignment_le: "valid_alignment al \<Longrightarrow> 0 < unat al \<and> unat al \<le> 2 ^ 48"
proof -
  assume "valid_alignment al"
  then obtain k where k: "k \<le> 48" "al = 2 ^ k" by (auto simp: valid_alignment_def)
  have "unat al = 2 ^ k" unfolding k(2) by (rule unat_two_power) (use k(1) in simp)
  then show ?thesis using power_increasing [OF k(1), of "2 :: nat"] by simp
qed

lemma unat_align_up:
  assumes al: "valid_alignment al" and x: "unat (x :: u64) \<le> 2 ^ 48"
  shows "unat ((x + al - 1) AND NOT (al - 1)) = round_up (unat x) (unat al)"
proof -
  obtain k where k: "k \<le> 48" and alk: "al = 2 ^ k"
    using al by (auto simp: valid_alignment_def)
  note bound = valid_alignment_le [OF al]
  have ual: "unat al = 2 ^ k"
    unfolding alk by (rule unat_two_power) (use k in simp)
  have "unat (x + al) = unat x + 2 ^ k"
    using x bound ual by (subst unat_add_no_wrap) simp_all
  then have "unat (x + al - 1) = unat x + 2 ^ k - 1"
    by (subst unat_diff_le) (simp_all add: word_le_nat_alt Suc_le_eq)
  then show ?thesis
    using ual by (simp add: unat_and_not_mask round_up_def alk)
qed

lemma word_eq_of_nat: "unat (w :: 'a :: len word) = n \<Longrightarrow> w = of_nat n"
  using unsigned_less [of w]
  by (auto simp: word_unat_eq_iff unsigned_of_nat take_bit_nat_eq_self)

lemma unat_of_nat_64: "n < 2 ^ 64 \<Longrightarrow> unat (of_nat n :: u64) = n"
  by (simp add: unat_of_nat)

lemma word_pos_nat: "(0 :: 'a :: len word) < x \<longleftrightarrow> 0 < unat x"
  by (simp add: word_less_nat_alt)

section \<open>Sums over a vector and blocks of a map\<close>

lemma sum_list_map_update:
  fixes f :: "'a \<Rightarrow> 'b :: comm_monoid_add"
  assumes "i < length xs" and "f x = f (xs ! i) + d"
  shows "sum_list (map f (xs[i := x])) = sum_list (map f xs) + d"
  using assms
proof (induction xs arbitrary: i)
  case (Cons y ys)
  then show ?case by (cases i) (simp_all add: ac_simps)
qed simp

lemma sum_list_map_update_minus:
  fixes f :: "'a \<Rightarrow> 'b :: comm_monoid_add"
  assumes "i < length xs" and "f (xs ! i) = f x + d"
  shows "sum_list (map f xs) = sum_list (map f (xs[i := x])) + d"
  using sum_list_map_update [of i "xs[i := x]" f "xs ! i" d] assms by simp

text \<open>The blocks of a map of allocations, each once.\<close>

definition live_blocks :: "('k \<rightharpoonup> 'v) \<Rightarrow> ('k \<times> 'v) multiset" where
  "live_blocks m = mset_set (Map.graph m)"

lemma finite_graph [simp]: "finite (dom m) \<Longrightarrow> finite (Map.graph m)"
  by (simp add: finite_graph_iff_finite_dom)

lemma live_blocks_empty [simp]: "live_blocks Map.empty = {#}"
  by (simp add: live_blocks_def)

lemma live_blocks_mem: "finite (dom m) \<Longrightarrow> (q, n) \<in># live_blocks m \<longleftrightarrow> m q = Some n"
  using finite_graph [of m] by (auto simp: live_blocks_def in_graphI dest: in_graphD)

lemma live_blocks_some: "(q, n) \<in># live_blocks m \<Longrightarrow> m q = Some n"
  by (cases "finite (dom m)") (simp add: live_blocks_mem, simp add: live_blocks_def finite_graph_iff_finite_dom)

lemma live_blocks_add:
  assumes "finite (dom m)" and "m q = None"
  shows "live_blocks (m(q \<mapsto> n)) = add_mset (q, n) (live_blocks m)"
proof -
  have "Map.graph (m(q \<mapsto> n)) = insert (q, n) (Map.graph m)"
    using assms(2) by (auto simp: Map.graph_def split: if_splits)
  moreover have "(q, n) \<notin> Map.graph m"
    using assms(2) by (simp add: Map.graph_def)
  ultimately show ?thesis
    using assms(1) by (simp add: live_blocks_def)
qed

lemma live_blocks_remove:
  assumes "finite (dom m)" and "m q = Some n"
  shows "live_blocks m = add_mset (q, n) (live_blocks (m(q := None)))"
proof -
  have "live_blocks ((m(q := None))(q \<mapsto> n)) = add_mset (q, n) (live_blocks (m(q := None)))"
    using assms(1) by (intro live_blocks_add) auto
  moreover have "(m(q := None))(q \<mapsto> n) = m"
    using assms(2) by auto
  ultimately show ?thesis by simp
qed

end
