(* ===== verification/Text.thy ===== *)
theory Text
  imports Prelude
begin

text \<open>
  Numbers as text, as the stream operators and \<open>std::to_string\<close> write them and \<open>operator>>\<close> reads
  them. The lemmas show that a number is read back from what was written.
\<close>

section \<open>Digits\<close>

definition digit_char :: "nat \<Rightarrow> char" where
  "digit_char d = char_of (if d < 10 then 48 + d else 87 + d)"

definition digit_value :: "char \<Rightarrow> nat" where
  "digit_value c = (let n = of_char c in if n < 58 then n - 48 else n - 87)"

definition digits_value :: "nat \<Rightarrow> string \<Rightarrow> nat" where
  "digits_value b = foldl (\<lambda>n c. b * n + digit_value c) 0"

definition digit_of :: "nat \<Rightarrow> char \<Rightarrow> bool" where
  "digit_of b c \<longleftrightarrow> (\<exists>d < b. c = digit_char d)"

lemma of_char_digit: "d < 16 \<Longrightarrow> of_char (digit_char d) = (if d < 10 then 48 + d else 87 + d)"
  by (simp add: digit_char_def of_char_of)

lemma digit_value_char: "d < 16 \<Longrightarrow> digit_value (digit_char d) = d"
  by (simp add: digit_value_def of_char_digit)

text \<open>The digits of a number to the base \<open>b\<close>, as the stream operators write them with \<open>dec\<close> or \<open>hex\<close>.\<close>

fun show_base :: "nat \<Rightarrow> nat \<Rightarrow> string" where
  "show_base b n = (if b < 2 \<or> n < b then [digit_char n] else show_base b (n div b) @ [digit_char (n mod b)])"

declare show_base.simps [simp del]

definition show_nat :: "nat \<Rightarrow> string" where
  "show_nat = show_base 10"

definition show_int :: "int \<Rightarrow> string" where
  "show_int k = (if k < 0 then CHR ''-'' # show_nat (nat (- k)) else show_nat (nat k))"

definition show_hex :: "nat \<Rightarrow> string" where
  "show_hex = show_base 16"

definition newline :: string where
  "newline = [CHR 0x0A]"

text \<open>A pointer, as the streams of the standard library write it.\<close>

definition show_ptr :: "ptr \<Rightarrow> string" where
  "show_ptr p = (if p = nullptr then ''0'' else ''0x'' @ show_hex (unat p))"

lemma show_base_digits:
  assumes "2 \<le> b" and "b \<le> 16"
  shows "list_all (digit_of b) (show_base b n) \<and> show_base b n \<noteq> [] \<and> digits_value b (show_base b n) = n"
  using assms
proof (induction b n rule: show_base.induct)
  case (1 b n)
  show ?case
  proof (cases "n < b")
    case True
    then show ?thesis
      using 1(3) digit_value_char [of n]
      by (subst (1 2 3) show_base.simps) (auto simp: digits_value_def digit_of_def)
  next
    case False
    have m: "n mod b < b" using 1(2) by simp
    note ih = 1(1) [OF _ 1(2,3)]
    have "\<not> (b < 2 \<or> n < b)" using False 1(2) by simp
    with ih have ih': "list_all (digit_of b) (show_base b (n div b))" "digits_value b (show_base b (n div b)) = n div b"
      by simp_all
    have d: "digit_value (digit_char (n mod b)) = n mod b"
      using m 1(3) by (intro digit_value_char) simp
    have "digit_of b (digit_char (n mod b))" using m by (auto simp: digit_of_def)
    with False 1(2) ih' d show ?thesis
      by (subst (1 2 3) show_base.simps) (simp add: digits_value_def)
  qed
qed

lemma show_base_inject: "2 \<le> b \<Longrightarrow> b \<le> 16 \<Longrightarrow> show_base b m = show_base b n \<longleftrightarrow> m = n"
  using show_base_digits by metis

text \<open>Two texts that begin with digits and go on with something else agree in the digits.\<close>

lemma digits_prefix:
  assumes "list_all P u" "list_all P v" "x = [] \<or> \<not> P (hd x)" "y = [] \<or> \<not> P (hd y)" "u @ x = v @ y"
  shows "u = v \<and> x = y"
proof -
  have "takeWhile P (u @ x) = u" "takeWhile P (v @ y) = v"
    using assms(1-4) by (cases x; cases y; auto simp: takeWhile_append list_all_iff)+
  then have "u = v" using assms(5) by simp
  then show ?thesis using assms(5) by simp
qed

section \<open>Reading an integer\<close>

definition is_digit :: "char \<Rightarrow> bool" where
  "is_digit c \<longleftrightarrow> 48 \<le> (of_char c :: nat) \<and> (of_char c :: nat) \<le> 57"

definition is_space :: "char \<Rightarrow> bool" where
  "is_space c \<longleftrightarrow> (of_char c :: nat) \<in> {9, 10, 11, 12, 13, 32}"

text \<open>
  \<open>operator>>\<close> of an \<open>int\<close>: white space is skipped; without digits the value is 0, and it is cut off
  at the bounds of the type.
\<close>

definition read_int :: "string \<Rightarrow> int" where
  "read_int s =
     (let s1 = dropWhile is_space s;
          neg = (s1 \<noteq> [] \<and> hd s1 = CHR ''-'');
          s2 = (if s1 \<noteq> [] \<and> (hd s1 = CHR ''-'' \<or> hd s1 = CHR ''+'') then tl s1 else s1);
          v = int (digits_value 10 (takeWhile is_digit s2))
      in max (- (2 ^ 31)) (min (2 ^ 31 - 1) (if neg then - v else v)))"

lemma is_digit_digit_of: "digit_of 10 c \<Longrightarrow> is_digit c"
  by (auto simp: digit_of_def is_digit_def of_char_digit)

lemma show_nat_digits: "list_all is_digit (show_nat n) \<and> show_nat n \<noteq> [] \<and> digits_value 10 (show_nat n) = n"
  using show_base_digits [of 10 n] is_digit_digit_of by (auto simp: show_nat_def list_all_iff)

lemma read_int_show_nat:
  assumes "n < 2 ^ 31" and "rest = [] \<or> \<not> is_digit (hd rest)"
  shows "read_int (show_nat n @ rest) = int n"
proof -
  note d = show_nat_digits [of n]
  then obtain c cs where cs: "show_nat n = c # cs" "is_digit c"
    by (cases "show_nat n") auto
  have nsp: "\<not> is_space c" "c \<noteq> CHR ''-''" "c \<noteq> CHR ''+''"
    using cs(2) by (auto simp: is_digit_def is_space_def)
  have "takeWhile is_digit (show_nat n @ rest) = show_nat n"
    using d assms(2) by (cases rest) (auto simp: takeWhile_append list_all_iff)
  then show ?thesis
    using d nsp assms(1) by (simp add: read_int_def Let_def cs(1))
qed

lemma show_nat_inject: "show_nat m = show_nat n \<longleftrightarrow> m = n"
  by (simp add: show_nat_def show_base_inject)

section \<open>Words in messages\<close>

text \<open>\<open>std::to_string\<close> of an unsigned integer, with an equation to evaluate it on binary numbers.\<close>

definition show_word :: "'a :: len word \<Rightarrow> string" where
  "show_word w = show_nat (unat w)"

function show_digits :: "int \<Rightarrow> string" where
  "show_digits k = (if k < 10 then [digit_char (nat k)] else show_digits (k div 10) @ [digit_char (nat (k mod 10))])"
  by pat_completeness auto
termination by (relation "measure nat") auto

declare show_digits.simps [simp del]

lemma show_digits_nat: "0 \<le> k \<Longrightarrow> show_digits k = show_nat (nat k)"
proof (induction k rule: show_digits.induct)
  case (1 k)
  have "show_nat n = (if n < 10 then [digit_char n] else show_nat (n div 10) @ [digit_char (n mod 10)])" for n
    unfolding show_nat_def by (subst show_base.simps) simp
  moreover have "nat k < 10 \<longleftrightarrow> k < 10" using 1(2) by linarith
  ultimately have "show_nat (nat k) =
      (if k < 10 then [digit_char (nat k)] else show_nat (nat k div 10) @ [digit_char (nat k mod 10)])"
    by metis
  then show ?case
    using 1 by (subst show_digits.simps) (simp add: nat_div_distrib nat_mod_distrib)
qed

lemma show_word_code [code]: "show_word w = show_digits (uint w)"
  by (simp add: show_word_def show_digits_nat)

section \<open>Numbers of the command line\<close>

text \<open>
  What \<open>strtoul\<close> and \<open>strtol\<close> accept: white space, a sign, decimal digits, and anything after them.
  \<open>std::stoul\<close> and \<open>std::stoi\<close> throw when there is no digit or the value does not fit; \<open>stoul\<close> negates
  a number with a minus sign modulo 2^64.
\<close>

definition scan_number :: "string \<Rightarrow> (bool \<times> nat) option" where
  "scan_number s =
     (let s1 = dropWhile is_space s;
          neg = (s1 \<noteq> [] \<and> hd s1 = CHR ''-'');
          s2 = (if s1 \<noteq> [] \<and> (hd s1 = CHR ''-'' \<or> hd s1 = CHR ''+'') then tl s1 else s1);
          ds = takeWhile is_digit s2
      in if ds = [] then None else Some (neg, digits_value 10 ds))"

definition stoul :: "string \<Rightarrow> cpp_error + u64" where
  "stoul s =
     (case scan_number s of
        None \<Rightarrow> Inl (InvalidArgument ''stoul'')
      | Some (neg, v) \<Rightarrow>
          if v \<ge> 2 ^ 64 then Inl OutOfRange else Inr (if neg then - of_nat v else of_nat v))"

definition stoi :: "string \<Rightarrow> cpp_error + int" where
  "stoi s =
     (case scan_number s of
        None \<Rightarrow> Inl (InvalidArgument ''stoi'')
      | Some (neg, v) \<Rightarrow>
          let k = (if neg then - int v else int v)
          in if k < - (2 ^ 31) \<or> k \<ge> 2 ^ 31 then Inl OutOfRange else Inr k)"

lemma scan_show_nat: "scan_number (show_nat n) = Some (False, n)"
proof -
  note d = show_nat_digits [of n]
  then obtain c cs where cs: "show_nat n = c # cs" "is_digit c"
    by (cases "show_nat n") auto
  have "\<not> is_space c" "c \<noteq> CHR ''-''" "c \<noteq> CHR ''+''"
    using cs(2) by (auto simp: is_digit_def is_space_def)
  moreover have "takeWhile is_digit cs = cs"
    using d by (simp add: list_all_iff takeWhile_eq_all_conv cs(1))
  ultimately show ?thesis
    using d cs(2) by (simp add: scan_number_def Let_def cs(1) del: takeWhile_eq_all_conv)
qed

lemma stoul_show_nat: "n < 2 ^ 64 \<Longrightarrow> stoul (show_nat n) = Inr (of_nat n)"
  by (simp add: stoul_def scan_show_nat)

end
