(* ===== verification/Common_Types.thy ===== *)
theory Common_Types
  imports Text
begin

text \<open>
  \<open>software/libstf/common.hpp\<close> and \<open>common.cpp\<close>: the constants of the host/FPGA interface, stream
  ids and stream masks, the element types and their sizes; \<open>error_handling.hpp\<close>: the \<open>Status\<close> of
  a memory pool operation. The lemmas give the numerals of the constants, the correctness of the
  compile-time logarithm, and the agreement of the type tables.
\<close>

section \<open>Constants\<close>

function floor_log2 :: "u32 \<Rightarrow> u32" where
  "floor_log2 val = (if val \<noteq> 0 then 1 + floor_log2 (drop_bit 1 val) else - 1)"
  by pat_completeness auto
termination
proof (relation "measure unat")
  fix val :: u32
  assume "val \<noteq> 0"
  then have "0 < unat val"
    by (simp add: unat_gt_0)
  then show "(drop_bit 1 val, val) \<in> measure unat"
    using unat_drop_bit_div [of 1 val] by simp
qed auto

declare floor_log2.simps [simp del]

definition BYTES_PER_FPGA_TRANSFER :: u32 where "BYTES_PER_FPGA_TRANSFER = 65536"
definition FPGA_VADDR_BITS :: nat where "FPGA_VADDR_BITS = 48"
definition MEMORY_ALIGNMENT_BYTES :: u32 where "MEMORY_ALIGNMENT_BYTES = 64"
definition INTERRUPT_TRANSFER_SIZE_BITS :: u32 where "INTERRUPT_TRANSFER_SIZE_BITS = 28"

definition BUFFER_SIZE_BITS :: u32 where
  "BUFFER_SIZE_BITS = INTERRUPT_TRANSFER_SIZE_BITS - floor_log2 BYTES_PER_FPGA_TRANSFER"

definition MAXIMUM_FPGA_BUFFER_SIZE :: u32 where
  "MAXIMUM_FPGA_BUFFER_SIZE = push_bit (unat INTERRUPT_TRANSFER_SIZE_BITS) 1 - 1"

definition MAXIMUM_OUTPUT_WRITER_BUFFER_SIZE :: u32 where
  "MAXIMUM_OUTPUT_WRITER_BUFFER_SIZE =
     MAXIMUM_FPGA_BUFFER_SIZE - MAXIMUM_FPGA_BUFFER_SIZE mod BYTES_PER_FPGA_TRANSFER"

definition MAXIMUM_FPGA_NUM_STREAMS :: nat where "MAXIMUM_FPGA_NUM_STREAMS = 64"
definition FPGA_INTERRUPT_STREAM_ID_BITS :: u32 where "FPGA_INTERRUPT_STREAM_ID_BITS = 3"
definition FPGA_INTERRUPT_TRANSFER_SIZE_BITS :: u32 where "FPGA_INTERRUPT_TRANSFER_SIZE_BITS = 28"
definition FPGA_INTERRUPT_LAST_BITS :: u32 where "FPGA_INTERRUPT_LAST_BITS = 1"

lemma floor_log2_rec: "val \<noteq> 0 \<Longrightarrow> floor_log2 val = 1 + floor_log2 (drop_bit 1 val)"
  by (subst floor_log2.simps) simp

lemma floor_log2_0: "floor_log2 0 = - 1"
  by (subst floor_log2.simps) simp

lemma floor_log2_65536: "floor_log2 65536 = 16"
  by (simp add: floor_log2_rec floor_log2_0)

lemma BUFFER_SIZE_BITS_eq: "BUFFER_SIZE_BITS = 12"
  by (simp add: BUFFER_SIZE_BITS_def INTERRUPT_TRANSFER_SIZE_BITS_def
      BYTES_PER_FPGA_TRANSFER_def floor_log2_65536)

lemma MAXIMUM_FPGA_BUFFER_SIZE_eq: "MAXIMUM_FPGA_BUFFER_SIZE = 268435455"
  by (simp add: MAXIMUM_FPGA_BUFFER_SIZE_def INTERRUPT_TRANSFER_SIZE_BITS_def)

lemma MAXIMUM_OUTPUT_WRITER_BUFFER_SIZE_eq: "MAXIMUM_OUTPUT_WRITER_BUFFER_SIZE = 268369920"
  by (simp add: MAXIMUM_OUTPUT_WRITER_BUFFER_SIZE_def MAXIMUM_FPGA_BUFFER_SIZE_eq
      BYTES_PER_FPGA_TRANSFER_def)

lemmas stf_consts = BYTES_PER_FPGA_TRANSFER_def FPGA_VADDR_BITS_def MEMORY_ALIGNMENT_BYTES_def
  INTERRUPT_TRANSFER_SIZE_BITS_def BUFFER_SIZE_BITS_eq MAXIMUM_FPGA_BUFFER_SIZE_eq
  MAXIMUM_OUTPUT_WRITER_BUFFER_SIZE_eq MAXIMUM_FPGA_NUM_STREAMS_def
  FPGA_INTERRUPT_STREAM_ID_BITS_def FPGA_INTERRUPT_TRANSFER_SIZE_BITS_def
  FPGA_INTERRUPT_LAST_BITS_def

lemma floor_log2_bounds_aux:
  "val \<noteq> 0 \<Longrightarrow>
     unat (floor_log2 val) < 32 \<and> 2 ^ unat (floor_log2 val) \<le> unat val \<and>
     unat val < 2 ^ Suc (unat (floor_log2 val))"
proof (induction val rule: floor_log2.induct)
  case (1 val)
  let ?h = "drop_bit 1 val"
  have h: "unat ?h = unat val div 2"
    using unat_drop_bit_div [of 1 val] by simp
  show ?case
  proof (cases "?h = 0")
    case True
    with h have "unat val div 2 = 0" by simp
    with "1.prems" have "unat val = 1"
      using unat_gt_0 [of val] by linarith
    moreover have "floor_log2 val = 0"
      using "1.prems" True by (simp add: floor_log2_rec floor_log2_0)
    ultimately show ?thesis by simp
  next
    case False
    let ?k = "unat (floor_log2 ?h)"
    from "1.IH" "1.prems" False
    have IH: "?k < 32" "2 ^ ?k \<le> unat ?h" "unat ?h < 2 ^ Suc ?k" by auto
    have "unat val < 2 ^ 32"
      using unsigned_less [of val] by simp
    with h have "unat ?h < 2 ^ 31" by simp
    with IH(2) have "(2::nat) ^ ?k < 2 ^ 31" by linarith
    then have k: "?k < 31"
      by (rule power_less_imp_less_exp [rotated]) simp
    have "floor_log2 val = 1 + floor_log2 ?h"
      using "1.prems" by (rule floor_log2_rec)
    then have log: "unat (floor_log2 val) = Suc ?k"
      using k by (simp add: unat_word_ariths)
    show ?thesis
      using IH k h unfolding log by auto
  qed
qed

section \<open>Streams\<close>

type_synonym stream_t = u8

text \<open>\<open>std::bitset<64>\<close>: bit \<open>i\<close> of the word is stream \<open>i\<close>. \<open>test\<close> and \<open>set\<close> check the position.\<close>

type_synonym stream_mask_t = u64

definition mask_test :: "stream_mask_t \<Rightarrow> nat \<Rightarrow> cpp_error + bool" where
  "mask_test m i = (if i < MAXIMUM_FPGA_NUM_STREAMS then Inr (bit m i) else Inl OutOfRange)"

definition mask_set :: "stream_mask_t \<Rightarrow> nat \<Rightarrow> cpp_error + stream_mask_t" where
  "mask_set m i = (if i < MAXIMUM_FPGA_NUM_STREAMS then Inr (set_bit i m) else Inl OutOfRange)"

section \<open>Element types\<close>

datatype type_t =
  BYTE_T | INT32_T | INT64_T | FLOAT_T | DOUBLE_T | INT16_T | INT128_T | NUM_TYPES

text \<open>The value of an enumerator: its position in the declaration.\<close>

fun type_code :: "type_t \<Rightarrow> u8" where
  "type_code BYTE_T = 0"
| "type_code INT32_T = 1"
| "type_code INT64_T = 2"
| "type_code FLOAT_T = 3"
| "type_code DOUBLE_T = 4"
| "type_code INT16_T = 5"
| "type_code INT128_T = 6"
| "type_code NUM_TYPES = 7"

fun show_type_t :: "type_t \<Rightarrow> string" where
  "show_type_t BYTE_T = ''type_t::BYTE_T''"
| "show_type_t INT32_T = ''type_t::INT32_T''"
| "show_type_t INT64_T = ''type_t::INT64_T''"
| "show_type_t FLOAT_T = ''type_t::FLOAT_T''"
| "show_type_t DOUBLE_T = ''type_t::DOUBLE_T''"
| "show_type_t INT16_T = ''type_t::INT16_T''"
| "show_type_t INT128_T = ''type_t::INT128_T''"
| "show_type_t NUM_TYPES = ''type_t::NUM_TYPES''"

fun size_of :: "type_t \<Rightarrow> cpp_error + u64" where
  "size_of BYTE_T = Inr 1"
| "size_of INT32_T = Inr 4"
| "size_of INT64_T = Inr 8"
| "size_of FLOAT_T = Inr 4"
| "size_of DOUBLE_T = Inr 8"
| "size_of INT16_T = Inr 2"
| "size_of INT128_T = Inr 16"
| "size_of NUM_TYPES = Inl (InvalidArgument ''Invalid type'')"

text \<open>
  \<open>dispatch_type\<close> calls its functor at a C++ type. The model is the type it is called at, one of
  the alternatives of \<open>Value\<close>.
\<close>

datatype value_type = std_byte | int32 | int64 | float32 | double64 | int16

fun sizeof_value :: "value_type \<Rightarrow> u64" where
  "sizeof_value std_byte = 1"
| "sizeof_value int32 = 4"
| "sizeof_value int64 = 8"
| "sizeof_value float32 = 4"
| "sizeof_value double64 = 8"
| "sizeof_value int16 = 2"

fun dispatch_type :: "type_t \<Rightarrow> (value_type \<Rightarrow> cpp_error + 'a) \<Rightarrow> cpp_error + 'a" where
  "dispatch_type BYTE_T func = func std_byte"
| "dispatch_type INT32_T func = func int32"
| "dispatch_type INT64_T func = func int64"
| "dispatch_type FLOAT_T func = func float32"
| "dispatch_type DOUBLE_T func = func double64"
| "dispatch_type INT16_T func = func int16"
| "dispatch_type INT128_T func =
     Inl (InvalidArgument ''INT128_T cannot be dispatched to a value type'')"
| "dispatch_type NUM_TYPES func = Inl (InvalidArgument ''Invalid type'')"

lemma type_code_inject: "type_code a = type_code b \<longleftrightarrow> a = b"
  by (cases a; cases b) simp_all

lemma type_code_bound: "unat (type_code t) < 8"
  by (cases t) simp_all

instantiation type_t :: linorder
begin

definition less_eq_type_t :: "type_t \<Rightarrow> type_t \<Rightarrow> bool" where
  "less_eq_type_t a b \<longleftrightarrow> type_code a \<le> type_code b"

definition less_type_t :: "type_t \<Rightarrow> type_t \<Rightarrow> bool" where
  "less_type_t a b \<longleftrightarrow> type_code a < type_code b"

instance
  by standard
    (auto simp: less_eq_type_t_def less_type_t_def dest: antisym simp flip: type_code_inject)

end

section \<open>Status\<close>

datatype StatusCode = OK | OutOfMemory | Error

fun status_code :: "StatusCode \<Rightarrow> int" where
  "status_code OK = 0"
| "status_code OutOfMemory = 2"
| "status_code Error = 3"

record Status =
  code :: int
  message :: string

definition Status_OK :: Status where
  "Status_OK = \<lparr>code = status_code OK, message = []\<rparr>"

definition Status_of :: "StatusCode \<Rightarrow> string \<Rightarrow> Status" where
  "Status_of c msg = \<lparr>code = status_code c, message = msg\<rparr>"

definition status_ok :: "Status \<Rightarrow> bool" where
  "status_ok st \<longleftrightarrow> code st = status_code OK"

text \<open>\<open>file\<close> is what \<open>__FILE__\<close> expands to in the header; \<open>__LINE__\<close> is 56.\<close>

definition check_status :: "string \<Rightarrow> Status \<Rightarrow> cpp_error + unit" where
  "check_status file st =
     (if \<not> status_ok st
      then Inl (RuntimeError (''Celeris Error: '' @ show_int (code st) @ ''; Message: '' @ message st @ newline @
        file @ '':'' @ show_nat 56))
      else Inr ())"

lemma status_ok_OK [simp]: "status_ok Status_OK"
  by (simp add: status_ok_def Status_OK_def)

lemma status_ok_of [simp]: "status_ok (Status_of c msg) \<longleftrightarrow> c = OK"
  by (cases c) (simp_all add: status_ok_def Status_of_def)

section \<open>Properties\<close>

text \<open>The compile-time logarithm: for every value but 0 the result \<open>k\<close> is the position of the highest
  bit, that is \<open>2^k \<le> val < 2^(k+1)\<close>, and it fits the 32 bits of the value.\<close>

theorem floor_log2_bounds:
  assumes "val \<noteq> 0"
  shows "unat (floor_log2 val) < 32 \<and> 2 ^ unat (floor_log2 val) \<le> unat val \<and>
    unat val < 2 ^ Suc (unat (floor_log2 val))"
  using assms by (rule floor_log2_bounds_aux)

theorem floor_log2_bounds_witness:
  "unat (floor_log2 100000) < 32 \<and> 2 ^ unat (floor_log2 100000) \<le> unat (100000 :: u32) \<and>
    unat (100000 :: u32) < 2 ^ Suc (unat (floor_log2 100000))"
  by (rule floor_log2_bounds) simp

text \<open>\<open>dispatch_type\<close> calls its functor at a C++ type of exactly the size \<open>size_of\<close> gives for the
  element type; the only element type with a size and no C++ type is the 128-bit integer, and the
  number of types is neither.\<close>

theorem dispatch_agrees_with_size_of:
  "dispatch_type t (\<lambda>v. Inr (sizeof_value v)) =
     (if t = INT128_T then Inl (InvalidArgument ''INT128_T cannot be dispatched to a value type'')
      else size_of t)"
  by (cases t) simp_all

end
