(* ===== verification/Coyote.thy ===== *)
theory Coyote
  imports Common_Types
begin

text \<open>
  The driver library Coyote is not part of the repository. What the host library does with a
  \<open>cThread\<close> is recorded as the sequence of calls it makes (\<open>coyote_call\<close>, oldest first); what it
  reads from the device comes from a parameter \<open>csr\<close> that gives the contents of a register.
\<close>

type_synonym csr = "u32 \<Rightarrow> u64"

datatype coyote_call =
    SetCSR u64 u32                        \<comment> \<open>\<open>setCSR(value, address)\<close>\<close>
  | UserMap ptr u64                       \<comment> \<open>\<open>userMap(address, size)\<close>\<close>
  | UserUnmap ptr                         \<comment> \<open>\<open>userUnmap(address)\<close>\<close>
  | LocalRead ptr u64 stream_t bool       \<comment> \<open>\<open>invoke(LOCAL_READ, {addr, len, STRM_HOST, dest}, last)\<close>\<close>
  | LocalWrite ptr u64 stream_t bool      \<comment> \<open>\<open>invoke(LOCAL_WRITE, {addr, len, STRM_HOST, dest}, last)\<close>\<close>
  | LocalOffload ptr u64                  \<comment> \<open>\<open>invoke(LOCAL_OFFLOAD, {addr, len})\<close>\<close>
  | ClearCompleted                        \<comment> \<open>\<open>clearCompleted()\<close>\<close>

type_synonym cthread = "coyote_call list"

definition call :: "coyote_call \<Rightarrow> (cthread, unit) action" where
  "call c = modifyE (\<lambda>cs. cs @ [c])"

lemma wp_call [wp_simps]: "wp (call c) Q E cs = Q () (cs @ [c])"
  by (simp add: call_def wp_simps)

lemma call_apply: "call c cs = (Inr (), cs @ [c])"
  by (simp add: call_def modifyE_def)

end
