(* ===== verification/Memory_Pool.thy ===== *)
theory Memory_Pool
  imports Coyote
begin

text \<open>
  \<open>software/libstf/memory_pool.hpp\<close> and \<open>memory_pool.cpp\<close>, up to the pool of huge pages:
  the abstract class \<open>MemoryPool\<close> as a record of its virtual methods, the contract its clients
  rely on as the locale \<open>memory_pool\<close>, the bounds check both pools share, the
  \<open>LinearAllocator\<close> and the \<open>SimpleMemoryPool\<close> that runs on it. The lemmas give the functional
  behaviour of the linear allocator, the invariant of the pool (every buffer lies inside the used
  part of the arena, no two overlap) and its preservation by every method; the interpretation
  \<open>simple_pool\<close> shows that the pool meets the contract.
\<close>

section \<open>The abstract class\<close>

text \<open>
  The virtual methods. A parameter \<open>void **out\<close> that a method may write is an argument (the value
  it has before the call) and a component of the result (the value it has after it).
\<close>

record 'p MemoryPool =
  pool_allocate :: "u64 \<Rightarrow> u64 \<Rightarrow> ptr \<Rightarrow> ('p, Status \<times> ptr) action"
  pool_reallocate :: "u64 \<Rightarrow> u64 \<Rightarrow> u64 \<Rightarrow> ptr \<Rightarrow> ('p, Status \<times> ptr) action"
  pool_free :: "ptr \<Rightarrow> u64 \<Rightarrow> u64 \<Rightarrow> ('p, unit) action"
  pool_get_page_boundaries :: "ptr \<Rightarrow> 'p \<Rightarrow> cpp_error + (ptr \<times> u64)"
  pool_bytes_allocated :: "'p \<Rightarrow> u64"
  pool_total_bytes_allocated :: "'p \<Rightarrow> u64"
  pool_num_allocations :: "'p \<Rightarrow> u64"
  pool_max_memory :: "'p \<Rightarrow> u64"
  pool_backend_name :: "'p \<Rightarrow> string"

text \<open>Both pools use the same default alignment, and both forward the overloads without one.\<close>

definition DEFAULT_ALIGNMENT :: u64 where "DEFAULT_ALIGNMENT = 64"

definition pool_allocate_default ::
  "'p MemoryPool \<Rightarrow> u64 \<Rightarrow> ptr \<Rightarrow> ('p, Status \<times> ptr) action" where
  "pool_allocate_default ops sz out = pool_allocate ops sz DEFAULT_ALIGNMENT out"

definition pool_free_default :: "'p MemoryPool \<Rightarrow> ptr \<Rightarrow> u64 \<Rightarrow> ('p, unit) action" where
  "pool_free_default ops p sz = pool_free ops p sz DEFAULT_ALIGNMENT"

definition max_request :: nat where "max_request = 2 ^ 48"

text \<open>
  What a client may rely on. \<open>live p\<close> is the ghost map of the blocks that were allocated and not
  freed, with their sizes. An exception leaves the blocks as they were.
\<close>

locale memory_pool =
  fixes ops :: "'p MemoryPool"
    and pool_inv :: "'p \<Rightarrow> bool"
    and live :: "'p \<Rightarrow> ptr \<rightharpoonup> u64"
  assumes allocate_law:
      "pool_inv p \<Longrightarrow> 0 < sz \<Longrightarrow> unat sz \<le> max_request \<Longrightarrow> valid_alignment al \<Longrightarrow>
       wp (pool_allocate ops sz al out)
         (\<lambda>(st, q) p'. pool_inv p' \<and>
            (if status_ok st then live p q = None \<and> live p' = (live p)(q \<mapsto> sz)
             else live p' = live p))
         (\<lambda>_ p'. pool_inv p' \<and> live p' = live p) p"
    and reallocate_law:
      "pool_inv p \<Longrightarrow> live p q = Some n \<Longrightarrow> 0 < new_size \<Longrightarrow> unat new_size \<le> max_request \<Longrightarrow>
       valid_alignment al \<Longrightarrow>
       wp (pool_reallocate ops n new_size al q)
         (\<lambda>(st, q') p'. pool_inv p' \<and>
            (if status_ok st then (q' = q \<or> live p q' = None) \<and>
                live p' = ((live p)(q := None))(q' \<mapsto> new_size)
             else q' = q \<and> live p' = live p))
         (\<lambda>_ p'. pool_inv p' \<and> live p' = live p) p"
    and free_law:
      "pool_inv p \<Longrightarrow> live p q = Some n \<Longrightarrow>
       wp (pool_free ops q sz al)
         (\<lambda>_ p'. pool_inv p' \<and> live p' = (live p)(q := None))
         (\<lambda>_ p'. pool_inv p' \<and> live p' = live p) p"
    and live_block: "pool_inv p \<Longrightarrow> live p q = Some n \<Longrightarrow> q \<noteq> nullptr \<and> 0 < n \<and> no_wrap q n"
    and live_disjoint:
      "pool_inv p \<Longrightarrow> live p a = Some n \<Longrightarrow> live p b = Some m \<Longrightarrow> a \<noteq> b \<Longrightarrow>
       range_of a n \<inter> range_of b m = {}"
    and live_page:
      "pool_inv p \<Longrightarrow> live p q = Some n \<Longrightarrow> unat x \<in> range_of q n \<Longrightarrow>
       \<exists>a m. pool_get_page_boundaries ops x p = Inr (a, m) \<and> no_wrap a m \<and> unat x \<in> range_of a m"

text \<open>
  A client whose pool never throws when it frees a live block. The destructors rely on it: they
  do not catch what \<open>free\<close> throws.
\<close>

locale settled_pool = memory_pool +
  assumes free_returns:
    "pool_inv p \<Longrightarrow> live p q = Some n \<Longrightarrow> fst (pool_free ops q sz al p) = Inr ()"
begin

lemma settled_free_law:
  assumes "pool_inv p" and "live p q = Some n"
  shows "wp (pool_free ops q sz al) (\<lambda>_ p'. pool_inv p' \<and> live p' = (live p)(q := None)) (\<lambda>_ _. False) p"
  using free_law [OF assms, of sz al] free_returns [OF assms, of sz al] by (auto simp: wp_def split: prod.splits)

end

section \<open>The bounds check\<close>

definition is_buffer_within_bounds :: "ptr \<times> u64 \<Rightarrow> ptr \<times> u64 \<Rightarrow> bool" where
  "is_buffer_within_bounds bounds buf =
     (let buf_start = fst buf;
          buf_end = buf_start + snd buf;
          bounds_start = fst bounds;
          bounds_end = bounds_start + snd bounds
      in bounds_start \<le> buf_start \<and> buf_end \<le> bounds_end)"

text \<open>Without wrap-around the check is inclusion of the byte ranges.\<close>

lemma within_bounds_iff:
  "no_wrap a n \<Longrightarrow> no_wrap b m \<Longrightarrow>
   is_buffer_within_bounds (a, n) (b, m) \<longleftrightarrow> unat a \<le> unat b \<and> unat b + unat m \<le> unat a + unat n"
  by (simp add: is_buffer_within_bounds_def word_le_nat_alt unat_plus_no_wrap)

lemma within_bounds_byte:
  "no_wrap a n \<Longrightarrow> no_wrap x 1 \<Longrightarrow> is_buffer_within_bounds (a, n) (x, 1) \<longleftrightarrow> unat x \<in> range_of a n"
  by (auto simp: within_bounds_iff range_of_def)

section \<open>LinearAllocator\<close>

record LinearAllocator =
  la_buffer :: ptr
  la_size :: u64
  la_offset :: u64

text \<open>The constructor; \<open>buf\<close> is what \<open>std::aligned_alloc\<close> returned for the arena.\<close>

definition LinearAllocator_init :: "ptr \<Rightarrow> u64 \<Rightarrow> cpp_error + LinearAllocator" where
  "LinearAllocator_init buf sz =
     (if buf = nullptr then Inl BadAlloc
      else Inr \<lparr>la_buffer = buf, la_size = sz, la_offset = 0\<rparr>)"

definition LinearAllocator_allocate ::
  "u64 \<Rightarrow> u64 \<Rightarrow> ptr \<Rightarrow> (LinearAllocator, bool \<times> ptr) action" where
  "LinearAllocator_allocate sz alignment out la =
     (let aligned = (la_offset la + alignment - 1) AND NOT (alignment - 1) in
      if aligned + sz > la_size la then (Inr (False, out), la)
      else (Inr (True, la_buffer la + aligned), la\<lparr>la_offset := aligned + sz\<rparr>))"

definition LinearAllocator_free :: "ptr \<Rightarrow> (LinearAllocator, unit) action" where
  "LinearAllocator_free p = ret ()"

text \<open>The arena lies inside the address space, at the alignment it was requested with.\<close>

definition la_wf :: "LinearAllocator \<Rightarrow> bool" where
  "la_wf la \<longleftrightarrow> la_buffer la \<noteq> nullptr \<and> unat DEFAULT_ALIGNMENT dvd unat (la_buffer la) \<and>
     no_wrap (la_buffer la) (la_size la) \<and> la_offset la \<le> la_size la \<and> unat (la_size la) \<le> 2 ^ 48"

text \<open>
  Requests of up to this size cannot overflow the allocator's arithmetic, whose aligned offset stays
  below 2^49; larger ones wrap around (\<open>linear_allocator_wraps\<close> below).
\<close>

definition max_simple_request :: nat where "max_simple_request = 2 ^ 64 - 2 ^ 49"

lemma simple_request: "unat sz \<le> max_request \<Longrightarrow> unat sz \<le> max_simple_request"
  by (simp add: max_request_def max_simple_request_def)

text \<open>The offset an allocation is placed at, as a natural number.\<close>

definition place :: "LinearAllocator \<Rightarrow> u64 \<Rightarrow> nat" where
  "place la al = round_up (unat (la_offset la)) (unat al)"

lemma la_place:
  assumes wf: "la_wf la" and al: "valid_alignment al" and sz: "unat sz \<le> max_simple_request"
  shows "unat ((la_offset la + al - 1) AND NOT (al - 1)) = place la al"
    and "unat (((la_offset la + al - 1) AND NOT (al - 1)) + sz) = place la al + unat sz"
    and "unat (la_offset la) \<le> place la al"
    and "place la al + unat sz < 2 ^ 64"
proof -
  let ?o = "la_offset la"
  have o: "unat ?o \<le> 2 ^ 48"
    using wf by (auto simp: la_wf_def word_le_nat_alt)
  note al48 = valid_alignment_le [OF al]
  show pl: "unat ((?o + al - 1) AND NOT (al - 1)) = place la al"
    unfolding place_def by (rule unat_align_up [OF al o])
  show ge: "unat ?o \<le> place la al"
    unfolding place_def by (rule round_up_ge) (use al48 in simp)
  have "place la al < unat ?o + unat al"
    unfolding place_def by (rule round_up_less) (use al48 in simp)
  with o al48 have "place la al < 2 ^ 49" by simp
  with sz show bound: "place la al + unat sz < 2 ^ 64"
    by (simp add: max_simple_request_def)
  show "unat (((?o + al - 1) AND NOT (al - 1)) + sz) = place la al + unat sz"
    using bound by (subst unat_add_no_wrap) (simp_all add: pl)
qed

text \<open>
  The allocator's behaviour on requests that cannot wrap around: it succeeds exactly when the
  aligned block still fits, and then returns the block at the aligned offset.
\<close>

lemma LinearAllocator_allocate_cases:
  assumes wf: "la_wf la" and al: "valid_alignment al" and sz: "unat sz \<le> max_simple_request"
  shows "LinearAllocator_allocate sz al out la =
    (if unat (la_size la) < place la al + unat sz then (Inr (False, out), la)
     else (Inr (True, la_buffer la + of_nat (place la al)),
           la\<lparr>la_offset := of_nat (place la al + unat sz)\<rparr>))"
proof -
  note pl = la_place [OF wf al sz]
  have "(la_offset la + al - 1) AND NOT (al - 1) = of_nat (place la al)"
    by (rule word_eq_of_nat) (rule pl(1))
  moreover have "((la_offset la + al - 1) AND NOT (al - 1)) + sz = of_nat (place la al + unat sz)"
    by (rule word_eq_of_nat) (rule pl(2))
  ultimately show ?thesis
    using pl(2) by (simp add: LinearAllocator_allocate_def Let_def word_less_nat_alt)
qed


lemma LinearAllocator_allocate_wp:
  assumes wf: "la_wf la" and al: "valid_alignment al" and sz: "unat sz \<le> max_simple_request"
  shows "wp (LinearAllocator_allocate sz al out)
    (\<lambda>(fits, q) la'. la_wf la' \<and> la_buffer la' = la_buffer la \<and> la_size la' = la_size la \<and>
       (if fits then unat q = unat (la_buffer la) + place la al \<and>
                     unat (la_offset la') = place la al + unat sz
        else la' = la \<and> q = out))
    (\<lambda>_ _. False) la"
proof (cases "unat (la_size la) < place la al + unat sz")
  case True
  then show ?thesis
    using wf by (simp add: wp_def LinearAllocator_allocate_cases [OF assms])
next
  case False
  have bound: "place la al + unat sz < 2 ^ 64"
    by (rule la_place(4) [OF assms])
  have arena: "unat (la_buffer la) + unat (la_size la) < 2 ^ 64"
    using wf by (simp add: la_wf_def no_wrap_def)
  have off: "unat (of_nat (place la al + unat sz) :: u64) = place la al + unat sz"
    by (rule unat_of_nat_64) (rule bound)
  have pl: "unat (of_nat (place la al) :: u64) = place la al"
    using bound by (simp add: unat_of_nat)
  have "unat (la_buffer la + of_nat (place la al)) = unat (la_buffer la) + place la al"
    using False arena pl by (subst unat_add_no_wrap) simp_all
  moreover have "la_wf (la\<lparr>la_offset := of_nat (place la al + unat sz)\<rparr>)"
    using wf False off by (simp add: la_wf_def word_le_nat_alt)
  ultimately show ?thesis
    using False off by (simp add: wp_def LinearAllocator_allocate_cases [OF assms])
qed

section \<open>SimpleMemoryPool\<close>

text \<open>
  \<open>allocated_buffers\<close> is an \<open>unordered_map\<close>: an association list, in the unspecified order in which
  the map is traversed. \<open>emplace\<close> leaves an entry that exists. The bytes of the arena are the
  function \<open>sp_memory\<close>.
\<close>

definition emplace :: "'k \<Rightarrow> 'v \<Rightarrow> ('k \<times> 'v) list \<Rightarrow> ('k \<times> 'v) list" where
  "emplace k v xs = (case map_of xs k of None \<Rightarrow> (k, v) # xs | Some _ \<Rightarrow> xs)"

definition memcpy :: "ptr \<Rightarrow> ptr \<Rightarrow> u64 \<Rightarrow> (ptr \<Rightarrow> u8) \<Rightarrow> ptr \<Rightarrow> u8" where
  "memcpy dst src n mem = (\<lambda>a. if a - dst < n then mem (src + (a - dst)) else mem a)"

record SimpleMemoryPool =
  sp_allocated_buffers :: "(ptr \<times> u64) list"
  sp_total_bytes_allocated :: u64
  sp_bytes_allocated :: u64
  sp_num_allocs :: u64
  sp_linear_allocator :: LinearAllocator
  sp_memory :: "ptr \<Rightarrow> u8"

definition SIMPLE_ALLOCATOR_SIZE :: u64 where "SIMPLE_ALLOCATOR_SIZE = 2 ^ 30"

definition SimpleMemoryPool_init :: "ptr \<Rightarrow> (ptr \<Rightarrow> u8) \<Rightarrow> cpp_error + SimpleMemoryPool" where
  "SimpleMemoryPool_init buf mem =
     (case LinearAllocator_init buf SIMPLE_ALLOCATOR_SIZE of
        Inl e \<Rightarrow> Inl e
      | Inr la \<Rightarrow> Inr \<lparr>sp_allocated_buffers = [], sp_total_bytes_allocated = 0,
          sp_bytes_allocated = 0, sp_num_allocs = 0, sp_linear_allocator = la, sp_memory = mem\<rparr>)"

definition linear_allocate :: "u64 \<Rightarrow> u64 \<Rightarrow> ptr \<Rightarrow> (SimpleMemoryPool, bool \<times> ptr) action" where
  "linear_allocate sz alignment out =
     onE sp_linear_allocator (\<lambda>la p. p\<lparr>sp_linear_allocator := la\<rparr>)
       (LinearAllocator_allocate sz alignment out)"

definition linear_free :: "ptr \<Rightarrow> (SimpleMemoryPool, unit) action" where
  "linear_free q =
     onE sp_linear_allocator (\<lambda>la p. p\<lparr>sp_linear_allocator := la\<rparr>) (LinearAllocator_free q)"

definition SimpleMemoryPool_allocate ::
  "u64 \<Rightarrow> u64 \<Rightarrow> ptr \<Rightarrow> (SimpleMemoryPool, Status \<times> ptr) action" where
  "SimpleMemoryPool_allocate sz alignment out =
     (if sz = 0 then ret (Status_OK, nullptr)
      else
        seqE (assertE (alignment AND (alignment - 1) = 0)) (\<lambda>_.
        seqE (linear_allocate sz alignment out) (\<lambda>(fits, out).
        if \<not> fits then ret (Status_of OutOfMemory ''Unable to allocate memory!'', out)
        else
          seqE (modifyE (\<lambda>p. p\<lparr>
              sp_total_bytes_allocated := sp_total_bytes_allocated p + sz,
              sp_bytes_allocated := sp_bytes_allocated p + sz,
              sp_allocated_buffers := emplace out sz (sp_allocated_buffers p),
              sp_num_allocs := sp_num_allocs p + 1\<rparr>)) (\<lambda>_.
          ret (Status_OK, out)))))"

definition SimpleMemoryPool_free :: "ptr \<Rightarrow> u64 \<Rightarrow> u64 \<Rightarrow> (SimpleMemoryPool, unit) action" where
  "SimpleMemoryPool_free q sz alignment =
     (if q \<noteq> nullptr then
        seqE (modifyE (\<lambda>p. p\<lparr>
            sp_bytes_allocated := sp_bytes_allocated p - sz,
            sp_num_allocs := sp_num_allocs p - 1\<rparr>)) (\<lambda>_.
        seqE (linear_free q) (\<lambda>_.
        modifyE (\<lambda>p. p\<lparr>sp_allocated_buffers := AList.delete q (sp_allocated_buffers p)\<rparr>)))
      else ret ())"

definition SimpleMemoryPool_reallocate ::
  "u64 \<Rightarrow> u64 \<Rightarrow> u64 \<Rightarrow> ptr \<Rightarrow> (SimpleMemoryPool, Status \<times> ptr) action" where
  "SimpleMemoryPool_reallocate old_size new_size alignment q =
     (if new_size = 0 then
        seqE (SimpleMemoryPool_free q old_size alignment) (\<lambda>_. ret (Status_OK, nullptr))
      else if q = nullptr then
        seqE (assertE (old_size = 0)) (\<lambda>_. SimpleMemoryPool_allocate new_size alignment q)
      else
        seqE (assertE (alignment AND (alignment - 1) = 0)) (\<lambda>_.
        seqE (linear_allocate new_size alignment nullptr) (\<lambda>(fits, new_ptr).
        if \<not> fits then ret (Status_of OutOfMemory ''Unable to reallocate memory!'', q)
        else
          seqE (modifyE (\<lambda>p. p\<lparr>
              sp_memory := memcpy new_ptr q (min old_size new_size) (sp_memory p)\<rparr>)) (\<lambda>_.
          seqE (linear_free q) (\<lambda>_.
          seqE (modifyE (\<lambda>p. p\<lparr>
              sp_allocated_buffers :=
                emplace new_ptr new_size (AList.delete q (sp_allocated_buffers p))\<rparr>)) (\<lambda>_.
          seqE (modifyE (\<lambda>p.
              if old_size < new_size then p\<lparr>
                sp_total_bytes_allocated := sp_total_bytes_allocated p + (new_size - old_size),
                sp_bytes_allocated := sp_bytes_allocated p + (new_size - old_size)\<rparr>
              else p\<lparr>sp_bytes_allocated := sp_bytes_allocated p - (old_size - new_size)\<rparr>)) (\<lambda>_.
          ret (Status_OK, new_ptr))))))))"

definition SimpleMemoryPool_get_page_boundaries ::
  "ptr \<Rightarrow> SimpleMemoryPool \<Rightarrow> cpp_error + (ptr \<times> u64)" where
  "SimpleMemoryPool_get_page_boundaries q p =
     (case find (\<lambda>buffer. is_buffer_within_bounds buffer (q, 1)) (sp_allocated_buffers p) of
        Some buffer \<Rightarrow> Inr buffer
      | None \<Rightarrow> Inl (RuntimeError (''The provided address '' @ show_ptr q @
          '' is not within the bounds of the memory pool!'')))"

text \<open>The destructor frees the first buffer of the map until the map is empty.\<close>

partial_function (option) SimpleMemoryPool_destroy ::
  "SimpleMemoryPool \<Rightarrow> SimpleMemoryPool option" where
  "SimpleMemoryPool_destroy p =
     (case sp_allocated_buffers p of
        [] \<Rightarrow> Some p
      | (q, sz) # _ \<Rightarrow>
          SimpleMemoryPool_destroy (snd (SimpleMemoryPool_free q sz DEFAULT_ALIGNMENT p)))"

declare SimpleMemoryPool_destroy.simps [code]

definition SimpleMemoryPool_ops :: "SimpleMemoryPool MemoryPool" where
  "SimpleMemoryPool_ops = \<lparr>
     pool_allocate = SimpleMemoryPool_allocate,
     pool_reallocate = SimpleMemoryPool_reallocate,
     pool_free = SimpleMemoryPool_free,
     pool_get_page_boundaries = SimpleMemoryPool_get_page_boundaries,
     pool_bytes_allocated = sp_bytes_allocated,
     pool_total_bytes_allocated = sp_total_bytes_allocated,
     pool_num_allocations = sp_num_allocs,
     pool_max_memory = (\<lambda>_. - 1),
     pool_backend_name = (\<lambda>_. ''SimpleMemoryPool'')\<rparr>"


section \<open>The invariant of the pool\<close>

definition sp_live :: "SimpleMemoryPool \<Rightarrow> ptr \<rightharpoonup> u64" where
  "sp_live p = map_of (sp_allocated_buffers p)"

text \<open>Blocks inside \<open>[lo, hi)\<close> that are not empty and do not overlap.\<close>

definition blocks_wf :: "nat \<Rightarrow> nat \<Rightarrow> (ptr \<rightharpoonup> u64) \<Rightarrow> bool" where
  "blocks_wf lo hi m \<longleftrightarrow>
     (\<forall>a n. m a = Some n \<longrightarrow> 0 < n \<and> lo \<le> unat a \<and> unat a + unat n \<le> hi) \<and>
     (\<forall>a n b k. m a = Some n \<longrightarrow> m b = Some k \<longrightarrow> a \<noteq> b \<longrightarrow> range_of a n \<inter> range_of b k = {})"

definition sp_inv :: "SimpleMemoryPool \<Rightarrow> bool" where
  "sp_inv p \<longleftrightarrow> la_wf (sp_linear_allocator p) \<and> distinct (map fst (sp_allocated_buffers p)) \<and>
     blocks_wf (unat (la_buffer (sp_linear_allocator p)))
       (unat (la_buffer (sp_linear_allocator p)) + unat (la_offset (sp_linear_allocator p)))
       (sp_live p)"

lemma blocks_wf_empty [simp]: "blocks_wf lo hi Map.empty"
  by (simp add: blocks_wf_def)

lemma blocks_wf_mono: "blocks_wf lo hi m \<Longrightarrow> hi \<le> hi' \<Longrightarrow> blocks_wf lo hi' m"
  by (fastforce simp: blocks_wf_def)

lemma blocks_wf_delete: "blocks_wf lo hi m \<Longrightarrow> blocks_wf lo hi (m(q := None))"
  by (auto simp: blocks_wf_def)

lemma blocks_wf_insert:
  assumes wf: "blocks_wf lo hi m" and q: "lo \<le> hi" "hi \<le> unat q" "unat q + unat n \<le> hi'" "0 < n"
  shows "blocks_wf lo hi' (m(q \<mapsto> n))"
proof -
  have old: "unat a + unat k \<le> unat q" "0 < k" "lo \<le> unat a" if "m a = Some k" for a k
    using wf q that by (fastforce simp: blocks_wf_def)+
  have fresh: "range_of a k \<inter> range_of q n = {}" if "m a = Some k" for a k
    using old(1) [OF that] by (auto simp: range_of_def)
  have old_disj: "range_of a k \<inter> range_of b j = {}"
    if "m a = Some k" "m b = Some j" "a \<noteq> b" for a k b j
    using wf that by (simp add: blocks_wf_def)
  show ?thesis
    unfolding blocks_wf_def
    using q old fresh old_disj by (auto simp: Int_commute dest: old(1))
qed

lemma blocks_wf_fresh: "blocks_wf lo hi m \<Longrightarrow> hi \<le> unat q \<Longrightarrow> m q = None"
  by (cases "m q") (fastforce simp: blocks_wf_def word_less_nat_alt)+

lemma map_of_emplace: "map_of xs k = None \<Longrightarrow> map_of (emplace k v xs) = (map_of xs)(k \<mapsto> v)"
  by (simp add: emplace_def)

lemma distinct_emplace: "distinct (map fst xs) \<Longrightarrow> distinct (map fst (emplace k v xs))"
  by (auto simp: emplace_def map_of_eq_None_iff split: option.splits)

lemma map_of_delete: "map_of (AList.delete k xs) = (map_of xs)(k := None)"
  by (simp add: AList.delete_conv')

lemma sp_inv_live: "sp_inv p \<Longrightarrow> sp_live p q = Some n \<Longrightarrow>
    0 < n \<and> unat (la_buffer (sp_linear_allocator p)) \<le> unat q \<and>
    unat q + unat n \<le> unat (la_buffer (sp_linear_allocator p)) + unat (la_offset (sp_linear_allocator p))"
  by (auto simp: sp_inv_def blocks_wf_def)

lemma sp_live_nonnull:
  assumes inv: "sp_inv p" and q: "sp_live p q = Some n"
  shows "q \<noteq> nullptr \<and> 0 < n \<and> no_wrap q n"
proof -
  have la: "la_wf (sp_linear_allocator p)"
    using inv by (simp add: sp_inv_def)
  then have "0 < unat (la_buffer (sp_linear_allocator p))"
    by (simp add: la_wf_def unat_gt_0)
  moreover have "unat (la_offset (sp_linear_allocator p)) \<le> unat (la_size (sp_linear_allocator p))"
    using la by (simp add: la_wf_def word_le_nat_alt)
  ultimately show ?thesis
    using la sp_inv_live [OF inv q] by (auto simp: la_wf_def no_wrap_def)
qed

text \<open>
  What a successful request to the arena gives: the new block starts at or after everything
  handed out so far, so adding it to the map keeps the invariant.
\<close>

lemma linear_allocate_wp:
  assumes inv: "sp_inv p" and al: "valid_alignment al" and sz: "unat sz \<le> max_simple_request"
  shows "wp (linear_allocate sz al out)
    (\<lambda>(fits, q) p'. (\<exists>la'. p' = p\<lparr>sp_linear_allocator := la'\<rparr> \<and> la_wf la' \<and>
        la_buffer la' = la_buffer (sp_linear_allocator p) \<and>
        (if fits then
           unat (la_buffer la') + unat (la_offset (sp_linear_allocator p)) \<le> unat q \<and>
           unat q + unat sz = unat (la_buffer la') + unat (la_offset la')
         else p' = p \<and> q = out)))
    (\<lambda>_ _. False) p"
proof -
  have la: "la_wf (sp_linear_allocator p)"
    using inv by (simp add: sp_inv_def)
  show ?thesis
    unfolding linear_allocate_def wp_onE
  proof (rule wp_mono [OF LinearAllocator_allocate_wp [OF la al sz]], goal_cases)
    case (1 r la')
    then show ?case
      using la_place(3) [OF la al sz]
      by (cases r) (auto intro!: exI [of _ la'] split: if_splits)
  qed simp
qed

lemma sp_inv_add_block:
  assumes inv: "sp_inv p" and la': "la_wf la'" "la_buffer la' = la_buffer (sp_linear_allocator p)"
    and q: "unat (la_buffer la') + unat (la_offset (sp_linear_allocator p)) \<le> unat q"
      "unat q + unat n = unat (la_buffer la') + unat (la_offset la')" "0 < n"
    and bs: "distinct (map fst bs)" "map_of bs = (sp_live p)(x := None) \<or> map_of bs = sp_live p"
  shows "sp_live p q = None"
    and "map_of (emplace q n bs) = (map_of bs)(q \<mapsto> n)"
    and "sp_linear_allocator p' = la' \<Longrightarrow> sp_allocated_buffers p' = emplace q n bs \<Longrightarrow> sp_inv p'"
proof -
  let ?lo = "unat (la_buffer la')"
  let ?hi = "unat (la_buffer la') + unat (la_offset (sp_linear_allocator p))"
  have wf: "blocks_wf ?lo ?hi (sp_live p)"
    using inv la' by (simp add: sp_inv_def)
  show fresh: "sp_live p q = None"
    using wf q(1) by (rule blocks_wf_fresh)
  have bwf: "blocks_wf ?lo ?hi (map_of bs)"
    using bs(2) wf by (auto intro: blocks_wf_delete)
  have "map_of bs q = None"
    using bs(2) fresh by auto
  then show upd: "map_of (emplace q n bs) = (map_of bs)(q \<mapsto> n)"
    by (rule map_of_emplace)
  have "blocks_wf ?lo (?lo + unat (la_offset la')) ((map_of bs)(q \<mapsto> n))"
    using q by (intro blocks_wf_insert [OF bwf]) auto
  then show "sp_linear_allocator p' = la' \<Longrightarrow> sp_allocated_buffers p' = emplace q n bs \<Longrightarrow> sp_inv p'"
    using la' bs(1) upd by (simp add: sp_inv_def sp_live_def distinct_emplace)
qed


lemma sp_distinct: "sp_inv p \<Longrightarrow> distinct (map fst (sp_allocated_buffers p))"
  by (simp add: sp_inv_def)

lemma SimpleMemoryPool_allocate_wp:
  assumes inv: "sp_inv p" and pos: "0 < sz" and sz: "unat sz \<le> max_simple_request"
    and al: "valid_alignment al"
  shows "wp (SimpleMemoryPool_allocate sz al out)
    (\<lambda>(st, q) p'. sp_inv p' \<and>
       (if status_ok st then
          sp_live p q = None \<and> sp_live p' = (sp_live p)(q \<mapsto> sz) \<and>
          sp_bytes_allocated p' = sp_bytes_allocated p + sz \<and>
          sp_total_bytes_allocated p' = sp_total_bytes_allocated p + sz \<and>
          sp_num_allocs p' = sp_num_allocs p + 1
        else p' = p \<and> q = out))
    (\<lambda>_ _. False) p"
proof -
  have [simp]: "sz \<noteq> 0" using pos by auto
  have [simp]: "al AND (al - 1) = 0" by (rule valid_alignment_assert) (rule al)
  show ?thesis
    unfolding SimpleMemoryPool_allocate_def wp_if wp_simps if_False if_True simp_thms
      \<open>sz \<noteq> 0\<close> [THEN eq_False [THEN iffD2]] \<open>al AND (al - 1) = 0\<close>
  proof (rule wp_mono [OF linear_allocate_wp [OF inv al sz, of out]], goal_cases)
    case (1 r p1)
    obtain fits q where r: "r = (fits, q)" by (cases r)
    show ?case
    proof (cases fits)
      case False
      then show ?thesis using 1 r inv by (auto simp: wp_simps)
    next
      case True
      then obtain la' where p1: "p1 = p\<lparr>sp_linear_allocator := la'\<rparr>" and la': "la_wf la'"
          "la_buffer la' = la_buffer (sp_linear_allocator p)"
          "unat (la_buffer la') + unat (la_offset (sp_linear_allocator p)) \<le> unat q"
          "unat q + unat sz = unat (la_buffer la') + unat (la_offset la')"
        using 1 r by auto
      note add = sp_inv_add_block [OF inv la' pos sp_distinct [OF inv], folded sp_live_def]
      show ?thesis
        using True r p1 add by (simp add: wp_simps sp_live_def)
    qed
  qed simp
qed

lemma sp_live_list: "sp_live p q = Some n \<Longrightarrow> (q, n) \<in> set (sp_allocated_buffers p)"
  by (auto simp: sp_live_def dest: map_of_SomeD)

lemma SimpleMemoryPool_free_eq:
  "q \<noteq> nullptr \<Longrightarrow> SimpleMemoryPool_free q sz al p =
     (Inr (), p\<lparr>sp_bytes_allocated := sp_bytes_allocated p - sz,
                sp_num_allocs := sp_num_allocs p - 1,
                sp_allocated_buffers := AList.delete q (sp_allocated_buffers p)\<rparr>)"
  by (simp add: SimpleMemoryPool_free_def linear_free_def LinearAllocator_free_def method_defs)

lemma SimpleMemoryPool_free_null [simp]: "SimpleMemoryPool_free nullptr sz al = ret ()"
  by (simp add: SimpleMemoryPool_free_def)

lemma sp_inv_delete:
  assumes "sp_inv p" and "sp_linear_allocator p' = sp_linear_allocator p"
    and "sp_allocated_buffers p' = AList.delete q (sp_allocated_buffers p)"
  shows "sp_inv p'" and "sp_live p' = (sp_live p)(q := None)"
  using assms by (auto simp: sp_inv_def sp_live_def map_of_delete distinct_delete
      intro: blocks_wf_delete)

lemma SimpleMemoryPool_free_wp:
  assumes inv: "sp_inv p" and q: "sp_live p q = Some n"
  shows "wp (SimpleMemoryPool_free q sz al)
    (\<lambda>_ p'. sp_inv p' \<and> sp_live p' = (sp_live p)(q := None) \<and>
       sp_bytes_allocated p' = sp_bytes_allocated p - sz \<and> sp_num_allocs p' = sp_num_allocs p - 1)
    (\<lambda>_ _. False) p"
  using sp_live_nonnull [OF inv q] sp_inv_delete [OF inv]
  by (simp add: wp_def SimpleMemoryPool_free_eq)

lemma SimpleMemoryPool_reallocate_wp:
  assumes inv: "sp_inv p" and q: "sp_live p q = Some n" and pos: "0 < new_size"
    and sz: "unat new_size \<le> max_simple_request" and al: "valid_alignment al"
  shows "wp (SimpleMemoryPool_reallocate old_size new_size al q)
    (\<lambda>(st, q') p'. sp_inv p' \<and>
       (if status_ok st then
          sp_live p q' = None \<and> sp_live p' = ((sp_live p)(q := None))(q' \<mapsto> new_size) \<and>
          sp_memory p' = memcpy q' q (min old_size new_size) (sp_memory p) \<and>
          sp_bytes_allocated p' = sp_bytes_allocated p - old_size + new_size \<and>
          sp_num_allocs p' = sp_num_allocs p
        else p' = p \<and> q' = q))
    (\<lambda>_ _. False) p"
proof -
  have [simp]: "new_size \<noteq> 0" "q \<noteq> 0"
    using pos sp_live_nonnull [OF inv q] by auto
  have [simp]: "al AND (al - 1) = 0" by (rule valid_alignment_assert) (rule al)
  have bs: "distinct (map fst (AList.delete q (sp_allocated_buffers p)))"
    "map_of (AList.delete q (sp_allocated_buffers p)) = (sp_live p)(q := None)"
    using sp_distinct [OF inv] by (simp_all add: distinct_delete map_of_delete sp_live_def)
  show ?thesis
    unfolding SimpleMemoryPool_reallocate_def wp_if wp_simps if_False if_True simp_thms
      \<open>new_size \<noteq> 0\<close> [THEN eq_False [THEN iffD2]] \<open>q \<noteq> 0\<close> [THEN eq_False [THEN iffD2]]
      \<open>al AND (al - 1) = 0\<close>
  proof (rule wp_mono [OF linear_allocate_wp [OF inv al sz, of 0]], goal_cases)
    case (1 r p1)
    obtain fits q' where r: "r = (fits, q')" by (cases r)
    show ?case
    proof (cases fits)
      case False
      then show ?thesis using 1 r inv by (auto simp: wp_simps)
    next
      case True
      then obtain la' where p1: "p1 = p\<lparr>sp_linear_allocator := la'\<rparr>" and la': "la_wf la'"
          "la_buffer la' = la_buffer (sp_linear_allocator p)"
          "unat (la_buffer la') + unat (la_offset (sp_linear_allocator p)) \<le> unat q'"
          "unat q' + unat new_size = unat (la_buffer la') + unat (la_offset la')"
        using 1 r by auto
      note add = sp_inv_add_block [OF inv la' pos bs(1) disjI1 [OF bs(2)]]
      show ?thesis
        using True r p1 add bs(2)
        by (auto simp: wp_simps linear_free_def LinearAllocator_free_def sp_live_def)
    qed
  qed simp
qed

lemma sp_disjoint:
  "sp_inv p \<Longrightarrow> sp_live p a = Some n \<Longrightarrow> sp_live p b = Some m \<Longrightarrow> a \<noteq> b \<Longrightarrow>
   range_of a n \<inter> range_of b m = {}"
  by (simp add: sp_inv_def blocks_wf_def)

lemma find_page:
  assumes inv: "sp_inv p" and q: "sp_live p q = Some n" and x: "unat x \<in> range_of q n"
  shows "SimpleMemoryPool_get_page_boundaries x p = Inr (q, n)"
proof -
  let ?P = "\<lambda>b. is_buffer_within_bounds b (x, 1)"
  have bounds: "?P (a, m) \<longleftrightarrow> unat x \<in> range_of a m" if am: "sp_live p a = Some m" for a m
  proof (rule within_bounds_byte)
    show "no_wrap a m" using sp_live_nonnull [OF inv am] by simp
    have "unat q + unat n < 2 ^ 64"
      using sp_live_nonnull [OF inv q] by (simp add: no_wrap_def)
    then show "no_wrap x 1" using x by (simp add: no_wrap_def range_of_def)
  qed
  have live: "sp_live p a = Some m" if "(a, m) \<in> set (sp_allocated_buffers p)" for a m
    using that sp_distinct [OF inv] by (simp add: sp_live_def)
  have "find ?P (sp_allocated_buffers p) \<noteq> None"
    using sp_live_list [OF q] x bounds [OF q] by (auto simp: find_None_iff)
  then obtain a m where am: "find ?P (sp_allocated_buffers p) = Some (a, m)" by auto
  then have "(a, m) \<in> set (sp_allocated_buffers p)" "?P (a, m)"
    by (metis find_Some_iff nth_mem)+
  then have "sp_live p a = Some m" "unat x \<in> range_of a m"
    using live bounds by blast+
  then have "a = q"
    using x q sp_disjoint [OF inv] by blast
  with \<open>sp_live p a = Some m\<close> q am show ?thesis
    by (simp add: SimpleMemoryPool_get_page_boundaries_def)
qed

interpretation simple_pool: memory_pool SimpleMemoryPool_ops sp_inv sp_live
proof (unfold_locales, unfold SimpleMemoryPool_ops_def MemoryPool.simps, goal_cases)
  case (1 p sz al out)
  show ?case
    by (rule wp_mono [OF SimpleMemoryPool_allocate_wp [OF 1(1,2) simple_request [OF 1(3)] 1(4)]]) (auto split: if_splits)
next
  case (2 p q n new_size al)
  show ?case
    by (rule wp_mono [OF SimpleMemoryPool_reallocate_wp [OF 2(1-3) simple_request [OF 2(4)] 2(5)]]) (auto split: if_splits)
next
  case (3 p q n sz al)
  show ?case
    by (rule wp_mono [OF SimpleMemoryPool_free_wp [OF 3]]) auto
next
  case (4 p q n)
  then show ?case by (rule sp_live_nonnull)
next
  case (5 p a n b m)
  then show ?case by (rule sp_disjoint)
next
  case (6 p q n x)
  then show ?case
    using find_page [OF 6] sp_live_nonnull [OF 6(1,2)] by blast
qed


section \<open>Reachable pools\<close>

interpretation simple_settled: settled_pool SimpleMemoryPool_ops sp_inv sp_live
proof (unfold_locales, goal_cases)
  case (1 p q n sz al)
  then show ?case
    using sp_live_nonnull [OF 1] by (simp add: SimpleMemoryPool_ops_def SimpleMemoryPool_free_eq)
qed

text \<open>
  Every pool a client can bring about: from the constructor, by requests of any size, the empty one
  included, that cannot overflow the arithmetic, at an alignment that is a power of two or that the
  assertion refuses, and by reallocating and freeing null and buffers the pool has handed out,
  whatever size the client says they have. Calls that fail or throw are included.
\<close>

definition simple_alignment :: "u64 \<Rightarrow> bool" where
  "simple_alignment al \<longleftrightarrow> valid_alignment al \<or> al AND (al - 1) \<noteq> 0"

inductive sp_reachable :: "SimpleMemoryPool \<Rightarrow> bool" where
  sp_start: "LinearAllocator_init buf SIMPLE_ALLOCATOR_SIZE = Inr la \<Longrightarrow> la_wf la \<Longrightarrow>
     SimpleMemoryPool_init buf mem = Inr p \<Longrightarrow> sp_reachable p"
| sp_allocate: "sp_reachable p \<Longrightarrow> unat sz \<le> max_simple_request \<Longrightarrow> simple_alignment al \<Longrightarrow>
     SimpleMemoryPool_allocate sz al out p = (r, p') \<Longrightarrow> sp_reachable p'"
| sp_reallocate: "sp_reachable p \<Longrightarrow> q = nullptr \<or> sp_live p q = Some n \<Longrightarrow> unat sz \<le> max_simple_request \<Longrightarrow>
     simple_alignment al \<Longrightarrow> SimpleMemoryPool_reallocate old sz al q p = (r, p') \<Longrightarrow> sp_reachable p'"
| sp_free: "sp_reachable p \<Longrightarrow> q = nullptr \<or> sp_live p q = Some n \<Longrightarrow>
     SimpleMemoryPool_free q sz al p = (r, p') \<Longrightarrow> sp_reachable p'"

lemma wp_stateI:
  assumes "wp m Q E s" and "m s = (r, s')"
    and "\<And>x. Q x s' \<Longrightarrow> P" and "\<And>e. E e s' \<Longrightarrow> P"
  shows P
  using assms by (auto simp: wp_def split: sum.splits)

text \<open>Each of these calls keeps the invariant, whether it returns or throws.\<close>

lemma SimpleMemoryPool_allocate_keeps:
  assumes inv: "sp_inv p" and sz: "unat sz \<le> max_simple_request" and al: "simple_alignment al"
    and call: "SimpleMemoryPool_allocate sz al out p = (r, p')"
  shows "sp_inv p'"
proof (cases "sz = 0 \<or> al AND (al - 1) \<noteq> 0")
  case True
  then show ?thesis
    using inv call by (auto simp: SimpleMemoryPool_allocate_def method_defs split: if_splits)
next
  case False
  then have pos: "0 < sz" and valid: "valid_alignment al"
    using al by (simp_all add: simple_alignment_def word_gt_0)
  show ?thesis
    by (rule wp_stateI [OF SimpleMemoryPool_allocate_wp [OF inv pos sz valid] call]) auto
qed

lemma SimpleMemoryPool_free_keeps:
  assumes inv: "sp_inv p" and q: "q = nullptr \<or> sp_live p q = Some n"
    and call: "SimpleMemoryPool_free q sz al p = (r, p')"
  shows "sp_inv p'"
proof (cases "q = nullptr")
  case True
  then show ?thesis using inv call by (simp add: ret_def)
next
  case False
  then have live: "sp_live p q = Some n" using q by simp
  show ?thesis by (rule wp_stateI [OF SimpleMemoryPool_free_wp [OF inv live] call]) auto
qed

lemma SimpleMemoryPool_reallocate_keeps:
  assumes inv: "sp_inv p" and q: "q = nullptr \<or> sp_live p q = Some n"
    and sz: "unat sz \<le> max_simple_request" and al: "simple_alignment al"
    and call: "SimpleMemoryPool_reallocate old sz al q p = (r, p')"
  shows "sp_inv p'"
proof -
  consider "sz = 0" | "sz \<noteq> 0" "q = nullptr" | "sz \<noteq> 0" "q \<noteq> nullptr" "\<not> valid_alignment al"
    | "0 < sz" "sp_live p q = Some n" "valid_alignment al"
    using q by (auto simp: word_gt_0)
  then show ?thesis
  proof cases
    case 1
    then show ?thesis
      using call SimpleMemoryPool_free_keeps [OF inv q, of old al]
      by (auto simp: SimpleMemoryPool_reallocate_def seqE_def ret_def split: prod.splits sum.splits)
  next
    case 2
    then show ?thesis
      using inv call SimpleMemoryPool_allocate_keeps [OF inv sz al]
      by (auto simp: SimpleMemoryPool_reallocate_def seqE_def assertE_def ret_def throw_def split: if_splits)
  next
    case 3
    then show ?thesis
      using inv call al
      by (simp add: SimpleMemoryPool_reallocate_def simple_alignment_def seqE_def assertE_def throw_def)
  next
    case 4
    show ?thesis
      by (rule wp_stateI [OF SimpleMemoryPool_reallocate_wp [OF inv 4(2,1) sz 4(3)] call]) auto
  qed
qed

lemma sp_reachable_inv: "sp_reachable p \<Longrightarrow> sp_inv p"
proof (induction rule: sp_reachable.induct)
  case (sp_start buf la mem p)
  then show ?case
    by (auto simp: SimpleMemoryPool_init_def sp_inv_def sp_live_def)
qed (blast intro: SimpleMemoryPool_allocate_keeps SimpleMemoryPool_free_keeps
    SimpleMemoryPool_reallocate_keeps)+

section \<open>Contents and accounting\<close>



text \<open>The statistics agree with the buffers of the map.\<close>

definition sp_accounting :: "SimpleMemoryPool \<Rightarrow> bool" where
  "sp_accounting p \<longleftrightarrow>
     sp_bytes_allocated p = sum_list (map snd (sp_allocated_buffers p)) \<and>
     sp_num_allocs p = of_nat (length (sp_allocated_buffers p))"

lemma delete_not_in [simp]: "q \<notin> fst ` set xs \<Longrightarrow> AList.delete q xs = xs"
  by (induction xs) auto

lemma delete_sum:
  assumes "distinct (map fst xs)" and "map_of xs q = Some (n :: u64)"
  shows "sum_list (map snd (AList.delete q xs)) = sum_list (map snd xs) - n"
    and "length xs = Suc (length (AList.delete q xs))"
  using assms by (induction xs) (auto split: if_splits)

lemma sum_emplace:
  "map_of xs k = None \<Longrightarrow> sum_list (map snd (emplace k n xs)) = n + sum_list (map snd xs)"
  "map_of xs k = None \<Longrightarrow> length (emplace k n xs) = Suc (length xs)"
  by (simp_all add: emplace_def)

lemma SimpleMemoryPool_destroy_total:
  "sp_inv p \<Longrightarrow>
   \<exists>p'. SimpleMemoryPool_destroy p = Some p' \<and> sp_allocated_buffers p' = [] \<and>
     sp_bytes_allocated p' = sp_bytes_allocated p - sum_list (map snd (sp_allocated_buffers p)) \<and>
     sp_num_allocs p' = sp_num_allocs p - of_nat (length (sp_allocated_buffers p))"
proof (induction "sp_allocated_buffers p" arbitrary: p)
  case Nil
  from Nil(1) show ?case
    by (subst SimpleMemoryPool_destroy.simps) (simp flip: Nil(1))
next
  case (Cons b bs)
  obtain q n where b: "b = (q, n)" by (cases b)
  have bs: "sp_allocated_buffers p = (q, n) # bs"
    using Cons(2) b by simp
  have "sp_live p q = Some n"
    using bs by (simp add: sp_live_def)
  then have q: "q \<noteq> nullptr"
    using sp_live_nonnull Cons.prems by blast
  let ?p = "snd (SimpleMemoryPool_free q n DEFAULT_ALIGNMENT p)"
  have fresh: "q \<notin> fst ` set bs"
    using sp_distinct [OF Cons.prems] bs by simp
  have p1: "sp_allocated_buffers ?p = bs" "sp_bytes_allocated ?p = sp_bytes_allocated p - n"
    "sp_num_allocs ?p = sp_num_allocs p - 1" "sp_linear_allocator ?p = sp_linear_allocator p"
    using q bs fresh by (simp_all add: SimpleMemoryPool_free_eq)
  have "sp_inv ?p"
    by (rule sp_inv_delete(1) [OF Cons.prems p1(4), of q]) (use p1 bs fresh in simp)
  from Cons.hyps(1) [OF p1(1) [symmetric] this] obtain p' where
    "SimpleMemoryPool_destroy ?p = Some p'" "sp_allocated_buffers p' = []"
    "sp_bytes_allocated p' = sp_bytes_allocated p - n - sum_list (map snd bs)"
    "sp_num_allocs p' = sp_num_allocs p - 1 - of_nat (length bs)"
    unfolding p1 by blast
  then show ?case
    by (subst SimpleMemoryPool_destroy.simps) (simp add: bs diff_diff_eq)
qed

text \<open>
  Pools whose clients pass the size the pool has recorded for a buffer when they reallocate or free
  it.
\<close>

inductive sp_honest :: "SimpleMemoryPool \<Rightarrow> bool" where
  honest_start: "LinearAllocator_init buf SIMPLE_ALLOCATOR_SIZE = Inr la \<Longrightarrow> la_wf la \<Longrightarrow>
     SimpleMemoryPool_init buf mem = Inr p \<Longrightarrow> sp_honest p"
| honest_allocate: "sp_honest p \<Longrightarrow> 0 < sz \<Longrightarrow> unat sz \<le> max_simple_request \<Longrightarrow> valid_alignment al \<Longrightarrow>
     SimpleMemoryPool_allocate sz al out p = (r, p') \<Longrightarrow> sp_honest p'"
| honest_reallocate: "sp_honest p \<Longrightarrow> sp_live p q = Some n \<Longrightarrow> 0 < sz \<Longrightarrow> unat sz \<le> max_simple_request \<Longrightarrow>
     valid_alignment al \<Longrightarrow> SimpleMemoryPool_reallocate n sz al q p = (r, p') \<Longrightarrow> sp_honest p'"
| honest_free: "sp_honest p \<Longrightarrow> sp_live p q = Some n \<Longrightarrow>
     SimpleMemoryPool_free q n al p = (r, p') \<Longrightarrow> sp_honest p'"

lemma sp_honest_reachable: "sp_honest p \<Longrightarrow> sp_reachable p"
  by (induction rule: sp_honest.induct) (blast intro: sp_reachable.intros simple_alignment_def [THEN iffD2])+

text \<open>The sizes in the map, as a set of blocks, determine their sum and their number.\<close>

definition live_bytes :: "(ptr \<rightharpoonup> u64) \<Rightarrow> u64" where
  "live_bytes m = (\<Sum>q \<in> dom m. the (m q))"

lemma live_bytes_insert: "m q = None \<Longrightarrow> live_bytes (m(q \<mapsto> n)) = live_bytes m + n"
proof -
  assume q: "m q = None"
  have "(\<Sum>a \<in> dom m. the ((m(q \<mapsto> n)) a)) = live_bytes m"
    unfolding live_bytes_def by (rule sum.cong) (use q in auto)
  then show ?thesis
    using q by (subst live_bytes_def) (simp add: domIff add.commute)
qed

lemma sum_map_of:
  assumes "distinct (map fst xs)"
  shows "live_bytes (map_of xs) = sum_list (map snd xs) \<and> card (dom (map_of xs)) = length xs"
  using assms
proof (induction xs)
  case (Cons x xs)
  obtain q n where x: "x = (q, n)" by (cases x)
  have fresh: "map_of xs q = None" using Cons.prems x by (simp add: map_of_eq_None_iff)
  have eq: "map_of (x # xs) = (map_of xs)(q \<mapsto> n)" by (simp add: x)
  have IH: "live_bytes (map_of xs) = sum_list (map snd xs)" "card (dom (map_of xs)) = length xs"
    using Cons by simp_all
  have "live_bytes (map_of (x # xs)) = sum_list (map snd (x # xs))"
    unfolding eq live_bytes_insert [where m = "map_of xs", OF fresh] IH by (simp add: x add.commute)
  moreover have "card (dom (map_of (x # xs))) = length (x # xs)"
    unfolding eq using fresh IH by (simp add: domIff)
  ultimately show ?case by (rule conjI)
qed (simp add: live_bytes_def)

lemma sp_accounting_live:
  "sp_inv p \<Longrightarrow> sp_accounting p \<longleftrightarrow>
     sp_bytes_allocated p = live_bytes (sp_live p) \<and> sp_num_allocs p = of_nat (card (dom (sp_live p)))"
  using sp_distinct [of p] by (simp add: sp_accounting_def sp_live_def sum_map_of)

lemma live_bytes_delete:
  assumes "m q = Some n"
  shows "live_bytes (m(q := None)) = live_bytes m - n"
    and "card (dom m) = Suc (card (dom (m(q := None))))"
proof -
  have m: "(m(q := None))(q \<mapsto> n) = m" using assms by auto
  show "live_bytes (m(q := None)) = live_bytes m - n"
    using live_bytes_insert [of "m(q := None)" q n] unfolding m by simp
  have "dom m = insert q (dom (m(q := None)))" using assms by auto
  then show "card (dom m) = Suc (card (dom (m(q := None))))"
    by (metis card_insert_disjoint domIff finite fun_upd_same)
qed

lemma card_dom_insert: "(m :: ptr \<rightharpoonup> u64) q = None \<Longrightarrow> card (dom (m(q \<mapsto> n))) = Suc (card (dom m))"
  by (simp add: domIff)

lemma sp_honest_accounting: "sp_honest p \<Longrightarrow> sp_accounting p"
proof (induction rule: sp_honest.induct)
  case (honest_start buf la mem p)
  then show ?case by (auto simp: SimpleMemoryPool_init_def sp_accounting_def)
next
  case (honest_allocate p sz al out r p')
  have inv: "sp_inv p" using honest_allocate(1) by (intro sp_reachable_inv sp_honest_reachable)
  note a = honest_allocate.IH [unfolded sp_accounting_live [OF inv]]
  show ?case
    by (rule wp_stateI [OF SimpleMemoryPool_allocate_wp [OF inv honest_allocate(2-4)] honest_allocate(5)])
      (use a in \<open>auto simp: sp_accounting_live live_bytes_insert card_dom_insert inv simp del: dom_fun_upd
        split: if_splits\<close>)
next
  case (honest_reallocate p q n sz al r p')
  have inv: "sp_inv p" using honest_reallocate(1) by (intro sp_reachable_inv sp_honest_reachable)
  note a = honest_reallocate.IH [unfolded sp_accounting_live [OF inv]]
  note d = live_bytes_delete [where m = "sp_live p", OF honest_reallocate(2)]
  show ?case
    by (rule wp_stateI [OF SimpleMemoryPool_reallocate_wp [OF inv honest_reallocate(2-5)]
          honest_reallocate(6)])
      (use a d in \<open>auto simp: sp_accounting_live live_bytes_insert card_dom_insert inv simp del: dom_fun_upd
        split: if_splits\<close>)
next
  case (honest_free p q n al r p')
  have inv: "sp_inv p" using honest_free(1) by (intro sp_reachable_inv sp_honest_reachable)
  note a = honest_free.IH [unfolded sp_accounting_live [OF inv]]
  note d = live_bytes_delete [where m = "sp_live p", OF honest_free(2)]
  show ?case
    by (rule wp_stateI [OF SimpleMemoryPool_free_wp [OF inv honest_free(2)] honest_free(3)])
      (use a d in \<open>auto simp: sp_accounting_live\<close>)
qed

section \<open>Properties\<close>

text \<open>A pool to evaluate the properties on: an arena at address \<open>0x10000\<close>.\<close>

definition example_pool :: SimpleMemoryPool where
  "example_pool = \<lparr>sp_allocated_buffers = [], sp_total_bytes_allocated = 0, sp_bytes_allocated = 0,
     sp_num_allocs = 0, sp_linear_allocator = \<lparr>la_buffer = 65536, la_size = SIMPLE_ALLOCATOR_SIZE,
     la_offset = 0\<rparr>, sp_memory = (\<lambda>_. 0)\<rparr>"

definition example_pool_2 :: SimpleMemoryPool where
  "example_pool_2 = snd (SimpleMemoryPool_allocate 200 64 0
     (snd (SimpleMemoryPool_allocate 100 64 0 example_pool)))"

lemma example_start:
  "LinearAllocator_init 65536 SIMPLE_ALLOCATOR_SIZE = Inr (sp_linear_allocator example_pool)"
  "la_wf (sp_linear_allocator example_pool)"
  "SimpleMemoryPool_init 65536 (\<lambda>_. 0) = Inr example_pool"
  by (simp_all add: LinearAllocator_init_def SimpleMemoryPool_init_def example_pool_def la_wf_def
      DEFAULT_ALIGNMENT_def SIMPLE_ALLOCATOR_SIZE_def no_wrap_def)

lemma example_honest: "sp_honest example_pool"
  by (rule honest_start [OF example_start])

lemma example_honest_2: "sp_honest example_pool_2"
  unfolding example_pool_2_def
  by (rule honest_allocate [OF honest_allocate [OF example_honest _ _ valid_alignment_64 prod.collapse [symmetric]]
        _ _ valid_alignment_64 prod.collapse [symmetric]]) (simp_all add: max_simple_request_def)

lemma example_live_2: "sp_live example_pool_2 65536 = Some 100" "sp_live example_pool_2 65664 = Some 200"
  by (simp_all add: example_pool_2_def example_pool_def SimpleMemoryPool_allocate_def linear_allocate_def
      LinearAllocator_allocate_def method_defs emplace_def sp_live_def SIMPLE_ALLOCATOR_SIZE_def)

text \<open>C15. Soundness of the simple pool: after any sequence of requests, reallocations and frees, of null or of live
  buffers, each for at most 2^64 - 2^49 bytes (none included) and at an alignment that is a power of two
  up to 2^48 or refused by the assertion, every live buffer is not null and not empty, lies inside the
  used part of the arena, which lies inside the arena, and no two live buffers share a byte. Requests
  closer to 2^64 wrap around and are not covered.\<close>

theorem simple_pool_blocks_sound:
  assumes "sp_reachable p" and "sp_live p q = Some n"
  shows "q \<noteq> nullptr \<and> 0 < n \<and>
    (let la = sp_linear_allocator p in
      unat (la_buffer la) \<le> unat q \<and> unat q + unat n \<le> unat (la_buffer la) + unat (la_offset la) \<and>
      la_offset la \<le> la_size la) \<and>
    (\<forall>b m. sp_live p b = Some m \<longrightarrow> b \<noteq> q \<longrightarrow> range_of q n \<inter> range_of b m = {})"
proof -
  have inv: "sp_inv p" using assms(1) by (rule sp_reachable_inv)
  show ?thesis
    using sp_live_nonnull [OF inv assms(2)] sp_inv_live [OF inv assms(2)] sp_disjoint [OF inv assms(2)] inv
    by (auto simp: Let_def sp_inv_def la_wf_def)
qed

theorem simple_pool_blocks_sound_witness:
  "65664 \<noteq> nullptr \<and> 0 < (200 :: u64) \<and>
    (let la = sp_linear_allocator example_pool_2 in
      unat (la_buffer la) \<le> unat (65664 :: ptr) \<and>
      unat (65664 :: ptr) + unat (200 :: u64) \<le> unat (la_buffer la) + unat (la_offset la) \<and>
      la_offset la \<le> la_size la) \<and>
    range_of 65664 200 \<inter> range_of 65536 100 = {}"
  using simple_pool_blocks_sound [OF sp_honest_reachable [OF example_honest_2] example_live_2(2)]
    example_live_2(1)
  by simp



text \<open>Statistics: as long as clients pass the size the pool has recorded, \<open>bytes_allocated\<close> is the sum of
  the sizes of the live buffers and \<open>num_allocations\<close> their number (both modulo 2^64), the destructor
  ends, and it leaves no buffer and both statistics at 0.\<close>

theorem statistics_are_exact:
  assumes "sp_honest p"
  shows "sp_bytes_allocated p = live_bytes (sp_live p) \<and>
    sp_num_allocs p = of_nat (card (dom (sp_live p))) \<and>
    (\<exists>p'. SimpleMemoryPool_destroy p = Some p' \<and> sp_live p' = Map.empty \<and>
       sp_bytes_allocated p' = 0 \<and> sp_num_allocs p' = 0)"
proof -
  have inv: "sp_inv p" using assms by (intro sp_reachable_inv sp_honest_reachable)
  have "sp_accounting p" using assms by (rule sp_honest_accounting)
  then show ?thesis
    using sp_accounting_live [OF inv] SimpleMemoryPool_destroy_total [OF inv]
    by (auto simp: sp_accounting_def sp_live_def)
qed

theorem statistics_are_exact_witness:
  "sp_bytes_allocated example_pool_2 = live_bytes (sp_live example_pool_2) \<and>
    sp_num_allocs example_pool_2 = of_nat (card (dom (sp_live example_pool_2))) \<and>
    (\<exists>p'. SimpleMemoryPool_destroy example_pool_2 = Some p' \<and> sp_live p' = Map.empty \<and>
       sp_bytes_allocated p' = 0 \<and> sp_num_allocs p' = 0)"
  by (rule statistics_are_exact) (rule example_honest_2)

lemma no_wrap_1: "x \<noteq> - 1 \<Longrightarrow> no_wrap x 1"
  using unat_64_bound [of x]
  by (auto simp: no_wrap_def word_unat_eq_iff unsigned_minus_1_eq_mask mask_eq_exp_minus_1)

text \<open>Page lookup: the simple pool reports an address as belonging to the page \<open>(q, n)\<close> exactly when a
  live buffer of size \<open>n\<close> at \<open>q\<close> contains it, and throws exactly when there is none (the last
  address of the address space excepted, whose end wraps around in the bounds check).\<close>

theorem page_boundaries_exact:
  assumes "sp_reachable p" and "x \<noteq> - 1"
  shows "(SimpleMemoryPool_get_page_boundaries x p = Inr (q, n) \<longleftrightarrow>
      sp_live p q = Some n \<and> unat x \<in> range_of q n) \<and>
    ((\<exists>e. SimpleMemoryPool_get_page_boundaries x p = Inl e) \<longleftrightarrow>
      (\<forall>a m. sp_live p a = Some m \<longrightarrow> unat x \<notin> range_of a m))"
proof -
  have inv: "sp_inv p" using assms(1) by (rule sp_reachable_inv)
  have sound: "sp_live p a = Some m \<and> unat x \<in> range_of a m"
    if "SimpleMemoryPool_get_page_boundaries x p = Inr (a, m)" for a m
  proof -
    have "find (\<lambda>b. is_buffer_within_bounds b (x, 1)) (sp_allocated_buffers p) = Some (a, m)"
      using that by (auto simp: SimpleMemoryPool_get_page_boundaries_def split: option.splits)
    then have am: "(a, m) \<in> set (sp_allocated_buffers p)" "is_buffer_within_bounds (a, m) (x, 1)"
      by (metis find_Some_iff nth_mem)+
    then have live: "sp_live p a = Some m"
      using sp_distinct [OF inv] by (simp add: sp_live_def)
    then show ?thesis
      using am(2) within_bounds_byte [OF _ no_wrap_1 [OF assms(2)]] sp_live_nonnull [OF inv live] by simp
  qed
  have complete: "SimpleMemoryPool_get_page_boundaries x p = Inr (a, m)"
    if "sp_live p a = Some m" "unat x \<in> range_of a m" for a m
    using find_page [OF inv that] .
  have "(\<exists>e. r = Inl e) \<longleftrightarrow> (\<forall>b. r \<noteq> Inr b)" for r :: "cpp_error + ptr \<times> u64"
    by (cases r) auto
  then show ?thesis using sound complete by (metis surj_pair)
qed

theorem page_boundaries_exact_witness:
  "(SimpleMemoryPool_get_page_boundaries 65700 example_pool_2 = Inr (65664, 200) \<longleftrightarrow>
      sp_live example_pool_2 65664 = Some 200 \<and> unat (65700 :: ptr) \<in> range_of 65664 200) \<and>
    ((\<exists>e. SimpleMemoryPool_get_page_boundaries 65700 example_pool_2 = Inl e) \<longleftrightarrow>
      (\<forall>a m. sp_live example_pool_2 a = Some m \<longrightarrow> unat (65700 :: ptr) \<notin> range_of a m))"
  by (rule page_boundaries_exact [OF sp_honest_reachable [OF example_honest_2]])
    (simp add: word_unat_eq_iff unsigned_minus_1_eq_mask mask_eq_exp_minus_1)

text \<open>The linear allocator: for requests up to 2^64 - 2^49 bytes and power-of-two alignments it succeeds exactly
  when the block at the next aligned offset still ends inside the arena; then the block starts there,
  the offset moves to its end, and the address is a multiple of the alignment exactly when the start
  of the arena is one. Otherwise the state and the caller's pointer stay as they were.\<close>

theorem linear_allocator_places_blocks:
  assumes "la_wf la" and "valid_alignment al" and "unat sz \<le> max_simple_request"
  shows "if round_up (unat (la_offset la)) (unat al) + unat sz \<le> unat (la_size la)
    then \<exists>q la'. LinearAllocator_allocate sz al out la = (Inr (True, q), la') \<and>
      unat q = unat (la_buffer la) + round_up (unat (la_offset la)) (unat al) \<and>
      unat (la_offset la') = round_up (unat (la_offset la)) (unat al) + unat sz \<and> la_wf la' \<and>
      (unat al dvd unat q \<longleftrightarrow> unat al dvd unat (la_buffer la))
    else LinearAllocator_allocate sz al out la = (Inr (False, out), la)"
proof (cases "place la al + unat sz \<le> unat (la_size la)")
  case True
  obtain q la' where r: "LinearAllocator_allocate sz al out la = (Inr (True, q), la')"
    using True by (simp add: LinearAllocator_allocate_cases [OF assms])
  have "unat al dvd place la al" by (simp add: place_def)
  with wpD_Inr [OF LinearAllocator_allocate_wp [OF assms] r] r True show ?thesis
    by (auto simp: place_def dvd_add_left_iff)
next
  case False
  then show ?thesis by (simp add: LinearAllocator_allocate_cases [OF assms] place_def)
qed

theorem linear_allocator_places_blocks_witness:
  "\<exists>q la'. LinearAllocator_allocate 100 64 0 (sp_linear_allocator example_pool_2) = (Inr (True, q), la') \<and>
    unat q = 65536 + 384 \<and> unat (la_offset la') = 384 + 100 \<and> la_wf la' \<and>
    (unat (64 :: u64) dvd unat q \<longleftrightarrow> unat (64 :: u64) dvd 65536)"
proof -
  have la: "la_wf (sp_linear_allocator example_pool_2)"
    using sp_reachable_inv [OF sp_honest_reachable [OF example_honest_2]] by (simp add: sp_inv_def)
  have ex: "sp_linear_allocator example_pool_2 =
      \<lparr>la_buffer = 65536, la_size = SIMPLE_ALLOCATOR_SIZE, la_offset = 328\<rparr>"
    by (simp add: example_pool_2_def example_pool_def SimpleMemoryPool_allocate_def linear_allocate_def
        LinearAllocator_allocate_def method_defs emplace_def SIMPLE_ALLOCATOR_SIZE_def)
  from linear_allocator_places_blocks [OF la valid_alignment_64, of 100 0]
  show ?thesis by (simp add: ex max_simple_request_def round_up_def SIMPLE_ALLOCATOR_SIZE_def)
qed

text \<open>
  Beyond these bounds the sum of the offset and the size wraps around: a request whose end lies
  past the end of the address space is accepted, and the offset moves back.
\<close>

lemma linear_allocator_wraps:
  "la_offset la = 64 \<Longrightarrow> LinearAllocator_allocate (- 64) 64 out la =
     (Inr (True, la_buffer la + 64), la\<lparr>la_offset := 0\<rparr>)"
  by (simp add: LinearAllocator_allocate_def)

end
