(* ===== verification/Buffers.thy ===== *)
theory Buffers
  imports Memory_Pool
begin

text \<open>
  \<open>software/libstf/buffer.hpp\<close> and \<open>buffer.cpp\<close>: a buffer, the deleter that returns its memory to
  the pool when the last \<open>shared_ptr\<close> to it goes away, and the two functions that make such a
  pointer. A \<open>shared_ptr<Buffer>\<close> is the buffer it points to; dropping its last reference is the
  operation \<open>BufferDeleter\<close>.
\<close>

record Buffer =
  buf_ptr :: ptr
  buf_size :: u64
  buf_capacity :: u64

definition BufferDeleter :: "'p MemoryPool \<Rightarrow> Buffer \<Rightarrow> ('p, unit) action" where
  "BufferDeleter ops buffer = pool_free_default ops (buf_ptr buffer) (buf_capacity buffer)"

definition make_buffer :: "ptr \<Rightarrow> u64 \<Rightarrow> u64 \<Rightarrow> Buffer" where
  "make_buffer p sz capacity = \<lparr>buf_ptr = p, buf_size = sz, buf_capacity = capacity\<rparr>"

text \<open>
  The allocating variant. Its local \<open>ptr\<close> is not initialised: \<open>uninit\<close> is the value it happens
  to have. The status is written to the caller's variable.
\<close>

definition make_buffer_alloc :: "'p MemoryPool \<Rightarrow> u64 \<Rightarrow> ptr \<Rightarrow> ('p, Status \<times> Buffer) action" where
  "make_buffer_alloc ops sz uninit =
     seqE (pool_allocate_default ops sz uninit) (\<lambda>(status, p).
     ret (status, make_buffer p sz sz))"

text \<open>
  Returning the memory of a queue of buffers to the pool, front to back: the loop of
  \<open>OutputBufferManager::free_buffers_in_queue\<close> and of the destructor of \<open>OutputHandle\<close>.
\<close>

fun free_buffers_in_queue :: "'p MemoryPool \<Rightarrow> Buffer list \<Rightarrow> ('p, unit) action" where
  "free_buffers_in_queue ops [] = ret ()"
| "free_buffers_in_queue ops (buffer # queue) =
     seqE (pool_free ops (buf_ptr buffer) (buf_capacity buffer) DEFAULT_ALIGNMENT) (\<lambda>_.
     free_buffers_in_queue ops queue)"

lemma make_buffer_simps [simp]:
  "buf_ptr (make_buffer p s c) = p" "buf_size (make_buffer p s c) = s"
  "buf_capacity (make_buffer p s c) = c"
  by (simp_all add: make_buffer_def)

context memory_pool
begin

lemma BufferDeleter_wp:
  assumes "pool_inv p" and "live p (buf_ptr b) = Some n"
  shows "wp (BufferDeleter ops b)
    (\<lambda>_ p'. pool_inv p' \<and> live p' = (live p)(buf_ptr b := None))
    (\<lambda>_ p'. pool_inv p' \<and> live p' = live p) p"
  unfolding BufferDeleter_def pool_free_default_def by (rule free_law [OF assms])

lemma make_buffer_alloc_wp:
  assumes "pool_inv p" and "0 < sz" and "unat sz \<le> max_request"
  shows "wp (make_buffer_alloc ops sz uninit)
    (\<lambda>(st, b) p'. pool_inv p' \<and> buf_size b = sz \<and> buf_capacity b = sz \<and>
       (if status_ok st then live p (buf_ptr b) = None \<and> live p' = (live p)(buf_ptr b \<mapsto> sz)
        else live p' = live p))
    (\<lambda>_ p'. pool_inv p' \<and> live p' = live p) p"
  unfolding make_buffer_alloc_def pool_allocate_default_def wp_seqE
  by (rule wp_mono [OF allocate_law [OF assms]])
    (auto simp: wp_simps DEFAULT_ALIGNMENT_def valid_alignment_64 split: if_splits)

text \<open>A buffer that was made and dropped again leaves the pool's blocks as they were.\<close>

lemma make_then_delete:
  assumes "pool_inv p" and "0 < sz" and "unat sz \<le> max_request"
  shows "wp (seqE (make_buffer_alloc ops sz uninit)
      (\<lambda>(st, b). if status_ok st then BufferDeleter ops b else ret ()))
    (\<lambda>_ p'. pool_inv p' \<and> live p' = live p)
    (\<lambda>_ p'. pool_inv p' \<and> dom (live p) \<subseteq> dom (live p')) p"
  unfolding wp_seqE
proof (rule wp_mono [OF make_buffer_alloc_wp [OF assms]], goal_cases)
  case (1 r p1)
  obtain st b where r: "r = (st, b)" by (cases r)
  show ?case
  proof (cases "status_ok st")
    case True
    with 1 r have "live p (buf_ptr b) = None" "live p1 = (live p)(buf_ptr b \<mapsto> sz)"
      and inv: "pool_inv p1" by auto
    then have blk: "live p1 (buf_ptr b) = Some sz"
      and undo: "(live p1)(buf_ptr b := None) = live p" by auto
    show ?thesis
      using True r undo
      by (auto simp: \<open>live p1 = _\<close> intro!: wp_mono [OF BufferDeleter_wp [OF inv blk]])
  next
    case False
    with 1 r show ?thesis by (simp add: wp_simps)
  qed
qed auto

end

section \<open>Properties\<close>

text \<open>Making a buffer and dropping it: over the simple pool, an allocation through \<open>make_buffer\<close> that
  succeeds and the deleter that runs afterwards leave the live buffers of the pool and both of its
  current statistics as they were before.\<close>

theorem made_buffer_is_given_back:
  assumes "sp_inv p" and "0 < sz" and "unat sz \<le> max_request"
    and "make_buffer_alloc SimpleMemoryPool_ops sz uninit p = (Inr (st, b), p1)" and "status_ok st"
  shows "\<exists>p2. BufferDeleter SimpleMemoryPool_ops b p1 = (Inr (), p2) \<and> sp_inv p2 \<and>
    sp_live p1 = (sp_live p)(buf_ptr b \<mapsto> sz) \<and> sp_live p (buf_ptr b) = None \<and>
    sp_live p2 = sp_live p \<and> sp_bytes_allocated p2 = sp_bytes_allocated p \<and>
    sp_num_allocs p2 = sp_num_allocs p"
proof -
  have alloc: "SimpleMemoryPool_allocate sz 64 uninit p = (Inr (st, buf_ptr b), p1)"
    and cap: "buf_capacity b = sz"
    using assms(4)
    by (auto simp: make_buffer_alloc_def pool_allocate_default_def DEFAULT_ALIGNMENT_def
        SimpleMemoryPool_ops_def seqE_def ret_def split: prod.splits sum.splits)
  from wpD_Inr [OF SimpleMemoryPool_allocate_wp [OF assms(1,2) simple_request [OF assms(3)] valid_alignment_64] alloc] assms(5)
  have inv: "sp_inv p1" and fresh: "sp_live p (buf_ptr b) = None"
    and live: "sp_live p1 = (sp_live p)(buf_ptr b \<mapsto> sz)"
    and stats: "sp_bytes_allocated p1 = sp_bytes_allocated p + sz" "sp_num_allocs p1 = sp_num_allocs p + 1"
    by auto
  have lv: "sp_live p1 (buf_ptr b) = Some sz" by (simp add: live)
  have "wp (BufferDeleter SimpleMemoryPool_ops b)
      (\<lambda>_ p2. sp_inv p2 \<and> sp_live p2 = (sp_live p1)(buf_ptr b := None) \<and>
         sp_bytes_allocated p2 = sp_bytes_allocated p1 - sz \<and> sp_num_allocs p2 = sp_num_allocs p1 - 1)
      (\<lambda>_ _. False) p1"
    unfolding BufferDeleter_def pool_free_default_def cap
    using SimpleMemoryPool_free_wp [OF inv lv] by (simp add: SimpleMemoryPool_ops_def)
  moreover have "(sp_live p1)(buf_ptr b := None) = sp_live p" using fresh live by auto
  ultimately show ?thesis
    using fresh live stats by (auto simp: wp_def split: prod.splits sum.splits)
qed

theorem made_buffer_is_given_back_witness:
  "\<exists>p1 p2. BufferDeleter SimpleMemoryPool_ops \<lparr>buf_ptr = 65920, buf_size = 50, buf_capacity = 50\<rparr> p1 =
      (Inr (), p2) \<and> sp_inv p2 \<and> sp_live p1 = (sp_live example_pool_2)(65920 \<mapsto> 50) \<and>
    sp_live p2 = sp_live example_pool_2"
proof -
  let ?r = "make_buffer_alloc SimpleMemoryPool_ops 50 7 example_pool_2"
  let ?b = "\<lparr>buf_ptr = 65920, buf_size = 50, buf_capacity = 50\<rparr>"
  have "fst ?r = Inr (Status_OK, ?b)"
    by (simp add: make_buffer_alloc_def pool_allocate_default_def DEFAULT_ALIGNMENT_def
        SimpleMemoryPool_ops_def example_pool_2_def example_pool_def SimpleMemoryPool_allocate_def
        linear_allocate_def LinearAllocator_allocate_def method_defs emplace_def
        SIMPLE_ALLOCATOR_SIZE_def make_buffer_def)
  then have r: "?r = (Inr (Status_OK, ?b), snd ?r)" by (metis prod.collapse)
  have "sp_inv example_pool_2" by (intro sp_reachable_inv sp_honest_reachable example_honest_2)
  from made_buffer_is_given_back [OF this _ _ r status_ok_OK]
  show ?thesis by (simp add: max_request_def) blast
qed

text \<open>The deleter and the statistics: when a buffer over a live block is dropped and the statistics were
  exact before, they are exact afterwards if and only if the capacity recorded in the buffer is the
  size of its block. (An output buffer that was shrunk to the bytes written keeps its old capacity.)\<close>

theorem deleter_statistics:
  assumes "sp_inv p" and "sp_accounting p" and "sp_live p (buf_ptr b) = Some n"
  shows "\<exists>p'. BufferDeleter SimpleMemoryPool_ops b p = (Inr (), p') \<and>
    sp_live p' = (sp_live p)(buf_ptr b := None) \<and> (sp_accounting p' \<longleftrightarrow> buf_capacity b = n)"
proof -
  have "wp (BufferDeleter SimpleMemoryPool_ops b)
      (\<lambda>_ p2. sp_inv p2 \<and> sp_live p2 = (sp_live p)(buf_ptr b := None) \<and>
         sp_bytes_allocated p2 = sp_bytes_allocated p - buf_capacity b \<and>
         sp_num_allocs p2 = sp_num_allocs p - 1)
      (\<lambda>_ _. False) p"
    unfolding BufferDeleter_def pool_free_default_def
    using SimpleMemoryPool_free_wp [OF assms(1,3)] by (simp add: SimpleMemoryPool_ops_def)
  then obtain p' where p': "BufferDeleter SimpleMemoryPool_ops b p = (Inr (), p')" "sp_inv p'"
    "sp_live p' = (sp_live p)(buf_ptr b := None)"
    "sp_bytes_allocated p' = sp_bytes_allocated p - buf_capacity b"
    "sp_num_allocs p' = sp_num_allocs p - 1"
    by (auto simp: wp_def split: prod.splits sum.splits)
  have "sp_accounting p' \<longleftrightarrow> buf_capacity b = n"
    using sp_accounting_live [OF p'(2)] sp_accounting_live [OF assms(1)] assms(2) p'(3-5)
      live_bytes_delete [where m = "sp_live p", OF assms(3)]
    by auto
  with p' show ?thesis by blast
qed

theorem deleter_statistics_witness:
  "\<exists>p'. BufferDeleter SimpleMemoryPool_ops \<lparr>buf_ptr = 65536, buf_size = 100, buf_capacity = 65536\<rparr>
      example_pool_2 = (Inr (), p') \<and> sp_live p' = (sp_live example_pool_2)(65536 := None) \<and>
    (sp_accounting p' \<longleftrightarrow> (65536 :: u64) = 100)"
  using deleter_statistics [of example_pool_2 "\<lparr>buf_ptr = 65536, buf_size = 100, buf_capacity = 65536\<rparr>" 100]
    example_live_2(1) sp_honest_accounting [OF example_honest_2]
    sp_reachable_inv [OF sp_honest_reachable [OF example_honest_2]]
  by simp

text \<open>
  A failed allocation still makes a buffer over the pointer's uninitialised value, and dropping it
  subtracts a size from the statistics that was never added.
\<close>

lemma failed_make_buffer_deletes:
  assumes "SimpleMemoryPool_allocate sz 64 uninit p = (Inr (st, uninit), p)" and "uninit \<noteq> nullptr"
  shows "\<exists>b p'. make_buffer_alloc SimpleMemoryPool_ops sz uninit p = (Inr (st, b), p) \<and>
    BufferDeleter SimpleMemoryPool_ops b p = (Inr (), p') \<and>
    sp_bytes_allocated p' = sp_bytes_allocated p - sz"
  using assms
  by (simp add: make_buffer_alloc_def pool_allocate_default_def DEFAULT_ALIGNMENT_def
      SimpleMemoryPool_ops_def seqE_def ret_def BufferDeleter_def pool_free_default_def
      SimpleMemoryPool_free_eq)

end
