(* ===== verification/Configuration.thy ===== *)
theory Configuration
  imports Buffers
begin

text \<open>
  \<open>software/libstf/configuration.hpp\<close> and \<open>configuration.cpp\<close>: the memory-mapped registers of the
  FPGA design. A configuration is a window of the register space; a derived class is a record that
  extends \<open>Config\<close>. The constructors read the device through the parameter \<open>csr\<close>, the writes go
  to the Coyote thread. \<open>GlobalConfig\<close> walks over the table of windows at the start of the
  register space and makes the other configurations on demand.
\<close>

section \<open>ConfigRegister and Config\<close>

record ConfigRegister =
  reg_addr :: u32
  reg_value :: u64

definition ConfigRegister_of :: "u32 \<Rightarrow> u64 \<Rightarrow> ConfigRegister" where
  "ConfigRegister_of addr val = \<lparr>reg_addr = addr, reg_value = val\<rparr>"

definition ConfigRegister_set_value :: "u64 \<Rightarrow> ConfigRegister \<Rightarrow> ConfigRegister" where
  "ConfigRegister_set_value val reg = reg\<lparr>reg_value := val\<rparr>"

record Config =
  addr_offset :: u32
  num_regs :: u32

definition Config_init :: "u32 \<Rightarrow> u32 \<Rightarrow> Config" where
  "Config_init offset n = \<lparr>addr_offset = offset, num_regs = n\<rparr>"

definition read_register :: "csr \<Rightarrow> ('m) Config_scheme \<Rightarrow> u32 \<Rightarrow> cpp_error + ConfigRegister" where
  "read_register csr c addr =
     (if addr < num_regs c
      then Inr (ConfigRegister_of (addr_offset c + addr) (csr (addr_offset c + addr)))
      else Inl AssertionFailure)"

definition write_register :: "('m) Config_scheme \<Rightarrow> ConfigRegister \<Rightarrow> (cthread, unit) action" where
  "write_register c reg =
     seqE (assertE (reg_addr reg < num_regs c)) (\<lambda>_.
     call (SetCSR (reg_value reg) (addr_offset c + reg_addr reg)))"

definition bind_sum :: "'e + 'a \<Rightarrow> ('a \<Rightarrow> 'e + 'b) \<Rightarrow> 'e + 'b" where
  "bind_sum r f = (case r of Inl e \<Rightarrow> Inl e | Inr x \<Rightarrow> f x)"

lemma bind_sum_Inr: "bind_sum r f = Inr y \<longleftrightarrow> (\<exists>x. r = Inr x \<and> f x = Inr y)"
  by (cases r) (simp_all add: bind_sum_def)

lemma bind_sum_simps [simp]: "bind_sum (Inr x) f = f x" "bind_sum (Inl e) f = Inl e"
  by (simp_all add: bind_sum_def)

lemma read_register_Inr:
  "read_register csr c addr = Inr r \<longleftrightarrow>
     addr < num_regs c \<and> r = ConfigRegister_of (addr_offset c + addr) (csr (addr_offset c + addr))"
  by (auto simp: read_register_def)

lemma wp_write_register [wp_simps]:
  "wp (write_register c reg) Q E cs =
     (if reg_addr reg < num_regs c
      then Q () (cs @ [SetCSR (reg_value reg) (addr_offset c + reg_addr reg)])
      else E AssertionFailure cs)"
  by (simp add: write_register_def wp_simps)

lemma reg_simps [simp]:
  "reg_addr (ConfigRegister_of a v) = a" "reg_value (ConfigRegister_of a v) = v"
  by (simp_all add: ConfigRegister_of_def)

section \<open>MemConfig\<close>

record MemConfig = Config +
  num_streams :: stream_t
  maximum_num_enqueued_buffers :: u64
  empty_stream_consumes_buffer :: bool

definition MemConfig_init :: "csr \<Rightarrow> u32 \<Rightarrow> u32 \<Rightarrow> cpp_error + MemConfig" where
  "MemConfig_init csr offset n =
     (let c = Config_init offset n in
      bind_sum (read_register csr c 1) (\<lambda>r1.
      bind_sum (read_register csr c 2) (\<lambda>r2.
      bind_sum (read_register csr c 3) (\<lambda>r3.
      Inr \<lparr>addr_offset = offset, num_regs = n, num_streams = ucast (reg_value r1),
           maximum_num_enqueued_buffers = reg_value r2,
           empty_stream_consumes_buffer = (reg_value r3 = 1)\<rparr>))))"

text \<open>The register value: \<open>vaddr << BUFFER_SIZE_BITS | capacity_as_num_transfers\<close>.\<close>

definition buffer_register_value :: "Buffer \<Rightarrow> u64" where
  "buffer_register_value buffer =
     push_bit (unat BUFFER_SIZE_BITS) (buf_ptr buffer) OR
       (buf_capacity buffer div ucast BYTES_PER_FPGA_TRANSFER)"

definition enqueue_buffer :: "MemConfig \<Rightarrow> stream_t \<Rightarrow> Buffer \<Rightarrow> (cthread, unit) action" where
  "enqueue_buffer mc stream_id buffer =
     seqE (assertE (stream_id < num_streams mc)) (\<lambda>_.
     seqE (assertE (buf_ptr buffer < push_bit FPGA_VADDR_BITS 1)) (\<lambda>_.
     seqE (assertE (buf_capacity buffer > 0)) (\<lambda>_.
     seqE (assertE (buf_capacity buffer < ucast MAXIMUM_FPGA_BUFFER_SIZE)) (\<lambda>_.
     seqE (assertE (buf_capacity buffer mod ucast BYTES_PER_FPGA_TRANSFER = 0)) (\<lambda>_.
     write_register mc (ConfigRegister_of (ucast stream_id) (buffer_register_value buffer)))))))"

definition MemConfig_flush_buffers :: "MemConfig \<Rightarrow> (cthread, unit) action" where
  "MemConfig_flush_buffers mc = write_register mc (ConfigRegister_of (ucast (num_streams mc)) 0)"

section \<open>StreamConfig\<close>

record StreamConfig = Config +
  sc_num_streams :: stream_t

definition StreamConfig_init :: "csr \<Rightarrow> u32 \<Rightarrow> u32 \<Rightarrow> cpp_error + StreamConfig" where
  "StreamConfig_init csr offset n =
     bind_sum (read_register csr (Config_init offset n) 1) (\<lambda>r1.
     Inr \<lparr>addr_offset = offset, num_regs = n, sc_num_streams = ucast (reg_value r1)\<rparr>)"

text \<open>\<open>select\<close> and the type are promoted to \<open>int\<close>, and the result to \<open>uint64_t\<close>.\<close>

definition stream_register_value :: "type_t \<Rightarrow> u8 \<Rightarrow> u64" where
  "stream_register_value t sel =
     ucast (push_bit 3 (ucast sel) OR ucast (type_code t) :: u32)"

definition enqueue_stream_config ::
  "StreamConfig \<Rightarrow> stream_t \<Rightarrow> type_t \<Rightarrow> u8 \<Rightarrow> (cthread, unit) action" where
  "enqueue_stream_config sc stream_id t sel =
     seqE (assertE (stream_id < sc_num_streams sc)) (\<lambda>_.
     write_register sc (ConfigRegister_of (ucast stream_id) (stream_register_value t sel)))"

section \<open>ReplayBufferConfig\<close>

record ReplayBufferConfig = Config +
  num_buffers :: u32
  maximum_num_enqueued_streams :: u64
  transfer_size :: u64

definition ReplayBufferConfig_init :: "csr \<Rightarrow> u32 \<Rightarrow> u32 \<Rightarrow> cpp_error + ReplayBufferConfig" where
  "ReplayBufferConfig_init csr offset n =
     (let c = Config_init offset n in
      bind_sum (read_register csr c 1) (\<lambda>r1.
      bind_sum (read_register csr c 2) (\<lambda>r2.
      bind_sum (read_register csr c 3) (\<lambda>r3.
      Inr \<lparr>addr_offset = offset, num_regs = n, num_buffers = ucast (reg_value r1),
           maximum_num_enqueued_streams = reg_value r2, transfer_size = reg_value r3\<rparr>))))"

definition configure_ring_buffer ::
  "ReplayBufferConfig \<Rightarrow> u32 \<Rightarrow> u64 \<Rightarrow> u64 \<Rightarrow> (cthread, unit) action" where
  "configure_ring_buffer rc buffer_id vaddr sz =
     seqE (assertE (buffer_id < num_buffers rc)) (\<lambda>_.
     if vaddr + sz > push_bit FPGA_VADDR_BITS 1
     then throw (InvalidArgument ''Ring buffer exceeds the vaddr space'')
     else if vaddr mod ucast MEMORY_ALIGNMENT_BYTES \<noteq> 0
     then throw (InvalidArgument (''Ring buffer must be aligned to '' @ show_word MEMORY_ALIGNMENT_BYTES @ '' bytes''))
     else if sz < 2 * transfer_size rc
     then throw (InvalidArgument (''Ring buffer must fit at least two transfers of '' @
       show_word (transfer_size rc) @ '' bytes''))
     else
       seqE (write_register rc (ConfigRegister_of (3 * buffer_id) vaddr)) (\<lambda>_.
       write_register rc (ConfigRegister_of (3 * buffer_id + 1) sz)))"

definition enqueue_num_reads :: "ReplayBufferConfig \<Rightarrow> u32 \<Rightarrow> u32 \<Rightarrow> (cthread, unit) action" where
  "enqueue_num_reads rc buffer_id num_reads =
     seqE (assertE (buffer_id < num_buffers rc)) (\<lambda>_.
     seqE (assertE (num_reads > 0)) (\<lambda>_.
     write_register rc (ConfigRegister_of (3 * buffer_id + 2) (ucast num_reads))))"

section \<open>GlobalConfig\<close>

text \<open>What \<open>get_config<T>\<close> can make: its type parameter is one of the configuration classes.\<close>

datatype config_class = PlainConfig_class | MemConfig_class | StreamConfig_class | ReplayBufferConfig_class

datatype any_config =
  APlain Config | AMem MemConfig | AStream StreamConfig | AReplay ReplayBufferConfig

fun config_ID :: "config_class \<Rightarrow> u64" where
  "config_ID PlainConfig_class = - 1"
| "config_ID MemConfig_class = 0"
| "config_ID StreamConfig_class = 1"
| "config_ID ReplayBufferConfig_class = 2"

text \<open>The demangled name of the class.\<close>

fun config_name :: "config_class \<Rightarrow> string" where
  "config_name PlainConfig_class = ''libstf::Config''"
| "config_name MemConfig_class = ''libstf::MemConfig''"
| "config_name StreamConfig_class = ''libstf::StreamConfig''"
| "config_name ReplayBufferConfig_class = ''libstf::ReplayBufferConfig''"

fun make_config :: "config_class \<Rightarrow> csr \<Rightarrow> u32 \<Rightarrow> u32 \<Rightarrow> cpp_error + any_config" where
  "make_config PlainConfig_class csr offset n = Inr (APlain (Config_init offset n))"
| "make_config MemConfig_class csr offset n = map_sum id AMem (MemConfig_init csr offset n)"
| "make_config StreamConfig_class csr offset n = map_sum id AStream (StreamConfig_init csr offset n)"
| "make_config ReplayBufferConfig_class csr offset n =
     map_sum id AReplay (ReplayBufferConfig_init csr offset n)"

record GlobalConfig = Config +
  system_id :: u64
  num_configs :: u32
  config_ids :: "u64 list"
  config_bounds :: "u32 list"
  configs_cache :: "u64 \<rightharpoonup> any_config"

text \<open>The position of the first occurrence, as \<open>std::find\<close> followed by \<open>std::distance\<close>.\<close>

fun index_of :: "'a \<Rightarrow> 'a list \<Rightarrow> nat option" where
  "index_of x [] = None"
| "index_of x (y # ys) = (if x = y then Some 0 else map_option Suc (index_of x ys))"

definition has_config :: "('m) GlobalConfig_scheme \<Rightarrow> u64 \<Rightarrow> bool" where
  "has_config gc config_id \<longleftrightarrow> index_of config_id (config_ids gc) \<noteq> None"

definition get_config_bounds :: "('m) GlobalConfig_scheme \<Rightarrow> u64 \<Rightarrow> cpp_error + (u32 \<times> u32)" where
  "get_config_bounds gc config_id =
     (case index_of config_id (config_ids gc) of
        None \<Rightarrow> Inl AssertionFailure
      | Some i \<Rightarrow>
          if Suc i < length (config_bounds gc)
          then Inr (config_bounds gc ! i, config_bounds gc ! Suc i)
          else Inl UndefinedBehaviour)"

text \<open>
  The body of the constructor's loop for one \<open>i\<close>: a \<open>size_t\<close> that becomes a \<open>uint32_t\<close> address; the
  value read becomes a \<open>uint32_t\<close> bound.
\<close>

definition GlobalConfig_load_one :: "csr \<Rightarrow> nat \<Rightarrow> GlobalConfig \<Rightarrow> cpp_error + GlobalConfig" where
  "GlobalConfig_load_one csr i gc =
     bind_sum (read_register csr gc (2 + of_nat i)) (\<lambda>r.
     let gc1 = gc\<lparr>config_bounds := config_bounds gc @ [ucast (reg_value r)]\<rparr> in
     bind_sum (read_register csr gc1 (config_bounds gc1 ! i)) (\<lambda>r'.
     let config_id = reg_value r' in
     if has_config gc1 config_id then Inl AssertionFailure
     else Inr (gc1\<lparr>config_ids := config_ids gc1 @ [config_id]\<rparr>)))"

fun GlobalConfig_load :: "csr \<Rightarrow> nat list \<Rightarrow> GlobalConfig \<Rightarrow> cpp_error + GlobalConfig" where
  "GlobalConfig_load csr [] gc = Inr gc"
| "GlobalConfig_load csr (i # is) gc =
     bind_sum (GlobalConfig_load_one csr i gc) (GlobalConfig_load csr is)"

definition GlobalConfig_init :: "csr \<Rightarrow> cpp_error + GlobalConfig" where
  "GlobalConfig_init csr =
     (let c = Config_init 0 (- 1) in
      bind_sum (read_register csr c 0) (\<lambda>r0.
      bind_sum (read_register csr c 1) (\<lambda>r1.
      let n = ucast (reg_value r1) in
      GlobalConfig_load csr [0 ..< unat n]
        \<lparr>addr_offset = 0, num_regs = - 1, system_id = reg_value r0, num_configs = n,
         config_ids = [], config_bounds = [2 + n], configs_cache = Map.empty\<rparr>)))"

definition get_config :: "csr \<Rightarrow> config_class \<Rightarrow> (GlobalConfig, any_config) action" where
  "get_config csr T gc =
     (case configs_cache gc (config_ID T) of
        Some c \<Rightarrow> (Inr c, gc)
      | None \<Rightarrow>
          if \<not> has_config gc (config_ID T)
          then (Inl (RuntimeError (''Hardware design on device has no configuration '' @ config_name T @ ''(ID='' @
            show_word (config_ID T) @ '') which we were trying to get'')), gc)
          else
            (case bind_sum (get_config_bounds gc (config_ID T)) (\<lambda>bounds.
                   make_config T csr (fst bounds) (snd bounds - fst bounds)) of
               Inl e \<Rightarrow> (Inl e, gc)
             | Inr c \<Rightarrow> (Inr c, gc\<lparr>configs_cache := (configs_cache gc)(config_ID T \<mapsto> c)\<rparr>)))"

end
