(* ===== verification/Tlb_Manager.thy ===== *)
theory Tlb_Manager
  imports Memory_Pool
begin

text \<open>
  \<open>software/libstf/tlb_manager.hpp\<close> and \<open>tlb_manager.cpp\<close>. The objects the host side shares by
  \<open>shared_ptr\<close> (the memory pool, the TLB manager, the Coyote thread) are the fields of one record,
  which the objects that hold them extend. \<open>ensure_tlb_mapping\<close> walks over the pages of a range;
  the lemmas show that over a pool that meets its contract it ends, maps every page of the range
  that was not mapped, and no page twice.
\<close>

record 'p host =
  host_pool :: 'p
  existing_tlb_mappings :: "ptr set"
  host_cthread :: cthread

definition on_pool :: "('p, 'a) action \<Rightarrow> (('p, 'm) host_scheme, 'a) action" where
  "on_pool = onE host_pool (\<lambda>p h. h\<lparr>host_pool := p\<rparr>)"

definition on_cthread :: "(cthread, 'a) action \<Rightarrow> (('p, 'm) host_scheme, 'a) action" where
  "on_cthread = onE host_cthread (\<lambda>c h. h\<lparr>host_cthread := c\<rparr>)"

lemma wp_on_pool [wp_simps]:
  "wp (on_pool m) Q E h =
     wp m (\<lambda>x p. Q x (h\<lparr>host_pool := p\<rparr>)) (\<lambda>e p. E e (h\<lparr>host_pool := p\<rparr>)) (host_pool h)"
  by (simp add: on_pool_def wp_simps)

lemma wp_on_cthread [wp_simps]:
  "wp (on_cthread m) Q E h =
     wp m (\<lambda>x c. Q x (h\<lparr>host_cthread := c\<rparr>)) (\<lambda>e c. E e (h\<lparr>host_cthread := c\<rparr>)) (host_cthread h)"
  by (simp add: on_cthread_def wp_simps)

text \<open>Maps a page unless it is mapped already.\<close>

definition map_page :: "ptr \<Rightarrow> u64 \<Rightarrow> ('p, 'm) host_scheme \<Rightarrow> ('p, 'm) host_scheme" where
  "map_page page_address page_size h =
     (if page_address \<notin> existing_tlb_mappings h then
        h\<lparr>host_cthread := host_cthread h @ [UserMap page_address page_size],
          existing_tlb_mappings := insert page_address (existing_tlb_mappings h)\<rparr>
      else h)"

text \<open>
  The recursion of \<open>ensure_tlb_mapping\<close> over the pages; \<open>None\<close> is a recursion that never ends.
\<close>

partial_function (option) ensure_tlb_rec ::
  "'p MemoryPool \<Rightarrow> ptr \<Rightarrow> u64 \<Rightarrow> ('p, 'm) host_scheme \<Rightarrow>
   ((cpp_error + unit) \<times> ('p, 'm) host_scheme) option" where
  "ensure_tlb_rec ops data_address sz h =
     (case pool_get_page_boundaries ops data_address (host_pool h) of
        Inl e \<Rightarrow> Some (Inl e, h)
      | Inr (page_address, page_size) \<Rightarrow>
          let h' = map_page page_address page_size h;
              end_mapped = data_address + sz;
              page_end = page_address + page_size
          in if end_mapped > page_end then ensure_tlb_rec ops page_end (end_mapped - page_end) h'
             else Some (Inr (), h'))"

declare ensure_tlb_rec.simps [code]

definition ensure_tlb_mapping ::
  "'p MemoryPool \<Rightarrow> ptr \<Rightarrow> u64 \<Rightarrow> (('p, 'm) host_scheme, unit) action" where
  "ensure_tlb_mapping ops data_address sz h =
     (case ensure_tlb_rec ops data_address sz h of
        None \<Rightarrow> (Inl Diverges, h)
      | Some r \<Rightarrow> r)"

text \<open>The destructor walks over the \<open>std::set\<close>, that is, in ascending order.\<close>

definition TLBManager_destroy :: "('p, 'm) host_scheme \<Rightarrow> ('p, 'm) host_scheme" where
  "TLBManager_destroy h =
     h\<lparr>host_cthread :=
         host_cthread h @ map UserUnmap (sorted_list_of_set (existing_tlb_mappings h))\<rparr>"

section \<open>What is mapped\<close>

text \<open>
  The pages a sequence of driver calls leaves mapped, and the discipline that a page is mapped
  only when it is not and unmapped only when it is.
\<close>

fun track_mapping :: "coyote_call \<Rightarrow> ptr set \<Rightarrow> ptr set" where
  "track_mapping (UserMap a n) m = insert a m"
| "track_mapping (UserUnmap a) m = m - {a}"
| "track_mapping _ m = m"

definition mapped_after :: "cthread \<Rightarrow> ptr set" where
  "mapped_after cs = fold track_mapping cs {}"

fun disciplined :: "ptr set \<Rightarrow> cthread \<Rightarrow> bool" where
  "disciplined m [] \<longleftrightarrow> True"
| "disciplined m (c # cs) \<longleftrightarrow>
     (case c of UserMap a n \<Rightarrow> a \<notin> m | UserUnmap a \<Rightarrow> a \<in> m | _ \<Rightarrow> True) \<and>
     disciplined (track_mapping c m) cs"

text \<open>The manager's set is exactly what the driver has mapped.\<close>

definition tlb_inv :: "('p, 'm) host_scheme \<Rightarrow> bool" where
  "tlb_inv h \<longleftrightarrow> finite (existing_tlb_mappings h) \<and>
     existing_tlb_mappings h = mapped_after (host_cthread h) \<and> disciplined {} (host_cthread h)"

text \<open>Every byte of the range is in a page of the pool that is mapped.\<close>

definition covered :: "'p MemoryPool \<Rightarrow> ('p, 'm) host_scheme \<Rightarrow> ptr \<Rightarrow> u64 \<Rightarrow> bool" where
  "covered ops h a n \<longleftrightarrow>
     (\<forall>x :: ptr. unat x \<in> range_of a n \<longrightarrow>
        (\<exists>y pa pn. unat y \<in> range_of a n \<and>
           pool_get_page_boundaries ops y (host_pool h) = Inr (pa, pn) \<and>
           pa \<in> existing_tlb_mappings h \<and> unat x \<in> range_of pa pn))"

lemma mapped_after_append: "mapped_after (cs @ ds) = fold track_mapping ds (mapped_after cs)"
  by (simp add: mapped_after_def)

lemma disciplined_append:
  "disciplined m (cs @ ds) \<longleftrightarrow> disciplined m cs \<and> disciplined (fold track_mapping cs m) ds"
  by (induction cs arbitrary: m) auto

definition user_maps :: "(ptr \<times> u64) list \<Rightarrow> cthread" where
  "user_maps new = map (\<lambda>(pa, pn). UserMap pa pn) new"

lemma user_maps_simps [simp]:
  "user_maps [] = []" "user_maps ((pa, pn) # new) = UserMap pa pn # user_maps new"
  by (simp_all add: user_maps_def)

lemma fold_user_maps: "fold track_mapping (user_maps new) m = m \<union> fst ` set new"
  by (induction new arbitrary: m) (force, force)

lemma disciplined_user_maps:
  "distinct (map fst new) \<Longrightarrow> fst ` set new \<inter> m = {} \<Longrightarrow> disciplined m (user_maps new)"
  by (induction new arbitrary: m) auto

lemma fold_user_unmaps: "fold track_mapping (map UserUnmap ps) m = m - set ps"
  by (induction ps arbitrary: m) auto

lemma disciplined_user_unmaps:
  "distinct ps \<Longrightarrow> set ps \<subseteq> m \<Longrightarrow> disciplined m (map UserUnmap ps)"
  by (induction ps arbitrary: m) (auto simp: subset_Diff_insert)

text \<open>The other calls of the driver do not matter for the mappings.\<close>

fun is_mapping :: "coyote_call \<Rightarrow> bool" where
  "is_mapping (UserMap a n) = True"
| "is_mapping (UserUnmap a) = True"
| "is_mapping _ = False"

lemma no_mapping_track:
  "list_all (Not \<circ> is_mapping) ds \<Longrightarrow> fold track_mapping ds m = m \<and> disciplined m ds"
proof (induction ds)
  case (Cons d ds)
  then show ?case by (cases d) simp_all
qed simp

lemma tlb_inv_calls:
  assumes "tlb_inv h" and "list_all (Not \<circ> is_mapping) ds"
    and "host_cthread h' = host_cthread h @ ds" and "existing_tlb_mappings h' = existing_tlb_mappings h"
  shows "tlb_inv h'"
  using assms no_mapping_track [OF assms(2)]
  by (simp add: tlb_inv_def mapped_after_append disciplined_append)

lemma filter_user_maps [simp]: "filter (Not \<circ> is_mapping) (user_maps new) = []"
  by (induction new) auto

lemma tlb_inv_maps:
  assumes "tlb_inv h" and "distinct (map fst new)"
    and "fst ` set new \<inter> existing_tlb_mappings h = {}"
    and "existing_tlb_mappings h' = existing_tlb_mappings h \<union> fst ` set new"
    and "host_cthread h' = host_cthread h @ user_maps new"
  shows "tlb_inv h'"
  using assms
  by (auto simp: tlb_inv_def mapped_after_append fold_user_maps disciplined_append
      disciplined_user_maps mapped_after_def [symmetric])

text \<open>The state after the pages \<open>new\<close> were mapped.\<close>

definition after_maps :: "(ptr \<times> u64) list \<Rightarrow> ('p, 'm) host_scheme \<Rightarrow> ('p, 'm) host_scheme" where
  "after_maps new h = h\<lparr>
     existing_tlb_mappings := existing_tlb_mappings h \<union> fst ` set new,
     host_cthread := host_cthread h @ user_maps new\<rparr>"

lemma after_maps_simps [simp]:
  "host_pool (after_maps new h) = host_pool h"
  "existing_tlb_mappings (after_maps new h) = existing_tlb_mappings h \<union> fst ` set new"
  "host_cthread (after_maps new h) = host_cthread h @ user_maps new"
  "more (after_maps new h) = more h"
  by (simp_all add: after_maps_def)

lemma after_maps_Nil [simp]: "after_maps [] h = h"
  by (simp add: after_maps_def)

lemma map_page_after_maps:
  "map_page pa pn h = (if pa \<in> existing_tlb_mappings h then h else after_maps [(pa, pn)] h)"
  by (simp add: map_page_def after_maps_def)

lemma after_maps_after_maps: "after_maps new' (after_maps new h) = after_maps (new @ new') h"
  by (simp add: after_maps_def user_maps_def Un_assoc image_Un)

lemma covered_mono:
  "covered ops h a n \<Longrightarrow> host_pool h' = host_pool h \<Longrightarrow>
   existing_tlb_mappings h \<subseteq> existing_tlb_mappings h' \<Longrightarrow> covered ops h' a n"
  unfolding covered_def by fastforce

text \<open>Whatever the pool does, the walk over the pages maps pages that were not mapped, and nothing else.\<close>

lemma ensure_tlb_rec_frame:
  assumes "ensure_tlb_rec ops a n h = Some r"
  shows "\<exists>new. snd r = after_maps new h \<and> distinct (map fst new) \<and>
    fst ` set new \<inter> existing_tlb_mappings h = {}"
proof (rule ensure_tlb_rec.raw_induct
    [where P = "\<lambda>ops a n h r. \<exists>new. snd r = after_maps new h \<and> distinct (map fst new) \<and>
       fst ` set new \<inter> existing_tlb_mappings h = {}", OF _ assms])
  fix rec ops a n and h :: "('a, 'b) host_scheme" and r
  assume IH: "\<And>ops a n h r. rec ops a n h = Some r \<Longrightarrow> \<exists>new. snd r = after_maps new h \<and>
      distinct (map fst new) \<and> fst ` set new \<inter> existing_tlb_mappings h = {}"
    and eq: "(case pool_get_page_boundaries ops a (host_pool h) of
        Inl e \<Rightarrow> Some (Inl e, h)
      | Inr (page_address, page_size) \<Rightarrow>
          let h' = map_page page_address page_size h; end_mapped = a + n;
              page_end = page_address + page_size
          in if end_mapped > page_end then rec ops page_end (end_mapped - page_end) h'
             else Some (Inr (), h')) = Some r"
  show "\<exists>new. snd r = after_maps new h \<and> distinct (map fst new) \<and>
      fst ` set new \<inter> existing_tlb_mappings h = {}"
  proof (cases "pool_get_page_boundaries ops a (host_pool h)")
    case (Inl e)
    then show ?thesis using eq by (intro exI [of _ "[]"]) auto
  next
    case (Inr page)
    obtain pa pn where page: "page = (pa, pn)" by force
    define new0 where "new0 = (if pa \<in> existing_tlb_mappings h then [] else [(pa, pn)])"
    have mp: "map_page pa pn h = after_maps new0 h" by (simp add: new0_def map_page_after_maps)
    have new0: "distinct (map fst new0)" "fst ` set new0 \<inter> existing_tlb_mappings h = {}"
      by (auto simp: new0_def)
    show ?thesis
    proof (cases "a + n > pa + pn")
      case True
      then have "rec ops (pa + pn) (a + n - (pa + pn)) (after_maps new0 h) = Some r"
        using eq Inr page mp by (simp add: Let_def)
      from IH [OF this] obtain new where "snd r = after_maps (new0 @ new) h" "distinct (map fst new)"
        "fst ` set new \<inter> (existing_tlb_mappings h \<union> fst ` set new0) = {}"
        by (auto simp: after_maps_after_maps)
      then show ?thesis using new0 by (intro exI [of _ "new0 @ new"]) auto
    next
      case False
      then show ?thesis using eq Inr page mp new0 by (intro exI [of _ new0]) auto
    qed
  qed
qed

lemma ensure_tlb_mapping_after_maps:
  assumes "ensure_tlb_mapping ops a n h = (r, h')"
  obtains new where "h' = after_maps new h" "distinct (map fst new)" "fst ` set new \<inter> existing_tlb_mappings h = {}"
proof (cases "ensure_tlb_rec ops a n h")
  case None
  then show thesis using assms by (intro that [of "[]"]) (simp_all add: ensure_tlb_mapping_def)
next
  case (Some x)
  from ensure_tlb_rec_frame [OF this] that show thesis
    using assms Some by (auto simp: ensure_tlb_mapping_def)
qed

lemma ensure_tlb_mapping_frame:
  "ensure_tlb_mapping ops a n h = (r, h') \<Longrightarrow>
     host_pool h' = host_pool h \<and> host.more h' = host.more h"
  by (auto elim!: ensure_tlb_mapping_after_maps)

text \<open>
  A range every byte of which is in a page of the pool: any range inside a live block, and for the
  pool of huge pages any range inside the pool.
\<close>

definition paged :: "'p MemoryPool \<Rightarrow> 'p \<Rightarrow> ptr \<Rightarrow> u64 \<Rightarrow> bool" where
  "paged ops p a sz \<longleftrightarrow> no_wrap a sz \<and>
     (\<forall>x. unat x \<in> range_of a sz \<longrightarrow>
        (\<exists>pa pn. pool_get_page_boundaries ops x p = Inr (pa, pn) \<and> no_wrap pa pn \<and>
           unat x \<in> range_of pa pn))"

context memory_pool
begin

lemma live_paged:
  assumes "pool_inv p" and "live p q = Some n" and "range_of a sz \<subseteq> range_of q n" and "0 < sz"
  shows "paged ops p a sz"
proof -
  have "unat a + unat sz - 1 \<in> range_of a sz" using assms(4) by (auto simp: range_of_def word_pos_nat)
  then have "no_wrap a sz"
    using assms(3) live_block [OF assms(1,2)] by (auto simp: range_of_def no_wrap_def)
  then show ?thesis using live_page [OF assms(1,2)] assms(3) unfolding paged_def by blast
qed

end

lemma paged_page:
  assumes "paged ops p a sz" and "0 < sz"
  obtains pa pn where "pool_get_page_boundaries ops a p = Inr (pa, pn)" "no_wrap pa pn"
    "unat a \<in> range_of pa pn"
  using assms by (auto simp: paged_def range_of_def word_pos_nat)

lemma paged_rest:
  assumes "paged ops p a sz" and "unat b \<ge> unat a" and "unat b + unat m \<le> unat a + unat sz"
  shows "paged ops p b m"
proof -
  have "range_of b m \<subseteq> range_of a sz" using assms(2,3) by (auto simp: range_of_def)
  then show ?thesis using assms by (auto simp: paged_def no_wrap_def)
qed

text \<open>What is left of a range behind the page of its first byte.\<close>

lemma next_page:
  assumes "paged ops p a sz" and "no_wrap pa pn" and "unat a \<in> range_of pa pn" and "a + sz > pa + pn"
  shows "unat (a + sz - (pa + pn)) < unat sz" "0 < a + sz - (pa + pn)"
    "paged ops p (pa + pn) (a + sz - (pa + pn))"
    "range_of (pa + pn) (a + sz - (pa + pn)) \<subseteq> range_of a sz"
    "unat (x :: ptr) \<in> range_of a sz \<Longrightarrow> unat x \<notin> range_of pa pn \<Longrightarrow> unat x \<in> range_of (pa + pn) (a + sz - (pa + pn))"
proof -
  have ends: "unat (a + sz) = unat a + unat sz" "unat (pa + pn) = unat pa + unat pn"
    using assms(1,2) by (simp_all add: paged_def unat_plus_no_wrap)
  have m: "unat (a + sz - (pa + pn)) = unat a + unat sz - (unat pa + unat pn)"
    using assms(4) ends by (simp add: unat_sub)
  have lt: "unat pa + unat pn < unat a + unat sz" using assms(4) ends by (simp add: word_less_nat_alt)
  have a: "unat pa \<le> unat a" "unat a < unat pa + unat pn" using assms(3) by (simp_all add: range_of_def)
  show "unat (a + sz - (pa + pn)) < unat sz" using m lt a by simp
  show "0 < a + sz - (pa + pn)" using m lt by (simp add: word_less_nat_alt)
  show "paged ops p (pa + pn) (a + sz - (pa + pn))"
    using paged_rest [OF assms(1), of "pa + pn" "a + sz - (pa + pn)"] m lt ends(2) a by simp
  show "range_of (pa + pn) (a + sz - (pa + pn)) \<subseteq> range_of a sz"
    using m lt ends(2) a by (auto simp: range_of_def)
  show "unat x \<in> range_of (pa + pn) (a + sz - (pa + pn))"
    if "unat x \<in> range_of a sz" "unat x \<notin> range_of pa pn"
    using that m ends(2) a by (auto simp: range_of_def)
qed

text \<open>A range is covered when the page of its first byte is mapped and the rest is covered.\<close>

lemma covered_page:
  assumes "pool_get_page_boundaries ops a (host_pool h) = Inr (pa, pn)" and "pa \<in> existing_tlb_mappings h"
    and "0 < sz" and "covered ops h b m" and "range_of b m \<subseteq> range_of a sz"
    and "\<And>x :: ptr. unat x \<in> range_of a sz \<Longrightarrow> unat x \<notin> range_of pa pn \<Longrightarrow> unat x \<in> range_of b m"
  shows "covered ops h a sz"
  unfolding covered_def
proof (intro allI impI)
  fix x :: ptr
  assume x: "unat x \<in> range_of a sz"
  show "\<exists>y pb pm. unat y \<in> range_of a sz \<and> pool_get_page_boundaries ops y (host_pool h) = Inr (pb, pm) \<and>
      pb \<in> existing_tlb_mappings h \<and> unat x \<in> range_of pb pm"
  proof (cases "unat x \<in> range_of pa pn")
    case True
    moreover have "unat a \<in> range_of a sz" using assms(3) by (simp add: range_of_def word_less_nat_alt)
    ultimately show ?thesis using assms(1,2) by blast
  next
    case False
    then show ?thesis using assms(4,5) assms(6) [OF x] unfolding covered_def by blast
  qed
qed

lemma covered_empty: "covered ops h b 0"
  by (simp add: covered_def range_of_def)

lemma ensure_tlb_rec_maps:
  assumes "paged ops (host_pool h) a sz" and "0 < sz"
  shows "\<exists>new. ensure_tlb_rec ops a sz h = Some (Inr (), after_maps new h) \<and>
    distinct (map fst new) \<and> fst ` set new \<inter> existing_tlb_mappings h = {} \<and>
    covered ops (after_maps new h) a sz \<and>
    (\<forall>e \<in> set new. \<exists>x. unat x \<in> range_of a sz \<and> pool_get_page_boundaries ops x (host_pool h) = Inr e)"
  using assms
proof (induction "unat sz" arbitrary: a sz h rule: less_induct)
  case less
  note pg = less.prems(1) and pos = less.prems(2)
  obtain pa pn where page: "pool_get_page_boundaries ops a (host_pool h) = Inr (pa, pn)"
    and pw: "no_wrap pa pn" and ain: "unat a \<in> range_of pa pn"
    using paged_page [OF pg pos] by blast
  define new0 where "new0 = (if pa \<in> existing_tlb_mappings h then [] else [(pa, pn)])"
  have h1: "map_page pa pn h = after_maps new0 h" by (simp add: new0_def map_page_after_maps)
  have new0: "distinct (map fst new0)" "fst ` set new0 \<inter> existing_tlb_mappings h = {}"
    "pa \<in> existing_tlb_mappings (after_maps new0 h)"
    by (auto simp: new0_def)
  have "unat a \<in> range_of a sz" using pos by (simp add: range_of_def word_less_nat_alt)
  then have from_a: "\<forall>e \<in> set new0. \<exists>x. unat x \<in> range_of a sz \<and> pool_get_page_boundaries ops x (host_pool h) = Inr e"
    using page by (auto simp: new0_def)
  let ?b = "pa + pn" and ?m = "a + sz - (pa + pn)"
  show ?case
  proof (cases "a + sz > pa + pn")
    case False
    then have "unat x \<in> range_of pa pn" if "unat x \<in> range_of a sz" for x :: ptr
      using that pg pw ain by (auto simp: range_of_def word_less_nat_alt paged_def unat_plus_no_wrap)
    then have "covered ops (after_maps new0 h) a sz"
      using covered_page [of ops a "after_maps new0 h" pa pn sz, OF _ new0(3) pos covered_empty] page
      by (force simp: range_of_def)
    then show ?thesis
      using False page h1 new0 from_a by (intro exI [of _ new0]) (simp add: ensure_tlb_rec.simps [of ops a sz h])
  next
    case True
    note rest = next_page [OF pg pw ain True]
    have "paged ops (host_pool (after_maps new0 h)) ?b ?m" using rest(3) by simp
    from less.hyps [OF rest(1) this rest(2)]
    obtain new where new: "ensure_tlb_rec ops ?b ?m (after_maps new0 h) =
          Some (Inr (), after_maps new (after_maps new0 h))"
      "distinct (map fst new)" "fst ` set new \<inter> existing_tlb_mappings (after_maps new0 h) = {}"
      "covered ops (after_maps new (after_maps new0 h)) ?b ?m"
      "\<forall>e \<in> set new. \<exists>x. unat x \<in> range_of ?b ?m \<and> pool_get_page_boundaries ops x (host_pool h) = Inr e"
      by auto
    let ?h = "after_maps (new0 @ new) h"
    have "covered ops ?h a sz"
      by (rule covered_page [OF _ _ pos new(4) [unfolded after_maps_after_maps] rest(4,5)])
        (use page new0(3) in auto)
    moreover have "\<forall>e \<in> set (new0 @ new). \<exists>x. unat x \<in> range_of a sz \<and>
        pool_get_page_boundaries ops x (host_pool h) = Inr e"
      using from_a new(5) rest(4) unfolding set_append by blast
    moreover have "ensure_tlb_rec ops a sz h = Some (Inr (), ?h)"
      using True page h1 new(1) by (simp add: ensure_tlb_rec.simps [of ops a sz h] after_maps_after_maps)
    ultimately show ?thesis
      using new0(1,2) new(2,3) by (intro exI [of _ "new0 @ new"]) auto
  qed
qed

lemma ensure_tlb_mapping_maps:
  assumes "paged ops (host_pool h) a sz" and "0 < sz"
  obtains new where "ensure_tlb_mapping ops a sz h = (Inr (), after_maps new h)"
    "distinct (map fst new)" "fst ` set new \<inter> existing_tlb_mappings h = {}"
    "covered ops (after_maps new h) a sz"
    "\<And>pa pn. (pa, pn) \<in> set new \<Longrightarrow>
       \<exists>x. unat x \<in> range_of a sz \<and> pool_get_page_boundaries ops x (host_pool h) = Inr (pa, pn)"
  using ensure_tlb_rec_maps [OF assms] that by (auto simp: ensure_tlb_mapping_def)

text \<open>When the pages of the range are mapped already, nothing happens.\<close>

lemma ensure_tlb_mapping_mapped:
  assumes "paged ops (host_pool h) a sz" and "0 < sz"
    and "\<And>x pa pn. unat x \<in> range_of a sz \<Longrightarrow>
      pool_get_page_boundaries ops x (host_pool h) = Inr (pa, pn) \<Longrightarrow> pa \<in> existing_tlb_mappings h"
  shows "ensure_tlb_mapping ops a sz h = (Inr (), h)"
proof -
  obtain new where new: "ensure_tlb_mapping ops a sz h = (Inr (), after_maps new h)"
    "fst ` set new \<inter> existing_tlb_mappings h = {}"
    "\<And>pa pn. (pa, pn) \<in> set new \<Longrightarrow>
       \<exists>x. unat x \<in> range_of a sz \<and> pool_get_page_boundaries ops x (host_pool h) = Inr (pa, pn)"
    using ensure_tlb_mapping_maps [OF assms(1,2)] by metis
  have "new = []"
  proof (cases new)
    case (Cons e es)
    obtain pa pn where e: "e = (pa, pn)" by force
    have "(pa, pn) \<in> set new" by (simp add: Cons e)
    from new(3) [OF this] assms(3) have "pa \<in> existing_tlb_mappings h" by blast
    then show ?thesis using new(2) Cons e by simp
  qed
  then show ?thesis using new(1) by simp
qed

context memory_pool
begin

lemma ensure_tlb_mapping_wp:
  assumes "pool_inv (host_pool h)" and "live (host_pool h) q = Some n"
    and "range_of a sz \<subseteq> range_of q n" and "0 < sz"
  shows "wp (ensure_tlb_mapping ops a sz)
    (\<lambda>_ h'. \<exists>new. h' = after_maps new h \<and> distinct (map fst new) \<and>
       fst ` set new \<inter> existing_tlb_mappings h = {} \<and> covered ops h' a sz)
    (\<lambda>_ _. False) h"
  using ensure_tlb_mapping_maps [OF live_paged [OF assms] assms(4)] by (fastforce simp: wp_def)

end

section \<open>Properties\<close>

text \<open>C22. Mapping a buffer: over the simple pool, for any range inside a live buffer, \<open>ensure_tlb_mapping\<close> ends
  without an exception, every byte of the range is then inside a page that is mapped, no page was
  mapped that was mapped already (the driver's calls stay disciplined and the manager's set stays
  exactly what the driver has mapped), and nothing else changes.\<close>

theorem tlb_mapping_covers_buffer:
  assumes "sp_inv (host_pool h)" and "tlb_inv h" and "sp_live (host_pool h) q = Some n"
    and "range_of a sz \<subseteq> range_of q n" and "0 < sz"
  shows "\<exists>h'. ensure_tlb_mapping SimpleMemoryPool_ops a sz h = (Inr (), h') \<and>
    covered SimpleMemoryPool_ops h' a sz \<and> tlb_inv h' \<and> host_pool h' = host_pool h \<and>
    existing_tlb_mappings h \<subseteq> existing_tlb_mappings h'"
proof -
  obtain new where h': "ensure_tlb_mapping SimpleMemoryPool_ops a sz h = (Inr (), after_maps new h)"
    and new: "distinct (map fst new)" "fst ` set new \<inter> existing_tlb_mappings h = {}"
    and cov: "covered SimpleMemoryPool_ops (after_maps new h) a sz"
    using simple_pool.ensure_tlb_mapping_wp [OF assms(1,3-5)]
    by (auto simp: wp_def split: prod.splits sum.splits)
  have "tlb_inv (after_maps new h)"
    by (rule tlb_inv_maps [OF assms(2) new]) simp_all
  with h' cov show ?thesis by auto
qed

definition example_host :: "SimpleMemoryPool host" where
  "example_host = \<lparr>host_pool = example_pool_2, existing_tlb_mappings = {}, host_cthread = []\<rparr>"

lemma example_host_inv: "sp_inv (host_pool example_host)" "tlb_inv example_host"
  using sp_reachable_inv [OF sp_honest_reachable [OF example_honest_2]]
  by (simp_all add: example_host_def tlb_inv_def mapped_after_def)

theorem tlb_mapping_covers_buffer_witness:
  "\<exists>h'. ensure_tlb_mapping SimpleMemoryPool_ops 65670 50 example_host = (Inr (), h') \<and>
    covered SimpleMemoryPool_ops h' 65670 50 \<and> tlb_inv h' \<and> host_pool h' = host_pool example_host \<and>
    existing_tlb_mappings example_host \<subseteq> existing_tlb_mappings h'"
proof (rule tlb_mapping_covers_buffer [OF example_host_inv])
  show "sp_live (host_pool example_host) 65664 = Some 200"
    using example_live_2 by (simp add: example_host_def)
qed (auto simp: range_of_def)

text \<open>The destructor unmaps every page that was mapped, each exactly once.\<close>

theorem tlb_destroy_unmaps_all:
  assumes "tlb_inv h"
  shows "mapped_after (host_cthread (TLBManager_destroy h)) = {} \<and>
    disciplined {} (host_cthread (TLBManager_destroy h))"
  using assms
  by (auto simp: TLBManager_destroy_def tlb_inv_def mapped_after_append fold_user_unmaps
      disciplined_append disciplined_user_unmaps simp flip: mapped_after_def)

theorem tlb_destroy_unmaps_all_witness:
  "mapped_after (host_cthread (TLBManager_destroy (map_page 65664 200 example_host))) = {} \<and>
    disciplined {} (host_cthread (TLBManager_destroy (map_page 65664 200 example_host)))"
  by (rule tlb_destroy_unmaps_all)
    (simp add: example_host_def map_page_def tlb_inv_def mapped_after_def)

end
