(* ===== verification/Output_Handle.thy ===== *)
theory Output_Handle
  imports Buffers
begin

text \<open>
  \<open>software/libstf/output_handle.hpp\<close> and \<open>output_handle.cpp\<close>: the object a client reads the output
  of an FPGA run from. Its producer (the output buffer manager) pushes buffers and marks streams
  as done; clients ask for output and wait when there is none yet. A call that waits is the
  result \<open>Blocks\<close>; what happens to it later is the subject of the theory of the readers.

  A callback is a number, a composed callback the list of callbacks it calls in order, and an
  empty list is the null \<open>std::function\<close>. The thread that runs the callbacks of a stream is the
  list of the invocations it has still to make; \<open>oh_invoked\<close> records those that were made.
\<close>

record OutputHandle =
  oh_NUM_STREAMS :: stream_t
  oh_callback :: "nat list"
  oh_callback_thread :: "(nat \<times> stream_t) list option"
  oh_invoked :: "(nat \<times> stream_t) list"
  oh_active_streams :: stream_mask_t
  oh_finished_streams :: stream_mask_t
  oh_output_buffers :: "Buffer list list"

definition OutputHandle_init :: "stream_mask_t \<Rightarrow> stream_t \<Rightarrow> OutputHandle" where
  "OutputHandle_init active n =
     \<lparr>oh_NUM_STREAMS = n, oh_callback = [], oh_callback_thread = None, oh_invoked = [],
      oh_active_streams = active, oh_finished_streams = 0,
      oh_output_buffers = replicate (unat n) []\<rparr>"

definition push_buffer :: "stream_t \<Rightarrow> Buffer \<Rightarrow> (OutputHandle, unit) action" where
  "push_buffer stream_id buffer =
     seqE (readE oh_output_buffers) (\<lambda>qs.
     seqE (liftE (vec_at qs (unat stream_id))) (\<lambda>q.
     modifyE (\<lambda>h. h\<lparr>oh_output_buffers := qs[unat stream_id := q @ [buffer]]\<rparr>)))"

text \<open>Joining the callback thread waits until it has made all its invocations.\<close>

definition join_callback_thread :: "OutputHandle \<Rightarrow> OutputHandle" where
  "join_callback_thread h =
     (case oh_callback_thread h of
        None \<Rightarrow> h
      | Some todo \<Rightarrow> h\<lparr>oh_invoked := oh_invoked h @ todo, oh_callback_thread := None\<rparr>)"

definition mark_done :: "stream_t \<Rightarrow> (OutputHandle, unit) action" where
  "mark_done stream_id =
     seqE (modifyE join_callback_thread) (\<lambda>_.
     seqE (readE oh_finished_streams) (\<lambda>finished.
     seqE (liftE (mask_set finished (unat stream_id))) (\<lambda>finished'.
     seqE (modifyE (\<lambda>h. h\<lparr>oh_finished_streams := finished'\<rparr>)) (\<lambda>_.
     modifyE (\<lambda>h. if oh_callback h \<noteq> []
       then h\<lparr>oh_callback_thread := Some (map (\<lambda>c. (c, stream_id)) (oh_callback h))\<rparr>
       else h)))))"

text \<open>\<open>mark_done\<close> changes neither the output nor the callbacks.\<close>

lemma mark_done_wp:
  "wp (mark_done stream)
     (\<lambda>_ h'. oh_output_buffers h' = oh_output_buffers h \<and> oh_NUM_STREAMS h' = oh_NUM_STREAMS h \<and>
        oh_active_streams h' = oh_active_streams h \<and> oh_callback h' = oh_callback h \<and>
        oh_finished_streams h' = set_bit (unat stream) (oh_finished_streams h))
     (\<lambda>_ h'. oh_output_buffers h' = oh_output_buffers h \<and> oh_NUM_STREAMS h' = oh_NUM_STREAMS h) h"
  by (simp add: mark_done_def wp_simps mask_set_def join_callback_thread_def split: option.splits)

definition add_callback :: "nat \<Rightarrow> OutputHandle \<Rightarrow> OutputHandle" where
  "add_callback callback h = h\<lparr>oh_callback := oh_callback h @ [callback]\<rparr>"

text \<open>The callback thread makes its next invocation.\<close>

definition run_callback :: "OutputHandle \<Rightarrow> OutputHandle" where
  "run_callback h =
     (case oh_callback_thread h of
        Some (c # todo) \<Rightarrow> h\<lparr>oh_invoked := oh_invoked h @ [c], oh_callback_thread := Some todo\<rparr>
      | _ \<Rightarrow> h)"

section \<open>Reading\<close>

datatype 'a blocking = Returns 'a | Blocks

text \<open>The checks both single-stream calls begin with.\<close>

definition check_stream :: "OutputHandle \<Rightarrow> stream_t \<Rightarrow> cpp_error + unit" where
  "check_stream h stream_id =
     (if stream_id \<ge> oh_NUM_STREAMS h
      then Inl (InvalidArgument ''Stream ID larger than the number of streams'')
      else
        (case mask_test (oh_active_streams h) (unat stream_id) of
           Inl e \<Rightarrow> Inl e
         | Inr active \<Rightarrow>
             if \<not> active then Inl (InvalidArgument ''Stream is not active for this OutputHandle'')
             else Inr ()))"

definition stream_finished :: "OutputHandle \<Rightarrow> stream_t \<Rightarrow> bool" where
  "stream_finished h stream_id \<longleftrightarrow> bit (oh_finished_streams h) (unat stream_id)"

text \<open>
  With the lock held: returns at once if there is output, otherwise waits until the stream has
  output or is finished, and then says whether there is output.
\<close>

definition stream_has_more_output :: "stream_t \<Rightarrow> (OutputHandle, bool blocking) action" where
  "stream_has_more_output stream_id =
     seqE (readE id) (\<lambda>h.
     seqE (liftE (check_stream h stream_id)) (\<lambda>_.
     seqE (liftE (vec_at (oh_output_buffers h) (unat stream_id))) (\<lambda>q.
     if q \<noteq> [] then ret (Returns True)
     else if q \<noteq> [] \<or> stream_finished h stream_id then ret (Returns (q \<noteq> []))
     else ret Blocks)))"

definition transferred_mem_front_to_shared_ptr :: "stream_t \<Rightarrow> (OutputHandle, Buffer) action" where
  "transferred_mem_front_to_shared_ptr stream_id =
     seqE (readE oh_output_buffers) (\<lambda>qs.
     seqE (liftE (vec_at qs (unat stream_id))) (\<lambda>q.
     case q of
       [] \<Rightarrow> throw UndefinedBehaviour
     | buffer # rest \<Rightarrow>
         seqE (modifyE (\<lambda>h. h\<lparr>oh_output_buffers := qs[unat stream_id := rest]\<rparr>)) (\<lambda>_.
         ret (make_buffer (buf_ptr buffer) (buf_size buffer) (buf_capacity buffer)))))"

definition get_next_stream_output :: "stream_t \<Rightarrow> (OutputHandle, Buffer option blocking) action" where
  "get_next_stream_output stream_id =
     seqE (readE id) (\<lambda>h.
     seqE (liftE (check_stream h stream_id)) (\<lambda>_.
     seqE (liftE (vec_at (oh_output_buffers h) (unat stream_id))) (\<lambda>q.
     if q \<noteq> [] then
       seqE (transferred_mem_front_to_shared_ptr stream_id) (\<lambda>b. ret (Returns (Some b)))
     else if q \<noteq> [] \<or> stream_finished h stream_id then
       (if q \<noteq> [] then
          seqE (transferred_mem_front_to_shared_ptr stream_id) (\<lambda>b. ret (Returns (Some b)))
        else ret (Returns None))
     else ret Blocks)))"

text \<open>A client takes the oldest buffer of a stream, or learns that there will be none, or waits.\<close>

lemma buffer_eta: "make_buffer (buf_ptr b) (buf_size b) (buf_capacity b) = b"
  by (simp add: make_buffer_def)

lemma get_next_wp:
  "wp (get_next_stream_output i)
     (\<lambda>r h'. unat i < length (oh_output_buffers h) \<and>
        (case r of
           Returns (Some b) \<Rightarrow> \<exists>rest. oh_output_buffers h ! unat i = b # rest \<and>
             h' = h\<lparr>oh_output_buffers := (oh_output_buffers h)[unat i := rest]\<rparr>
         | Returns None \<Rightarrow> h' = h \<and> oh_output_buffers h ! unat i = [] \<and> stream_finished h i
         | Blocks \<Rightarrow> h' = h \<and> oh_output_buffers h ! unat i = [] \<and> \<not> stream_finished h i))
     (\<lambda>_ h'. h' = h) h"
proof (cases "check_stream h i")
  case (Inl e)
  then show ?thesis by (simp add: get_next_stream_output_def wp_simps)
next
  case (Inr u)
  then show ?thesis
    by (cases "oh_output_buffers h ! unat i")
      (auto simp: get_next_stream_output_def transferred_mem_front_to_shared_ptr_def vec_at_def
        wp_simps buffer_eta split: if_splits)
qed

definition any_stream_output_available :: "OutputHandle \<Rightarrow> bool" where
  "any_stream_output_available h \<longleftrightarrow> list_ex (\<lambda>q. q \<noteq> []) (oh_output_buffers h)"

fun in_flight_from :: "OutputHandle \<Rightarrow> nat list \<Rightarrow> cpp_error + bool" where
  "in_flight_from h [] = Inr False"
| "in_flight_from h (i # is) =
     (case mask_test (oh_active_streams h) i of
        Inl e \<Rightarrow> Inl e
      | Inr active \<Rightarrow>
          if active \<and> \<not> bit (oh_finished_streams h) i then Inr True else in_flight_from h is)"

definition any_memory_in_flight :: "OutputHandle \<Rightarrow> cpp_error + bool" where
  "any_memory_in_flight h = in_flight_from h [0 ..< length (oh_output_buffers h)]"

definition any_stream_has_more_output :: "(OutputHandle, bool blocking) action" where
  "any_stream_has_more_output =
     seqE (readE id) (\<lambda>h.
     if any_stream_output_available h then ret (Returns True)
     else
       seqE (liftE (any_memory_in_flight h)) (\<lambda>in_flight.
       if any_stream_output_available h \<or> \<not> in_flight
       then ret (Returns (any_stream_output_available h))
       else ret Blocks))"

text \<open>
  The destructor waits for the callback thread and gives the buffers that were not taken back to
  the pool.
\<close>

definition OutputHandle_destroy :: "'p MemoryPool \<Rightarrow> OutputHandle \<Rightarrow> ('p, OutputHandle) action" where
  "OutputHandle_destroy ops h =
     (let h = join_callback_thread h in
      seqE (free_buffers_in_queue ops (concat (oh_output_buffers h))) (\<lambda>_.
      ret (h\<lparr>oh_output_buffers := map (\<lambda>_. []) (oh_output_buffers h)\<rparr>)))"

end
