(* ===== verification/Output_Buffer_Manager.thy ===== *)
theory Output_Buffer_Manager
  imports Configuration Tlb_Manager Output_Handle
begin

text \<open>
  \<open>software/libstf/output_buffer_manager.hpp\<close> and \<open>output_buffer_manager.cpp\<close>: the manager of the
  buffers the FPGA writes its output to. Its constants are the record \<open>obm_params\<close>, its mutable
  state extends the record of the shared objects. A \<open>shared_ptr<OutputHandle>\<close> is an index into
  the list \<open>handles\<close>, so the same handle can be in several queues. The public methods hold the
  lock \<open>enqueued_buffers_mutex\<close> for all they do to the state, so each is one step.
\<close>

section \<open>Interrupt values\<close>

record InterruptValue =
  iv_last :: bool
  iv_bytes_written :: u32
  iv_stream_id :: stream_t

text \<open>
  The mask is computed as an \<open>int\<close>, where a shift by 31 overflows and one by 32 is not defined.
\<close>

definition extract_bits_from_uint32 :: "u32 \<Rightarrow> u32 \<Rightarrow> u32 \<Rightarrow> cpp_error + u32" where
  "extract_bits_from_uint32 val start_bit num_bits =
     (if \<not> start_bit + num_bits \<le> 32 then Inl AssertionFailure
      else if num_bits \<ge> 31 \<or> start_bit \<ge> 32 then Inl UndefinedBehaviour
      else
        let msk = push_bit (unat num_bits) 1 - 1
        in Inr (drop_bit (unat start_bit) val AND msk))"

definition parse_interrupt_value :: "u32 \<Rightarrow> cpp_error + InterruptValue" where
  "parse_interrupt_value val =
     bind_sum (extract_bits_from_uint32 val 0 FPGA_INTERRUPT_STREAM_ID_BITS) (\<lambda>sid.
     bind_sum (extract_bits_from_uint32 val FPGA_INTERRUPT_STREAM_ID_BITS
                 FPGA_INTERRUPT_TRANSFER_SIZE_BITS) (\<lambda>bytes.
     bind_sum (extract_bits_from_uint32 val
                 (FPGA_INTERRUPT_STREAM_ID_BITS + FPGA_INTERRUPT_TRANSFER_SIZE_BITS)
                 FPGA_INTERRUPT_LAST_BITS) (\<lambda>lst.
     Inr \<lparr>iv_last = (lst = 1), iv_bytes_written = bytes, iv_stream_id = ucast sid\<rparr>)))"

section \<open>State\<close>

record obm_params =
  obm_mem_config :: MemConfig
  NUM_STREAMS :: stream_t
  MANAGED_STREAMS :: stream_mask_t
  NUM_BUFFERS_TO_ENQUEUE :: u64
  BUFFER_CAPACITY :: u64

record 'p obm = "'p host" +
  handles :: "OutputHandle list"
  enqueued_handles :: "nat list list"
  enqueued_buffers :: "Buffer list list"

definition OutputBufferManager_init ::
  "MemConfig \<Rightarrow> stream_mask_t \<Rightarrow> u64 \<Rightarrow> u64 \<Rightarrow> cpp_error + obm_params" where
  "OutputBufferManager_init mc managed num_to_enqueue capacity =
     (if num_to_enqueue = 0
      then Inl (RuntimeError ''Number of enqueued buffers has to be larger than 0'')
      else if num_to_enqueue > maximum_num_enqueued_buffers mc
      then Inl (RuntimeError ''Number of enqueued buffers is higher than the maximum supported by the hardware'')
      else if capacity < ucast BYTES_PER_FPGA_TRANSFER
      then Inl (RuntimeError (''Buffer capacity has to be >= '' @ show_word BYTES_PER_FPGA_TRANSFER))
      else if capacity \<ge> ucast MAXIMUM_FPGA_BUFFER_SIZE
      then Inl (RuntimeError (''Buffer capacity has to be < '' @ show_word MAXIMUM_FPGA_BUFFER_SIZE))
      else if capacity mod ucast BYTES_PER_FPGA_TRANSFER \<noteq> 0
      then Inl (RuntimeError (''Buffer capacity has to be a multiple of '' @ show_word BYTES_PER_FPGA_TRANSFER))
      else Inr \<lparr>obm_mem_config = mc, NUM_STREAMS = num_streams mc, MANAGED_STREAMS = managed,
                NUM_BUFFERS_TO_ENQUEUE = num_to_enqueue, BUFFER_CAPACITY = capacity\<rparr>)"

text \<open>The queues of a new manager, one per stream.\<close>

definition obm_start :: "obm_params \<Rightarrow> 'p host \<Rightarrow> 'p obm" where
  "obm_start c h = host.extend h \<lparr>handles = [],
     enqueued_handles = replicate (unat (NUM_STREAMS c)) [],
     enqueued_buffers = replicate (unat (NUM_STREAMS c)) []\<rparr>"

section \<open>Queues and handles\<close>

definition handle_queue :: "stream_t \<Rightarrow> ('p obm, nat list) action" where
  "handle_queue stream_id =
     seqE (readE enqueued_handles) (\<lambda>qs. liftE (vec_at qs (unat stream_id)))"

definition buffer_queue :: "stream_t \<Rightarrow> ('p obm, Buffer list) action" where
  "buffer_queue stream_id =
     seqE (readE enqueued_buffers) (\<lambda>qs. liftE (vec_at qs (unat stream_id)))"

text \<open>\<open>front()\<close> of an empty queue is not checked by the library.\<close>

definition front_of :: "'a list \<Rightarrow> cpp_error + 'a" where
  "front_of q = (case q of [] \<Rightarrow> Inl UndefinedBehaviour | x # _ \<Rightarrow> Inr x)"

definition set_handle_queue :: "stream_t \<Rightarrow> nat list \<Rightarrow> ('p obm, unit) action" where
  "set_handle_queue stream_id q =
     modifyE (\<lambda>s. s\<lparr>enqueued_handles := (enqueued_handles s)[unat stream_id := q]\<rparr>)"

definition set_buffer_queue :: "stream_t \<Rightarrow> Buffer list \<Rightarrow> ('p obm, unit) action" where
  "set_buffer_queue stream_id q =
     modifyE (\<lambda>s. s\<lparr>enqueued_buffers := (enqueued_buffers s)[unat stream_id := q]\<rparr>)"

definition push_handle :: "stream_t \<Rightarrow> nat \<Rightarrow> ('p obm, unit) action" where
  "push_handle stream_id r =
     seqE (handle_queue stream_id) (\<lambda>q. set_handle_queue stream_id (q @ [r]))"

definition push_enqueued_buffer :: "stream_t \<Rightarrow> Buffer \<Rightarrow> ('p obm, unit) action" where
  "push_enqueued_buffer stream_id b =
     seqE (buffer_queue stream_id) (\<lambda>q. set_buffer_queue stream_id (q @ [b]))"

definition on_handle :: "nat \<Rightarrow> (OutputHandle, 'a) action \<Rightarrow> ('p obm, 'a) action" where
  "on_handle r m s =
     (if r < length (handles s)
      then onE (\<lambda>s. handles s ! r) (\<lambda>h s. s\<lparr>handles := (handles s)[r := h]\<rparr>) m s
      else (Inl UndefinedBehaviour, s))"

definition new_handle :: "obm_params \<Rightarrow> stream_mask_t \<Rightarrow> ('p obm, nat) action" where
  "new_handle c active_mask s =
     (Inr (length (handles s)),
      s\<lparr>handles := handles s @ [OutputHandle_init active_mask (NUM_STREAMS c)]\<rparr>)"

section \<open>Private methods\<close>

text \<open>
  \<open>move_current_buffer_to_handle\<close> in its three parts. The front buffer is a reference into the queue,
  so its fields change in the queue: \<open>bs\<close> are the buffers behind it.
\<close>

definition deliver_front ::
  "'p MemoryPool \<Rightarrow> stream_t \<Rightarrow> nat \<Rightarrow> Buffer \<Rightarrow> Buffer list \<Rightarrow> u32 \<Rightarrow> ('p obm, unit) action" where
  "deliver_front ops stream_id active_handle active_buffer bs bytes_written =
     seqE
       (if ucast bytes_written < buf_capacity active_buffer then
          seqE (on_pool (pool_reallocate ops (buf_capacity active_buffer) (ucast bytes_written)
                  DEFAULT_ALIGNMENT (buf_ptr active_buffer))) (\<lambda>(res, p).
          seqE (set_buffer_queue stream_id (active_buffer\<lparr>buf_ptr := p\<rparr> # bs)) (\<lambda>_.
          if \<not> status_ok res
          then throw (RuntimeError (''OutputBufferManager::move_current_buffer_to_handle could not shrink output buffer to '' @
            show_word bytes_written @ '' bytes: '' @ message res))
          else ret (active_buffer\<lparr>buf_ptr := p\<rparr>)))
        else ret active_buffer) (\<lambda>active_buffer.
     let active_buffer = active_buffer\<lparr>buf_size := ucast bytes_written\<rparr> in
     seqE (set_buffer_queue stream_id (active_buffer # bs)) (\<lambda>_.
     seqE (on_handle active_handle (push_buffer stream_id active_buffer)) (\<lambda>_.
     set_buffer_queue stream_id bs)))"

definition recycle_front ::
  "'p MemoryPool \<Rightarrow> stream_t \<Rightarrow> Buffer \<Rightarrow> Buffer list \<Rightarrow> ('p obm, unit) action" where
  "recycle_front ops stream_id active_buffer bs =
     seqE (on_pool (pool_free ops (buf_ptr active_buffer) (buf_capacity active_buffer)
             DEFAULT_ALIGNMENT)) (\<lambda>_.
     set_buffer_queue stream_id bs)"

definition finish_stream :: "stream_t \<Rightarrow> nat \<Rightarrow> nat list \<Rightarrow> ('p obm, unit) action" where
  "finish_stream stream_id active_handle hs =
     seqE (on_handle active_handle (mark_done stream_id)) (\<lambda>_.
     set_handle_queue stream_id hs)"

definition move_current_buffer_to_handle ::
  "obm_params \<Rightarrow> 'p MemoryPool \<Rightarrow> stream_t \<Rightarrow> u32 \<Rightarrow> bool \<Rightarrow> ('p obm, unit) action" where
  "move_current_buffer_to_handle c ops stream_id bytes_written is_last =
     seqE (handle_queue stream_id) (\<lambda>hs.
     seqE (assertE (hs \<noteq> [])) (\<lambda>_.
     seqE (buffer_queue stream_id) (\<lambda>bs.
     seqE (liftE (front_of hs)) (\<lambda>active_handle.
     seqE (liftE (front_of bs)) (\<lambda>active_buffer.
     seqE (assertE (ucast bytes_written \<le> buf_capacity active_buffer)) (\<lambda>_.
     seqE
       (if bytes_written > 0
        then deliver_front ops stream_id active_handle active_buffer (tl bs) bytes_written
        else if empty_stream_consumes_buffer (obm_mem_config c)
        then recycle_front ops stream_id active_buffer (tl bs)
        else ret ()) (\<lambda>_.
     if is_last then finish_stream stream_id active_handle (tl hs) else ret ())))))))"

definition enqueue_buffer_for_stream ::
  "obm_params \<Rightarrow> 'p MemoryPool \<Rightarrow> stream_t \<Rightarrow> ('p obm, unit) action" where
  "enqueue_buffer_for_stream c ops stream_id =
     seqE (on_pool (pool_allocate_default ops (BUFFER_CAPACITY c) nullptr)) (\<lambda>(res, p).
     if \<not> status_ok res
     then throw (RuntimeError (''OutputBufferManager::enqueue_buffer_for_stream could not allocate a '' @
       show_word (BUFFER_CAPACITY c) @ '' byte output buffer: '' @ message res))
     else
       let buffer = \<lparr>buf_ptr = p, buf_size = 0, buf_capacity = BUFFER_CAPACITY c\<rparr> in
       seqE (ensure_tlb_mapping ops p (BUFFER_CAPACITY c)) (\<lambda>_.
       seqE (push_enqueued_buffer stream_id buffer) (\<lambda>_.
       on_cthread (enqueue_buffer (obm_mem_config c) stream_id buffer))))"


text \<open>
  Each pass of the loop of \<open>ensure_stream_has_buffers\<close> adds a buffer to the queue of the stream or
  throws, which is why the loop ends.
\<close>

lemma obm_more_eq:
  assumes "host.more s = host.more (t :: 'p obm)"
  shows "enqueued_buffers s = enqueued_buffers t" and "enqueued_handles s = enqueued_handles t"
    and "handles s = handles t"
  using assms by (cases s; cases t; simp)+

lemma enqueue_buffer_for_stream_grows:
  assumes "enqueue_buffer_for_stream c ops stream_id s = (Inr u, s')"
  shows "length (enqueued_buffers s' ! unat stream_id) = Suc (length (enqueued_buffers s ! unat stream_id))"
proof -
  define Q where "Q = (\<lambda>(_ :: unit) (t :: 'a obm).
    length (enqueued_buffers t ! unat stream_id) = Suc (length (enqueued_buffers s ! unat stream_id)))"
  have tlb: "wp (ensure_tlb_mapping ops p n) (\<lambda>_ t. enqueued_buffers t = enqueued_buffers h)
      (\<lambda>_ _. True) h" for p n and h :: "'a obm"
    by (rule wpI) (auto dest!: ensure_tlb_mapping_frame dest: obm_more_eq)
  have enq: "wp (enqueue_buffer mc sid b) (\<lambda>_ _. True) (\<lambda>_ _. True) cs" for mc sid b cs
    by (rule wpI) auto
  have "wp (enqueue_buffer_for_stream c ops stream_id) Q (\<lambda>_ _. True) s"
    unfolding enqueue_buffer_for_stream_def wp_seqE wp_on_pool
    apply (rule wpI)
     apply (clarsimp simp: wp_simps Let_def)
     apply (rule wp_mono [OF tlb])
      apply (auto simp: push_enqueued_buffer_def buffer_queue_def set_buffer_queue_def vec_at_def
        wp_simps Q_def intro!: wp_mono [OF enq])
    done
  then show ?thesis using assms by (auto simp: Q_def dest: wpD_Inr)
qed

function ensure_stream_has_buffers ::
  "obm_params \<Rightarrow> 'p MemoryPool \<Rightarrow> stream_t \<Rightarrow> ('p obm, unit) action" where
  "ensure_stream_has_buffers c ops stream_id s =
     (case buffer_queue stream_id s of
        (Inl e, s) \<Rightarrow> (Inl e, s)
      | (Inr q, s) \<Rightarrow>
          if length q < unat (NUM_BUFFERS_TO_ENQUEUE c) then
            (case enqueue_buffer_for_stream c ops stream_id s of
               (Inl e, s') \<Rightarrow> (Inl e, s')
             | (Inr _, s') \<Rightarrow> ensure_stream_has_buffers c ops stream_id s')
          else (Inr (), s))"
  by pat_completeness auto
termination
proof (relation "measure (\<lambda>(c, ops, stream_id, s).
    unat (NUM_BUFFERS_TO_ENQUEUE c) - length (enqueued_buffers s ! unat stream_id))", goal_cases)
  case 1
  show ?case by simp
next
  case (2 c ops stream_id s r s1 q r' s' u)
  then show ?case
    by (auto simp: buffer_queue_def vec_at_def method_defs split: if_splits
        dest!: enqueue_buffer_for_stream_grows [OF sym])
qed

declare ensure_stream_has_buffers.simps [simp del]

section \<open>Public methods\<close>

definition handle_fpga_interrupt ::
  "obm_params \<Rightarrow> 'p MemoryPool \<Rightarrow> u32 \<Rightarrow> ('p obm, unit) action" where
  "handle_fpga_interrupt c ops coyote_value =
     seqE (liftE (parse_interrupt_value coyote_value)) (\<lambda>parsed.
     seqE (assertE (iv_stream_id parsed < NUM_STREAMS c)) (\<lambda>_.
     seqE (move_current_buffer_to_handle c ops (iv_stream_id parsed) (iv_bytes_written parsed)
             (iv_last parsed)) (\<lambda>_.
     seqE (liftE (mask_test (MANAGED_STREAMS c) (unat (iv_stream_id parsed)))) (\<lambda>managed.
     if managed then ensure_stream_has_buffers c ops (iv_stream_id parsed) else ret ()))))"

fun acquire_streams ::
  "obm_params \<Rightarrow> 'p MemoryPool \<Rightarrow> stream_mask_t \<Rightarrow> nat \<Rightarrow> nat list \<Rightarrow> ('p obm, unit) action" where
  "acquire_streams c ops active_mask r [] = ret ()"
| "acquire_streams c ops active_mask r (i # is) =
     seqE (liftE (mask_test active_mask i)) (\<lambda>active.
     seqE
       (if active then
          seqE (ensure_stream_has_buffers c ops (of_nat i)) (\<lambda>_. push_handle (of_nat i) r)
        else ret ()) (\<lambda>_.
     acquire_streams c ops active_mask r is))"

definition acquire_output_handle ::
  "obm_params \<Rightarrow> 'p MemoryPool \<Rightarrow> stream_mask_t \<Rightarrow> ('p obm, nat) action" where
  "acquire_output_handle c ops active_mask =
     seqE (assertE (active_mask \<noteq> 0 \<and> drop_bit (unat (NUM_STREAMS c)) active_mask = 0)) (\<lambda>_.
     seqE (assertE (active_mask AND NOT (MANAGED_STREAMS c) = 0)) (\<lambda>_.
     seqE (new_handle c active_mask) (\<lambda>r.
     seqE (acquire_streams c ops active_mask r [0 ..< unat (NUM_STREAMS c)]) (\<lambda>_.
     ret r))))"

text \<open>The capacity of the buffer for a chunk: the next multiple of the transfer size.\<close>

definition chunk_of :: "u64 \<Rightarrow> u64" where
  "chunk_of remaining = min remaining (ucast MAXIMUM_OUTPUT_WRITER_BUFFER_SIZE)"

definition chunk_capacity :: "u64 \<Rightarrow> u64" where
  "chunk_capacity chunk =
     (chunk + ucast BYTES_PER_FPGA_TRANSFER - 1) div ucast BYTES_PER_FPGA_TRANSFER *
       ucast BYTES_PER_FPGA_TRANSFER"

text \<open>The body of the loop over the chunks.\<close>

definition enqueue_chunk ::
  "obm_params \<Rightarrow> 'p MemoryPool \<Rightarrow> stream_t \<Rightarrow> nat \<Rightarrow> u64 \<Rightarrow> ('p obm, unit) action" where
  "enqueue_chunk c ops stream r chunk =
     (let capacity = chunk_capacity chunk in
      seqE (on_pool (pool_allocate_default ops capacity nullptr)) (\<lambda>(res, p).
      if \<not> status_ok res
      then throw (RuntimeError (''OutputBufferManager::acquire_output_handle could not allocate a '' @
        show_word capacity @ '' byte output buffer: '' @ message res))
      else
        let buffer = \<lparr>buf_ptr = p, buf_size = 0, buf_capacity = capacity\<rparr> in
        seqE (ensure_tlb_mapping ops p capacity) (\<lambda>_.
        seqE (push_enqueued_buffer stream buffer) (\<lambda>_.
        seqE (push_handle stream r) (\<lambda>_.
        on_cthread (enqueue_buffer (obm_mem_config c) stream buffer))))))"

function acquire_chunks ::
  "obm_params \<Rightarrow> 'p MemoryPool \<Rightarrow> stream_t \<Rightarrow> nat \<Rightarrow> u64 \<Rightarrow> ('p obm, unit) action" where
  "acquire_chunks c ops stream r remaining =
     (if remaining > 0 then
        let chunk = chunk_of remaining in
        seqE (enqueue_chunk c ops stream r chunk) (\<lambda>_.
        acquire_chunks c ops stream r (remaining - chunk))
      else ret ())"
  by pat_completeness auto
termination
proof (relation "measure (\<lambda>(c, ops, stream, r, remaining). unat remaining)", goal_cases)
  case 1
  show ?case by simp
next
  case (2 c ops stream r remaining chunk)
  then have "0 < chunk_of remaining" "chunk_of remaining \<le> remaining"
    by (auto simp: chunk_of_def min_def stf_consts)
  then show ?case
    using 2 by (simp add: unat_sub word_less_nat_alt word_le_nat_alt)
qed

declare acquire_chunks.simps [simp del]

definition acquire_output_handle_sized ::
  "obm_params \<Rightarrow> 'p MemoryPool \<Rightarrow> stream_t \<Rightarrow> u64 \<Rightarrow> ('p obm, nat) action" where
  "acquire_output_handle_sized c ops stream sz =
     seqE (assertE (stream < NUM_STREAMS c)) (\<lambda>_.
     seqE (liftE (mask_test (MANAGED_STREAMS c) (unat stream))) (\<lambda>managed.
     seqE (assertE (\<not> managed)) (\<lambda>_.
     seqE (assertE (sz > 0)) (\<lambda>_.
     seqE (liftE (mask_set 0 (unat stream))) (\<lambda>active_mask.
     seqE (new_handle c active_mask) (\<lambda>r.
     seqE (acquire_chunks c ops stream r sz) (\<lambda>_.
     ret r)))))))"

definition obm_flush_buffers :: "obm_params \<Rightarrow> ('p obm, unit) action" where
  "obm_flush_buffers c = on_cthread (MemConfig_flush_buffers (obm_mem_config c))"

text \<open>The destructor frees what the FPGA has not used.\<close>

definition OutputBufferManager_destroy :: "'p MemoryPool \<Rightarrow> ('p obm, unit) action" where
  "OutputBufferManager_destroy ops =
     seqE (readE enqueued_buffers) (\<lambda>qs.
     seqE (on_pool (free_buffers_in_queue ops (concat qs))) (\<lambda>_.
     modifyE (\<lambda>s. s\<lparr>enqueued_buffers := map (\<lambda>_. []) qs\<rparr>)))"

end
