(* ===== verification/Buffer_Ownership.thy ===== *)
theory Buffer_Ownership
  imports Output_Buffer_Manager
begin

text \<open>
  Who owns a block of the pool. A block that is allocated and not freed is in exactly one place: in
  the queue of buffers enqueued for one stream, in the output of one stream of one handle, or with
  the clients of the library, as one buffer that was taken from a handle or allocated elsewhere.
  The invariant says so as an equation of multisets, and the lemmas show that every
  operation of the manager and of its handles keeps it, whether it returns or throws: no block is
  lost, none is freed twice, none is in two queues.
\<close>

section \<open>The invariant\<close>

definition enq_block :: "Buffer \<Rightarrow> ptr \<times> u64" where
  "enq_block b = (buf_ptr b, buf_capacity b)"

definition out_block :: "Buffer \<Rightarrow> ptr \<times> u64" where
  "out_block b = (buf_ptr b, buf_size b)"

definition queue_blocks :: "(Buffer \<Rightarrow> ptr \<times> u64) \<Rightarrow> Buffer list list \<Rightarrow> (ptr \<times> u64) multiset" where
  "queue_blocks f qs = sum_list (map (\<lambda>q. image_mset f (mset q)) qs)"

definition handle_blocks :: "OutputHandle \<Rightarrow> (ptr \<times> u64) multiset" where
  "handle_blocks h = queue_blocks out_block (oh_output_buffers h)"

text \<open>
  What the manager and the handles hold. The size of an enqueued buffer's block is its capacity,
  that of an output buffer what was written to it, because the block was shrunk to that.
\<close>

definition held_blocks :: "'p obm \<Rightarrow> (ptr \<times> u64) multiset" where
  "held_blocks s =
     queue_blocks enq_block (enqueued_buffers s) + sum_list (map handle_blocks (handles s))"

definition handle_shape :: "stream_t \<Rightarrow> OutputHandle \<Rightarrow> bool" where
  "handle_shape n h \<longleftrightarrow> oh_NUM_STREAMS h = n \<and> length (oh_output_buffers h) = unat n"

definition obm_shape :: "obm_params \<Rightarrow> 'p obm \<Rightarrow> bool" where
  "obm_shape c s \<longleftrightarrow>
     length (enqueued_handles s) = unat (NUM_STREAMS c) \<and>
     length (enqueued_buffers s) = unat (NUM_STREAMS c) \<and>
     (\<forall>q \<in> set (enqueued_handles s). \<forall>r \<in> set q. r < length (handles s)) \<and>
     (\<forall>h \<in> set (handles s). handle_shape (NUM_STREAMS c) h)"

definition obm_inv ::
  "('p \<Rightarrow> bool) \<Rightarrow> ('p \<Rightarrow> ptr \<rightharpoonup> u64) \<Rightarrow> obm_params \<Rightarrow> (ptr \<times> u64) multiset \<Rightarrow> 'p obm \<Rightarrow> bool" where
  "obm_inv pinv live c others s \<longleftrightarrow>
     pinv (host_pool s) \<and> tlb_inv s \<and> obm_shape c s \<and>
     held_blocks s + others = live_blocks (live (host_pool s))"

lemma queue_blocks_empty [simp]: "queue_blocks f (replicate n []) = {#}"
  by (induction n) (simp_all add: queue_blocks_def)

lemma queue_blocks_push:
  "i < length qs \<Longrightarrow> queue_blocks f (qs[i := qs ! i @ [b]]) = add_mset (f b) (queue_blocks f qs)"
  unfolding queue_blocks_def by (subst sum_list_map_update [where d = "{#f b#}"]) simp_all

lemma queue_blocks_pop:
  "i < length qs \<Longrightarrow> qs ! i = b # rest \<Longrightarrow>
   queue_blocks f qs = add_mset (f b) (queue_blocks f (qs[i := rest]))"
  unfolding queue_blocks_def
  by (subst sum_list_map_update_minus [where d = "{#f b#}" and x = rest and i = i]) simp_all

lemma queue_blocks_replace:
  "i < length qs \<Longrightarrow> qs ! i = b # rest \<Longrightarrow>
   add_mset (f b) (queue_blocks f (qs[i := b' # rest])) = add_mset (f b') (queue_blocks f qs)"
  using queue_blocks_pop [of i qs b rest f] queue_blocks_pop [of i "qs[i := b' # rest]" b' rest f]
  by simp

lemma sum_list_handles_update:
  "r < length hs \<Longrightarrow> handle_blocks h = handle_blocks (hs ! r) + d \<Longrightarrow>
   sum_list (map handle_blocks (hs[r := h])) = sum_list (map handle_blocks hs) + d"
  by (rule sum_list_map_update)

lemma finite_dom_ptr [simp]: "finite (dom (m :: ptr \<rightharpoonup> 'v))"
  by (rule finite)

lemma after_maps_obm [simp]:
  "handles (after_maps new s) = handles s"
  "enqueued_handles (after_maps new s) = enqueued_handles s"
  "enqueued_buffers (after_maps new s) = enqueued_buffers s"
  by (simp_all add: after_maps_def)

lemma obm_inv_after_maps:
  assumes "obm_inv pinv live c X s" and "distinct (map fst new)"
    and "fst ` set new \<inter> existing_tlb_mappings s = {}"
  shows "obm_inv pinv live c X (after_maps new s)"
proof -
  have "tlb_inv (after_maps new s)"
    by (rule tlb_inv_maps [of s new]) (use assms in \<open>auto simp: obm_inv_def\<close>)
  then show ?thesis
    using assms(1) by (simp add: obm_inv_def obm_shape_def held_blocks_def)
qed

text \<open>An enqueued or delivered buffer's block is allocated, with the size that is recorded.\<close>

lemma held_live:
  assumes "obm_inv pinv live c X s" and "(q, n) \<in># held_blocks s"
  shows "live (host_pool s) q = Some n"
proof -
  have "(q, n) \<in># held_blocks s + X" using assms(2) by simp
  then have "(q, n) \<in># live_blocks (live (host_pool s))"
    using assms(1) unfolding obm_inv_def by metis
  then show ?thesis by (simp add: live_blocks_mem)
qed

lemma enqueued_in_held:
  assumes "i < length (enqueued_buffers s)" and "enqueued_buffers s ! i = b # rest"
  shows "enq_block b \<in># held_blocks s"
  using queue_blocks_pop [OF assms, of enq_block] by (simp add: held_blocks_def)


lemma in_sum_list_mset: "x \<in># sum_list ms \<longleftrightarrow> (\<exists>m \<in> set ms. x \<in># m)"
  by (induction ms) auto

lemma output_in_held:
  assumes "r < length (handles s)" and "b \<in> set q" "q \<in> set (oh_output_buffers (handles s ! r))"
  shows "out_block b \<in># held_blocks s"
proof -
  have "out_block b \<in># handle_blocks (handles s ! r)"
    using assms(2,3) unfolding handle_blocks_def queue_blocks_def in_sum_list_mset by auto
  then show ?thesis
    using nth_mem [OF assms(1)] by (auto simp: held_blocks_def in_sum_list_mset)
qed

section \<open>Adding a buffer\<close>

text \<open>What stays the same when a buffer is allocated, mapped and put into the queue of a stream.\<close>

definition buffer_added :: "nat \<Rightarrow> Buffer \<Rightarrow> 'p obm \<Rightarrow> 'p obm \<Rightarrow> bool" where
  "buffer_added i b s s' \<longleftrightarrow>
     enqueued_buffers s' = (enqueued_buffers s)[i := enqueued_buffers s ! i @ [b]] \<and>
     enqueued_handles s' = enqueued_handles s \<and> handles s' = handles s \<and>
     (\<exists>new. host_cthread s' = host_cthread s @ user_maps new)"

lemma wp_push_enqueued_buffer [wp_simps]:
  "wp (push_enqueued_buffer stream b) Q E s =
     (if unat stream < length (enqueued_buffers s)
      then Q () (s\<lparr>enqueued_buffers :=
        (enqueued_buffers s)[unat stream := enqueued_buffers s ! unat stream @ [b]]\<rparr>)
      else E UndefinedBehaviour s)"
  by (simp add: push_enqueued_buffer_def buffer_queue_def set_buffer_queue_def vec_at_def wp_simps)

lemma wp_push_handle [wp_simps]:
  "wp (push_handle stream r) Q E s =
     (if unat stream < length (enqueued_handles s)
      then Q () (s\<lparr>enqueued_handles :=
        (enqueued_handles s)[unat stream := enqueued_handles s ! unat stream @ [r]]\<rparr>)
      else E UndefinedBehaviour s)"
  by (simp add: push_handle_def handle_queue_def set_handle_queue_def vec_at_def wp_simps)

lemma wp_ensure_stream_has_buffers_step:
  "wp (ensure_stream_has_buffers c ops stream) Q E s =
     (if unat stream < length (enqueued_buffers s)
      then if length (enqueued_buffers s ! unat stream) < unat (NUM_BUFFERS_TO_ENQUEUE c)
        then wp (enqueue_buffer_for_stream c ops stream)
               (\<lambda>_. wp (ensure_stream_has_buffers c ops stream) Q E) E s
        else Q () s
      else E UndefinedBehaviour s)"
  unfolding wp_def ensure_stream_has_buffers.simps [of c ops stream s]
  by (auto simp: buffer_queue_def vec_at_def method_defs split: sum.splits prod.splits)

lemma obm_inv_cthread:
  assumes "obm_inv pinv live c X s" and "\<And>m. track_mapping k m = m"
    and "\<forall>a n. k \<noteq> UserMap a n" and "\<forall>a. k \<noteq> UserUnmap a"
  shows "obm_inv pinv live c X (s\<lparr>host_cthread := host_cthread s @ [k]\<rparr>)"
  using assms
  by (auto simp: obm_inv_def obm_shape_def held_blocks_def tlb_inv_def mapped_after_append
      disciplined_append split: coyote_call.split)

lemma obm_inv_csr:
  "obm_inv pinv live c X s \<Longrightarrow> obm_inv pinv live c X (s\<lparr>host_cthread := host_cthread s @ [SetCSR v a]\<rparr>)"
  by (rule obm_inv_cthread) auto

text \<open>Taking what the pool did into account: \<open>L\<close> is what the blocks have become.\<close>

lemma obm_inv_pool:
  "obm_inv pinv live c X s \<Longrightarrow> pinv p \<Longrightarrow> live p = live (host_pool s) \<Longrightarrow>
   obm_inv pinv live c X (s\<lparr>host_pool := p\<rparr>)"
  by (simp add: obm_inv_def tlb_inv_def obm_shape_def held_blocks_def)

lemma obm_inv_update_buffers:
  assumes "obm_inv pinv live c X s" and "i < unat (NUM_STREAMS c)" and "pinv p"
    and "queue_blocks enq_block ((enqueued_buffers s)[i := q]) + (held_blocks s + X) =
      queue_blocks enq_block (enqueued_buffers s) + live_blocks (live p)"
  shows "obm_inv pinv live c X
    (s\<lparr>host_pool := p, enqueued_buffers := (enqueued_buffers s)[i := q]\<rparr>)"
proof -
  have "queue_blocks enq_block ((enqueued_buffers s)[i := q]) +
      sum_list (map handle_blocks (handles s)) + X = live_blocks (live p)"
    using assms(4) unfolding held_blocks_def by (simp add: ac_simps)
  then show ?thesis
    using assms by (simp add: obm_inv_def obm_shape_def tlb_inv_def held_blocks_def)
qed

lemma after_maps_buffers:
  "(after_maps new s)\<lparr>enqueued_buffers := qs\<rparr> = after_maps new (s\<lparr>enqueued_buffers := qs\<rparr>)"
  "(s\<lparr>enqueued_buffers := qs, host_pool := p\<rparr>) = s\<lparr>host_pool := p, enqueued_buffers := qs\<rparr>"
  for s :: "'p obm"
  by (rule obm.equality; simp add: after_maps_def)+

text \<open>The state after a new block was mapped and put into the queue of a stream.\<close>

lemma obm_inv_add_buffer:
  assumes inv: "obm_inv pinv live c X s" and i: "i < unat (NUM_STREAMS c)" and p: "pinv p"
    and q: "live (host_pool s) q = None" "live p = (live (host_pool s))(q \<mapsto> cap)"
    and new: "distinct (map fst new)" "fst ` set new \<inter> existing_tlb_mappings s = {}"
    and t: "t = after_maps new (s\<lparr>host_pool := p\<rparr>)"
    and b: "buf_ptr b = q" "buf_capacity b = cap"
    and t': "t' = t\<lparr>enqueued_buffers := (enqueued_buffers t)[i := enqueued_buffers t ! i @ [b]]\<rparr>"
  shows "obm_inv pinv live c X t'" and "buffer_added i b s t'" and "i < length (enqueued_buffers t)"
proof -
  have len: "i < length (enqueued_buffers s)" using inv i by (simp add: obm_inv_def obm_shape_def)
  then show "i < length (enqueued_buffers t)" by (simp add: t)
  have "queue_blocks enq_block ((enqueued_buffers s)[i := enqueued_buffers s ! i @ [b]]) + (held_blocks s + X) =
      queue_blocks enq_block (enqueued_buffers s) + live_blocks (live p)"
    using inv q(1) by (simp add: queue_blocks_push len q(2) live_blocks_add obm_inv_def enq_block_def b)
  from obm_inv_after_maps [OF obm_inv_update_buffers [OF inv i p this], of new] new
  show "obm_inv pinv live c X t'" unfolding t' t by (simp add: after_maps_buffers)
  show "buffer_added i b s t'" unfolding t' t by (auto simp: buffer_added_def)
qed

context memory_pool
begin

lemma wp_add_buffer:
  assumes inv: "obm_inv pool_inv live c X s" and i: "stream < NUM_STREAMS c"
    and cap: "0 < cap" "unat cap \<le> max_request"
    and failed: "\<And>e s'. obm_inv pool_inv live c X s' \<Longrightarrow> host.more s' = host.more s \<Longrightarrow> E e s'"
    and rest: "\<And>p s'. obm_inv pool_inv live c X s' \<Longrightarrow>
      buffer_added (unat stream) \<lparr>buf_ptr = p, buf_size = 0, buf_capacity = cap\<rparr> s s' \<Longrightarrow>
      wp (rest \<lparr>buf_ptr = p, buf_size = 0, buf_capacity = cap\<rparr>) Q E s'"
  shows "wp (seqE (on_pool (pool_allocate_default ops cap nullptr)) (\<lambda>(res, p).
      if \<not> status_ok res then throw (err res)
      else
        let buffer = \<lparr>buf_ptr = p, buf_size = 0, buf_capacity = cap\<rparr> in
        seqE (ensure_tlb_mapping ops p cap) (\<lambda>_.
        seqE (push_enqueued_buffer stream buffer) (\<lambda>_. rest buffer)))) Q E s"
proof -
  have pinv: "pool_inv (host_pool s)" using inv by (simp add: obm_inv_def)
  have i': "unat stream < unat (NUM_STREAMS c)"
    using i by (simp add: word_less_nat_alt)
  show ?thesis
    unfolding wp_seqE wp_on_pool pool_allocate_default_def DEFAULT_ALIGNMENT_def
  proof (rule wp_mono [OF allocate_law [OF pinv cap valid_alignment_64]], goal_cases)
    case (1 r p1)
    obtain st q where r: "r = (st, q)" by (cases r)
    show ?case
    proof (cases "status_ok st")
      case False
      with 1 r have "pool_inv p1" "live p1 = live (host_pool s)" by auto
      then show ?thesis
        using False r by (simp add: wp_simps failed obm_inv_pool [OF inv])
    next
      case True
      with 1 r have p1: "pool_inv p1" and fresh: "live (host_pool s) q = None"
        and upd: "live p1 = (live (host_pool s))(q \<mapsto> cap)" by auto
      let ?b = "\<lparr>buf_ptr = q, buf_size = 0, buf_capacity = cap\<rparr>"
      let ?s1 = "s\<lparr>host_pool := p1\<rparr>"
      have lv: "live (host_pool ?s1) q = Some cap" using upd by simp
      have pinv1: "pool_inv (host_pool ?s1)" using p1 by simp
      have "wp (ensure_tlb_mapping ops q cap)
          (\<lambda>_. wp (seqE (push_enqueued_buffer stream ?b) (\<lambda>_. rest ?b)) Q E) E ?s1"
      proof (rule wp_mono [OF ensure_tlb_mapping_wp [OF pinv1 lv order_refl cap(1)]], goal_cases)
        case (1 u s2)
        then obtain new where s2: "s2 = after_maps new ?s1" and new: "distinct (map fst new)"
          "fst ` set new \<inter> existing_tlb_mappings s = {}"
          by auto
        note added = obm_inv_add_buffer [OF inv i' p1 fresh upd new s2 _ _ refl, of ?b]
        show ?case using rest [of _ q] added by (simp add: wp_simps)
      qed simp
      then show ?thesis using True r by (simp add: Let_def wp_simps)
    qed
  next
    case (2 e p1)
    then show ?case by (simp add: failed obm_inv_pool [OF inv])
  qed
qed

end

section \<open>Enqueueing buffers\<close>

text \<open>The register the buffers of a stream are written to, and what a sequence of calls wrote there.\<close>

definition stream_csr :: "obm_params \<Rightarrow> stream_t \<Rightarrow> u32" where
  "stream_csr c stream_id = addr_offset (obm_mem_config c) + ucast stream_id"

definition csr_writes :: "u32 \<Rightarrow> cthread \<Rightarrow> u64 list" where
  "csr_writes a cs = concat (map (\<lambda>k. case k of SetCSR v b \<Rightarrow> if b = a then [v] else [] | _ \<Rightarrow> []) cs)"

lemma csr_writes_append [simp]: "csr_writes a (cs @ ds) = csr_writes a cs @ csr_writes a ds"
  by (simp add: csr_writes_def)

lemma csr_writes_simps [simp]:
  "csr_writes a [] = []"
  "csr_writes a (SetCSR v b # cs) = (if b = a then v # csr_writes a cs else csr_writes a cs)"
  by (simp_all add: csr_writes_def)

lemma csr_writes_user_maps [simp]: "csr_writes a (user_maps new) = []"
  by (induction new) (auto simp: csr_writes_def)

lemma ucast_8_32_inject: "(ucast (a :: u8) :: u32) = ucast b \<longleftrightarrow> a = b"
proof
  assume "(ucast a :: u32) = ucast b"
  then have "unat (ucast a :: u32) = unat (ucast b :: u32)" by simp
  moreover have "unat x < 2 ^ 32" for x :: u8
    by (rule less_trans [OF unsigned_less]) simp
  ultimately have "unat a = unat b"
    by (simp add: unsigned_ucast_eq take_bit_nat_eq_self)
  then show "a = b" by (simp add: word_unat_eq_iff)
qed simp

lemma stream_csr_inject [simp]: "stream_csr c a = stream_csr c b \<longleftrightarrow> a = b"
  by (simp add: stream_csr_def ucast_8_32_inject)

text \<open>
  The host's queue of a stream against what was written to its register: the device has taken the
  first \<open>f\<close> writes, and the buffers \<open>pend\<close> of those are still in the host's queue because their
  interrupts have not been handled yet.
\<close>

definition obm_synced ::
  "obm_params \<Rightarrow> (stream_t \<Rightarrow> u64 list) \<Rightarrow> (stream_t \<Rightarrow> nat) \<Rightarrow> 'p obm \<Rightarrow> bool" where
  "obm_synced c pend f s \<longleftrightarrow>
     (\<forall>i < NUM_STREAMS c. f i \<le> length (csr_writes (stream_csr c i) (host_cthread s)) \<and>
        map buffer_register_value (enqueued_buffers s ! unat i) =
          pend i @ drop (f i) (csr_writes (stream_csr c i) (host_cthread s)))"

definition buffers_enqueued :: "obm_params \<Rightarrow> stream_t \<Rightarrow> Buffer list \<Rightarrow> 'p obm \<Rightarrow> 'p obm \<Rightarrow> bool" where
  "buffers_enqueued c i bs s s' \<longleftrightarrow>
     enqueued_buffers s' =
       (enqueued_buffers s)[unat i := enqueued_buffers s ! unat i @ bs] \<and>
     handles s' = handles s \<and>
     (\<forall>b \<in> set bs. unat (buf_ptr b) < 2 ^ 48) \<and>
     (\<forall>a. csr_writes a (host_cthread s') = csr_writes a (host_cthread s) @
        (if a = stream_csr c i then map buffer_register_value bs else []))"

lemma buffers_enqueued_Nil: "buffers_enqueued c i [] s s"
  by (simp add: buffers_enqueued_def)

lemma buffers_enqueued_trans:
  assumes "buffers_enqueued c i bs s t" and "buffers_enqueued c i bs' t u"
    and "unat i < length (enqueued_buffers s)"
  shows "buffers_enqueued c i (bs @ bs') s u"
  using assms by (auto simp: buffers_enqueued_def)

lemma buffers_enqueued_synced:
  assumes "buffers_enqueued c i bs s s'" and "obm_synced c pend f s" and "obm_shape c s"
    and "i < NUM_STREAMS c"
  shows "obm_synced c pend f s'"
proof -
  have "unat i < length (enqueued_buffers s)"
    using assms(3,4) by (simp add: obm_shape_def word_less_nat_alt)
  then show ?thesis
    using assms(1,2)
    by (auto simp: buffers_enqueued_def obm_synced_def nth_list_update word_unat_eq_iff [symmetric])
qed

lemma wp_enqueue_buffer:
  assumes ok: "unat (buf_ptr b) < 2 ^ 48 \<Longrightarrow>
      Q () (cs @ [SetCSR (buffer_register_value b) (addr_offset mc + ucast stream_id)])"
    and failed: "\<And>e. E e cs"
  shows "wp (enqueue_buffer mc stream_id b) Q E cs"
proof -
  have "buf_ptr b < push_bit FPGA_VADDR_BITS 1 \<Longrightarrow> unat (buf_ptr b) < 2 ^ 48"
    by (simp add: word_less_nat_alt stf_consts)
  then show ?thesis
    using ok failed by (simp add: enqueue_buffer_def wp_simps)
qed

context memory_pool
begin

lemma obm_inv_handles_same:
  "obm_inv pool_inv live c X s \<Longrightarrow> pool_inv (host_pool s)"
  by (simp add: obm_inv_def)

lemma enqueue_buffer_for_stream_wp:
  assumes inv: "obm_inv pool_inv live c X s" and i: "stream < NUM_STREAMS c"
    and cap: "0 < BUFFER_CAPACITY c" "unat (BUFFER_CAPACITY c) \<le> max_request"
  shows "wp (enqueue_buffer_for_stream c ops stream)
    (\<lambda>_ s'. obm_inv pool_inv live c X s' \<and>
       enqueued_handles s' = enqueued_handles s \<and>
       (\<exists>p. buffers_enqueued c stream
          [\<lparr>buf_ptr = p, buf_size = 0, buf_capacity = BUFFER_CAPACITY c\<rparr>] s s'))
    (\<lambda>_ s'. obm_inv pool_inv live c X s' \<and> handles s' = handles s) s"
  unfolding enqueue_buffer_for_stream_def
proof (rule wp_add_buffer [OF inv i cap], goal_cases)
  case (1 e s')
  then show ?case using obm_more_eq(3) by blast
next
  case (2 p s')
  show ?case
    unfolding wp_on_cthread
  proof (rule wp_enqueue_buffer, goal_cases)
    case 1
    let ?v = "SetCSR (buffer_register_value \<lparr>buf_ptr = p, buf_size = 0, buf_capacity = BUFFER_CAPACITY c\<rparr>)
        (addr_offset (obm_mem_config c) + ucast stream)"
    show ?case
      using obm_inv_csr [OF 2(1)] 2(2) 1
      by (auto simp: buffers_enqueued_def buffer_added_def stream_csr_def intro!: exI [of _ p])
  next
    case (2 e)
    with \<open>obm_inv _ _ _ _ s'\<close> \<open>buffer_added _ _ _ _\<close> show ?case
      by (simp add: buffer_added_def)
  qed
qed

text \<open>The loop fills the queue up to the configured number of buffers, and leaves a longer one alone.\<close>

lemma ensure_stream_has_buffers_wp:
  assumes "obm_inv pool_inv live c X s" and i: "stream < NUM_STREAMS c"
    and cap: "0 < BUFFER_CAPACITY c" "unat (BUFFER_CAPACITY c) \<le> max_request"
  shows "wp (ensure_stream_has_buffers c ops stream)
    (\<lambda>_ s'. obm_inv pool_inv live c X s' \<and> enqueued_handles s' = enqueued_handles s \<and>
       (\<exists>bs. buffers_enqueued c stream bs s s' \<and>
          (\<forall>b \<in> set bs. buf_capacity b = BUFFER_CAPACITY c) \<and>
          length (enqueued_buffers s' ! unat stream) =
            max (length (enqueued_buffers s ! unat stream)) (unat (NUM_BUFFERS_TO_ENQUEUE c))))
    (\<lambda>_ s'. obm_inv pool_inv live c X s' \<and> handles s' = handles s) s"
  using assms(1)
proof (induction "unat (NUM_BUFFERS_TO_ENQUEUE c) - length (enqueued_buffers s ! unat stream)"
    arbitrary: s rule: less_induct)
  case less
  have len: "unat stream < length (enqueued_buffers s)"
    using less.prems i by (simp add: obm_inv_def obm_shape_def word_less_nat_alt)
  show ?case
  proof (cases "length (enqueued_buffers s ! unat stream) < unat (NUM_BUFFERS_TO_ENQUEUE c)")
    case False
    then show ?thesis
      using less.prems len
      by (auto simp: wp_ensure_stream_has_buffers_step [of c ops stream _ _ s]
          intro!: exI [of _ "[]"] buffers_enqueued_Nil)
  next
    case True
    show ?thesis
      unfolding wp_ensure_stream_has_buffers_step [of c ops stream _ _ s]
      apply (simp only: len True if_True)
    proof (rule wp_mono [OF enqueue_buffer_for_stream_wp [OF less.prems i cap]], goal_cases)
      case (1 u t)
      then obtain b where inv: "obm_inv pool_inv live c X t"
        and hq: "enqueued_handles t = enqueued_handles s"
        and b: "buffers_enqueued c stream [b] s t" "buf_capacity b = BUFFER_CAPACITY c"
        by auto
      have lt: "length (enqueued_buffers t ! unat stream) = Suc (length (enqueued_buffers s ! unat stream))"
        using b(1) len by (simp add: buffers_enqueued_def)
      have dec: "unat (NUM_BUFFERS_TO_ENQUEUE c) - length (enqueued_buffers t ! unat stream)
          < unat (NUM_BUFFERS_TO_ENQUEUE c) - length (enqueued_buffers s ! unat stream)"
        using True lt by simp
      have "handles t = handles s" using b(1) by (simp add: buffers_enqueued_def)
      with less.hyps [OF dec inv] show ?case
        by (elim wp_mono) (use hq b lt True buffers_enqueued_trans [OF b(1) _ len] in
            \<open>fastforce simp: max_def\<close>)+
    qed simp
  qed
qed

end

section \<open>Handling an interrupt\<close>

text \<open>A step that keeps the balance between what is held and what is allocated keeps the invariant.\<close>

lemma obm_inv_balance:
  assumes "obm_inv pinv live c X s" and "obm_shape c s'" and "pinv (host_pool s')"
    and "existing_tlb_mappings s' = existing_tlb_mappings s" and "host_cthread s' = host_cthread s"
    and "live_blocks (live (host_pool s')) + held_blocks s =
      held_blocks s' + live_blocks (live (host_pool s))"
  shows "obm_inv pinv live c X s'"
proof -
  have "held_blocks s + X = live_blocks (live (host_pool s))"
    using assms(1) by (simp add: obm_inv_def)
  with assms(6) have "held_blocks s + (held_blocks s' + X) = held_blocks s + live_blocks (live (host_pool s'))"
    by (simp add: ac_simps)
  then have "held_blocks s' + X = live_blocks (live (host_pool s'))"
    by (simp only: add_left_cancel)
  then show ?thesis
    using assms(1-5) by (simp add: obm_inv_def tlb_inv_def)
qed

lemma obm_shape_queues:
  assumes "obm_shape c s" and "length (enqueued_buffers s') = length (enqueued_buffers s)"
    and "length (enqueued_handles s') = length (enqueued_handles s)"
    and "length (handles s) \<le> length (handles s')"
    and "\<And>q. q \<in> set (enqueued_handles s') \<Longrightarrow> \<exists>q' \<in> set (enqueued_handles s). set q \<subseteq> set q'"
    and "\<And>h. h \<in> set (handles s') \<Longrightarrow> handle_shape (NUM_STREAMS c) h"
  shows "obm_shape c s'"
  using assms unfolding obm_shape_def by (fastforce dest: subsetD)

lemma shape_handle:
  assumes "obm_shape c s" and "stream < NUM_STREAMS c"
    and "enqueued_handles s ! unat stream = r # rest"
  shows "r < length (handles s)" and "handle_shape (NUM_STREAMS c) (handles s ! r)"
    and "unat stream < length (enqueued_handles s)" and "unat stream < length (enqueued_buffers s)"
proof -
  show len: "unat stream < length (enqueued_handles s)" "unat stream < length (enqueued_buffers s)"
    using assms(1,2) by (simp_all add: obm_shape_def word_less_nat_alt)
  have "r # rest \<in> set (enqueued_handles s)"
    using len(1) assms(3) by (metis nth_mem)
  then show r: "r < length (handles s)"
    using assms(1) by (auto simp: obm_shape_def)
  then show "handle_shape (NUM_STREAMS c) (handles s ! r)"
    using assms(1) by (simp add: obm_shape_def)
qed

text \<open>
  What a handled interrupt has done: the front buffer of the stream, holding the bytes written,
  is the newest output of the handle at the front of the stream.
\<close>

definition handle_moved ::
  "stream_t \<Rightarrow> u32 \<Rightarrow> bool \<Rightarrow> ptr \<Rightarrow> Buffer \<Rightarrow> OutputHandle \<Rightarrow> OutputHandle \<Rightarrow> bool" where
  "handle_moved i bytes_written is_last q b h h' \<longleftrightarrow>
     oh_output_buffers h' =
       (if bytes_written > 0
        then (oh_output_buffers h)[unat i := oh_output_buffers h ! unat i @
          [\<lparr>buf_ptr = q, buf_size = ucast bytes_written, buf_capacity = buf_capacity b\<rparr>]]
        else oh_output_buffers h) \<and>
     oh_finished_streams h' =
       (if is_last then set_bit (unat i) (oh_finished_streams h) else oh_finished_streams h) \<and>
     oh_active_streams h' = oh_active_streams h \<and> oh_NUM_STREAMS h' = oh_NUM_STREAMS h \<and>
     oh_callback h' = oh_callback h"

text \<open>
  Where the block of the delivered buffer is: where the pool's \<open>reallocate\<close> says when the buffer is
  shrunk, and where it was when it is full.
\<close>

definition delivered_ptr :: "'p MemoryPool \<Rightarrow> 'p \<Rightarrow> Buffer \<Rightarrow> u32 \<Rightarrow> ptr" where
  "delivered_ptr ops p b bytes_written =
     (if ucast bytes_written < buf_capacity b
      then case fst (pool_reallocate ops (buf_capacity b) (ucast bytes_written) DEFAULT_ALIGNMENT (buf_ptr b) p)
        of Inl _ \<Rightarrow> buf_ptr b | Inr (_, q) \<Rightarrow> q
      else buf_ptr b)"

definition moved_to_handle ::
  "obm_params \<Rightarrow> 'p MemoryPool \<Rightarrow> stream_t \<Rightarrow> u32 \<Rightarrow> bool \<Rightarrow> 'p obm \<Rightarrow> 'p obm \<Rightarrow> bool" where
  "moved_to_handle c ops i bytes_written is_last s s' \<longleftrightarrow>
     (let hq = enqueued_handles s ! unat i; bq = enqueued_buffers s ! unat i in
     hq \<noteq> [] \<and> bq \<noteq> [] \<and> ucast bytes_written \<le> buf_capacity (hd bq) \<and>
     enqueued_handles s' = (enqueued_handles s)[unat i := if is_last then tl hq else hq] \<and>
     enqueued_buffers s' = (enqueued_buffers s)[unat i :=
       if bytes_written > 0 \<or> empty_stream_consumes_buffer (obm_mem_config c) then tl bq else bq] \<and>
     (\<exists>h. handles s' = (handles s)[hd hq := h] \<and>
        handle_moved i bytes_written is_last (delivered_ptr ops (host_pool s) (hd bq) bytes_written)
          (hd bq) (handles s ! hd hq) h) \<and>
     host_cthread s' = host_cthread s)"

lemma wp_on_handle [wp_simps]:
  "wp (on_handle r m) Q E s =
     (if r < length (handles s)
      then wp m (\<lambda>x h. Q x (s\<lparr>handles := (handles s)[r := h]\<rparr>))
                (\<lambda>e h. E e (s\<lparr>handles := (handles s)[r := h]\<rparr>)) (handles s ! r)
      else E UndefinedBehaviour s)"
  by (simp add: on_handle_def wp_def onE_def split: prod.splits sum.splits)

lemma wp_push_buffer [wp_simps]:
  "wp (push_buffer stream b) Q E h =
     (if unat stream < length (oh_output_buffers h)
      then Q () (h\<lparr>oh_output_buffers := (oh_output_buffers h)[unat stream :=
        oh_output_buffers h ! unat stream @ [b]]\<rparr>)
      else E UndefinedBehaviour h)"
  by (simp add: push_buffer_def vec_at_def wp_simps)

lemma wp_set_queues [wp_simps]:
  "wp (set_handle_queue stream q) Q E s =
     Q () (s\<lparr>enqueued_handles := (enqueued_handles s)[unat stream := q]\<rparr>)"
  "wp (set_buffer_queue stream q') Q E s =
     Q () (s\<lparr>enqueued_buffers := (enqueued_buffers s)[unat stream := q']\<rparr>)"
  by (simp_all add: set_handle_queue_def set_buffer_queue_def wp_simps)

lemma handles_update_blocks:
  assumes "r < length hs" and "oh_output_buffers h = oh_output_buffers (hs ! r)"
  shows "sum_list (map handle_blocks (hs[r := h])) = sum_list (map handle_blocks hs)"
  using sum_list_handles_update [OF assms(1), of h "{#}"] assms(2) by (simp add: handle_blocks_def)

lemma obm_inv_handle_unchanged:
  assumes "obm_inv pinv live c X t" and "r < length (handles t)"
    and "oh_output_buffers h = oh_output_buffers (handles t ! r)"
    and "oh_NUM_STREAMS h = oh_NUM_STREAMS (handles t ! r)"
  shows "obm_inv pinv live c X (t\<lparr>handles := (handles t)[r := h]\<rparr>)"
proof (rule obm_inv_balance [OF assms(1)])
  have shape: "obm_shape c t" using assms(1) by (simp add: obm_inv_def)
  then have "handle_shape (NUM_STREAMS c) h"
    using assms(2-4) by (simp add: obm_shape_def handle_shape_def)
  with shape show "obm_shape c (t\<lparr>handles := (handles t)[r := h]\<rparr>)"
    by (auto intro!: obm_shape_queues [OF shape] simp: obm_shape_def
        dest: set_update_subset_insert [THEN subsetD])
qed (use assms(1) in \<open>simp_all add: obm_inv_def held_blocks_def handles_update_blocks assms(2,3)\<close>)

lemma obm_inv_pop_handle:
  assumes "obm_inv pinv live c X t" and "enqueued_handles t ! i = r # hs"
    and "i < length (enqueued_handles t)"
  shows "obm_inv pinv live c X (t\<lparr>enqueued_handles := (enqueued_handles t)[i := hs]\<rparr>)"
proof (rule obm_inv_balance [OF assms(1)])
  have shape: "obm_shape c t" using assms(1) by (simp add: obm_inv_def)
  have "enqueued_handles t ! i \<in> set (enqueued_handles t)"
    using assms(3) by (rule nth_mem)
  then have "\<exists>q' \<in> set (enqueued_handles t). set q \<subseteq> set q'"
    if "q \<in> set ((enqueued_handles t)[i := hs])" for q
    using that assms(2) set_subset_Cons [of hs r]
    by (auto dest!: set_update_subset_insert [THEN subsetD] intro: bexI [of _ "r # hs"])
  with shape show "obm_shape c (t\<lparr>enqueued_handles := (enqueued_handles t)[i := hs]\<rparr>)"
    by (intro obm_shape_queues [OF shape]) (auto simp: obm_shape_def)
qed (use assms(1) in \<open>simp_all add: obm_inv_def held_blocks_def\<close>)

lemma finish_stream_wp:
  assumes inv: "obm_inv pinv live c X t" and mv: "moved_to_handle c ops stream bytes False s t"
    and shape: "obm_shape c s" and i: "stream < NUM_STREAMS c"
    and hs: "enqueued_handles s ! unat stream = r # hs"
  shows "wp (if is_last then finish_stream stream r hs else ret ())
    (\<lambda>_ s'. obm_inv pinv live c X s' \<and> moved_to_handle c ops stream bytes is_last s s')
    (\<lambda>_ s'. obm_inv pinv live c X s') t"
proof (cases is_last)
  case True
  have len: "unat stream < length (enqueued_handles s)" and r: "r < length (handles s)"
    using shape_handle [OF shape i hs] by simp_all
  have ht: "length (handles t) = length (handles s)" "enqueued_handles t = enqueued_handles s"
    using mv list_update_id [of "enqueued_handles s" "unat stream"]
    by (auto simp: moved_to_handle_def Let_def)
  show ?thesis
    apply (simp only: True finish_stream_def wp_seqE wp_on_handle ht r if_True)
  proof (rule wp_mono [OF mark_done_wp], goal_cases)
    case (1 u h)
    let ?t = "t\<lparr>handles := (handles t)[r := h]\<rparr>"
    have "obm_inv pinv live c X ?t"
      by (rule obm_inv_handle_unchanged [OF inv]) (use 1 ht r in auto)
    from obm_inv_pop_handle [OF this, of "unat stream" r hs] len hs ht
    have "obm_inv pinv live c X (?t\<lparr>enqueued_handles := (enqueued_handles t)[unat stream := hs]\<rparr>)"
      by simp
    moreover have moved: "handle_moved stream bytes True
        (delivered_ptr ops (host_pool s) (hd (enqueued_buffers s ! unat stream)) bytes)
        (hd (enqueued_buffers s ! unat stream)) (handles s ! r) h"
      using mv 1 ht r hs by (auto simp: moved_to_handle_def handle_moved_def Let_def)
    have "moved_to_handle c ops stream bytes True s
        (?t\<lparr>enqueued_handles := (enqueued_handles t)[unat stream := hs]\<rparr>)"
      using mv moved ht hs by (auto simp: moved_to_handle_def Let_def intro!: exI [of _ h])
    ultimately show ?case by (simp add: wp_simps)
  next
    case (2 e h)
    then show ?case using obm_inv_handle_unchanged [OF inv, of r h] ht r by simp
  qed
next
  case False
  with inv mv show ?thesis by (simp add: wp_simps)
qed

text \<open>Moving the front buffer, whose block may have moved to \<open>q\<close>, to a handle keeps the balance.\<close>

lemma obm_inv_deliver:
  assumes inv: "obm_inv pinv live c X s" and i: "stream < NUM_STREAMS c"
    and hs: "enqueued_handles s ! unat stream = r # hs"
    and bs: "enqueued_buffers s ! unat stream = b # bs"
    and p: "pinv p" "q = buf_ptr b \<or> live (host_pool s) q = None"
      "live p = ((live (host_pool s))(buf_ptr b := None))(q \<mapsto> n)"
    and h: "oh_output_buffers h = (oh_output_buffers (handles s ! r))[unat stream :=
        oh_output_buffers (handles s ! r) ! unat stream @ [b']]"
      "oh_NUM_STREAMS h = oh_NUM_STREAMS (handles s ! r)"
    and b': "out_block b' = (q, n)"
  shows "obm_inv pinv live c X (s\<lparr>host_pool := p,
      handles := (handles s)[r := h], enqueued_buffers := (enqueued_buffers s)[unat stream := bs]\<rparr>)"
    (is "obm_inv pinv live c X ?s'")
proof (rule obm_inv_balance [OF inv])
  have shape: "obm_shape c s" using inv by (simp add: obm_inv_def)
  note sh = shape_handle [OF shape i hs]
  have out: "unat stream < length (oh_output_buffers (handles s ! r))"
    using sh(2) i by (simp add: handle_shape_def word_less_nat_alt)
  have "handle_shape (NUM_STREAMS c) h"
    using sh(2) h by (simp add: handle_shape_def)
  then show "obm_shape c ?s'"
    using shape by (auto intro!: obm_shape_queues [OF shape] simp: obm_shape_def
        dest: set_update_subset_insert [THEN subsetD])
  have "handle_blocks h = handle_blocks (handles s ! r) + {#(q, n)#}"
    using b' by (simp add: handle_blocks_def h(1) queue_blocks_push [OF out])
  then have hb: "sum_list (map handle_blocks ((handles s)[r := h])) =
      sum_list (map handle_blocks (handles s)) + {#(q, n)#}"
    by (rule sum_list_handles_update [OF sh(1)])
  have qb: "queue_blocks enq_block (enqueued_buffers s) =
      add_mset (enq_block b) (queue_blocks enq_block ((enqueued_buffers s)[unat stream := bs]))"
    by (rule queue_blocks_pop [OF sh(4) bs])
  have lv: "live (host_pool s) (buf_ptr b) = Some (buf_capacity b)"
    using held_live [OF inv, of "buf_ptr b" "buf_capacity b"] enqueued_in_held [OF sh(4) bs]
    by (simp add: enq_block_def)
  let ?m = "(live (host_pool s))(buf_ptr b := None)"
  have "live_blocks (live (host_pool s)) = add_mset (enq_block b) (live_blocks ?m)"
    using lv by (simp add: live_blocks_remove enq_block_def)
  moreover have "live_blocks (?m(q \<mapsto> n)) = add_mset (q, n) (live_blocks ?m)"
    by (rule live_blocks_add) (use p(2) in auto)
  ultimately show "live_blocks (live (host_pool ?s')) + held_blocks s =
      held_blocks ?s' + live_blocks (live (host_pool s))"
    by (simp add: held_blocks_def hb qb p(3))
qed (use inv p(1) in \<open>simp_all add: obm_inv_def\<close>)

lemma obm_inv_free_front:
  assumes inv: "obm_inv pinv live c X s" and i: "unat stream < unat (NUM_STREAMS c)"
    and bs: "enqueued_buffers s ! unat stream = b # bs"
    and p: "pinv p" "live p = (live (host_pool s))(buf_ptr b := None)"
  shows "obm_inv pinv live c X (s\<lparr>host_pool := p,
      enqueued_buffers := (enqueued_buffers s)[unat stream := bs]\<rparr>)"
proof (rule obm_inv_update_buffers [OF inv i p(1)])
  have len: "unat stream < length (enqueued_buffers s)"
    using inv i by (simp add: obm_inv_def obm_shape_def)
  have lv: "live (host_pool s) (buf_ptr b) = Some (buf_capacity b)"
    using held_live [OF inv, of "buf_ptr b" "buf_capacity b"] enqueued_in_held [OF len bs]
    by (simp add: enq_block_def)
  then have "live_blocks (live (host_pool s)) = add_mset (enq_block b) (live_blocks (live p))"
    by (simp add: live_blocks_remove enq_block_def p(2))
  with inv show "queue_blocks enq_block ((enqueued_buffers s)[unat stream := bs]) + (held_blocks s + X) =
      queue_blocks enq_block (enqueued_buffers s) + live_blocks (live p)"
    by (simp add: obm_inv_def queue_blocks_pop [OF len bs])
qed

lemma max_request_u32: "unat (ucast (n :: u32) :: u64) \<le> max_request"
  using unat_32_bound [of n] by (simp add: unat_ucast_32_64 max_request_def)

lemma ucast_pos: "0 < (n :: u32) \<Longrightarrow> 0 < (ucast n :: u64)"
  by (simp add: word_less_nat_alt unat_ucast_32_64)

text \<open>The buffer in the queue and the handle in its stream's queue, for the two ways a buffer moves.\<close>

lemma obm_inv_delivered:
  assumes inv: "obm_inv pinv live c X s" and i: "stream < NUM_STREAMS c"
    and hs: "enqueued_handles s ! unat stream = r # hs"
    and bs: "enqueued_buffers s ! unat stream = b # bs"
    and bytes: "0 < bytes" "ucast bytes \<le> buf_capacity b" "q = delivered_ptr ops (host_pool s) b bytes"
    and p: "pinv p" "q = buf_ptr b \<or> live (host_pool s) q = None"
      "live p = ((live (host_pool s))(buf_ptr b := None))(q \<mapsto> ucast bytes)"
  defines "h \<equiv> (handles s ! r)\<lparr>oh_output_buffers := (oh_output_buffers (handles s ! r))[unat stream :=
      oh_output_buffers (handles s ! r) ! unat stream @ [b\<lparr>buf_ptr := q, buf_size := ucast bytes\<rparr>]]\<rparr>"
  shows "obm_inv pinv live c X (s\<lparr>host_pool := p, handles := (handles s)[r := h],
      enqueued_buffers := (enqueued_buffers s)[unat stream := bs]\<rparr>)"
    "moved_to_handle c ops stream bytes False s (s\<lparr>host_pool := p, handles := (handles s)[r := h],
      enqueued_buffers := (enqueued_buffers s)[unat stream := bs]\<rparr>)"
proof -
  have same: "(enqueued_buffers s)[unat stream := b # bs] = enqueued_buffers s"
    "(enqueued_handles s)[unat stream := r # hs] = enqueued_handles s"
    using bs hs by (metis list_update_id)+
  show "obm_inv pinv live c X (s\<lparr>host_pool := p, handles := (handles s)[r := h],
      enqueued_buffers := (enqueued_buffers s)[unat stream := bs]\<rparr>)"
    by (rule obm_inv_deliver [OF inv i hs bs p, where b' = "b\<lparr>buf_ptr := q, buf_size := ucast bytes\<rparr>"])
      (simp_all add: out_block_def h_def)
  have "handle_moved stream bytes False q b (handles s ! r) h"
    using bytes by (cases b) (auto simp: handle_moved_def h_def)
  then show "moved_to_handle c ops stream bytes False s (s\<lparr>host_pool := p, handles := (handles s)[r := h],
      enqueued_buffers := (enqueued_buffers s)[unat stream := bs]\<rparr>)"
    using hs bs same bytes by (auto simp: moved_to_handle_def Let_def)
qed

text \<open>A report of no bytes moves nothing to the handle; \<open>t\<close> is the state with or without the front buffer.\<close>

lemma moved_nothing:
  assumes "enqueued_handles s ! unat stream = r # hs" and "enqueued_buffers s ! unat stream = b # bs"
    and "t = s\<lparr>host_pool := p, enqueued_buffers := (enqueued_buffers s)[unat stream :=
      if empty_stream_consumes_buffer (obm_mem_config c) then bs else b # bs]\<rparr>"
  shows "moved_to_handle c ops stream 0 False s t"
proof -
  have same: "(enqueued_buffers s)[unat stream := b # bs] = enqueued_buffers s"
    "(enqueued_handles s)[unat stream := r # hs] = enqueued_handles s"
    using assms(1,2) by (metis list_update_id)+
  have "handle_moved stream 0 False q b h h" for q h by (auto simp: handle_moved_def)
  then show ?thesis
    using assms same by (auto simp: moved_to_handle_def Let_def intro!: exI [of _ "handles s ! r"])
qed

context memory_pool
begin

lemma deliver_wp:
  assumes inv: "obm_inv pool_inv live c X s" and i: "stream < NUM_STREAMS c"
    and hs: "enqueued_handles s ! unat stream = r # hs"
    and bs: "enqueued_buffers s ! unat stream = b # bs"
    and pos: "0 < bytes" and fits: "ucast bytes \<le> buf_capacity b"
  shows "wp (deliver_front ops stream r b bs bytes)
    (\<lambda>_ s'. obm_inv pool_inv live c X s' \<and> moved_to_handle c ops stream bytes False s s')
    (\<lambda>_ s'. obm_inv pool_inv live c X s') s"
proof -
  have shape: "obm_shape c s" and pinv: "pool_inv (host_pool s)"
    using inv by (simp_all add: obm_inv_def)
  note sh = shape_handle [OF shape i hs] and moved = obm_inv_delivered [OF inv i hs bs pos fits]
  have out: "unat stream < length (oh_output_buffers (handles s ! r))"
    using sh(2) i by (simp add: handle_shape_def word_less_nat_alt)
  have lv: "live (host_pool s) (buf_ptr b) = Some (buf_capacity b)"
    using held_live [OF inv, of "buf_ptr b" "buf_capacity b"] enqueued_in_held [OF sh(4) bs]
    by (simp add: enq_block_def)
  have same: "(enqueued_buffers s)[unat stream := b # bs] = enqueued_buffers s" using bs by (metis list_update_id)
  show ?thesis
  proof (cases "ucast bytes < buf_capacity b")
    case False
    then have full: "ucast bytes = buf_capacity b" and ptr: "buf_ptr b = delivered_ptr ops (host_pool s) b bytes"
      using fits by (simp_all add: delivered_ptr_def)
    from moved [OF ptr, of "host_pool s"] full pinv lv sh out show ?thesis
      by (simp add: deliver_front_def wp_simps Let_def fun_upd_idem)
  next
    case True
    note law = reallocate_law [OF pinv lv ucast_pos [OF pos] max_request_u32 valid_alignment_64]
    show ?thesis
      unfolding deliver_front_def if_P [OF True] wp_seqE wp_on_pool DEFAULT_ALIGNMENT_def
    proof (rule wp_mono [OF wp_result [OF law]], goal_cases)
      case (1 x p)
      obtain st q where x: "x = (st, q)" by (cases x)
      then have ptr: "q = delivered_ptr ops (host_pool s) b bytes"
        using 1 True by (simp add: delivered_ptr_def DEFAULT_ALIGNMENT_def)
      show ?case
      proof (cases "status_ok st")
        case False
        with 1 x have "q = buf_ptr b" "pool_inv p" "live p = live (host_pool s)" by auto
        with obm_inv_pool [OF inv] False x same show ?thesis by (simp add: wp_simps)
      next
        case ok: True
        from ok 1 x moved [OF ptr, of p] sh out show ?thesis by (simp add: wp_simps Let_def)
      qed
    qed (simp add: obm_inv_pool [OF inv])
  qed
qed

lemma recycle_wp:
  assumes inv: "obm_inv pool_inv live c X s" and i: "stream < NUM_STREAMS c"
    and hs: "enqueued_handles s ! unat stream = r # hs"
    and bs: "enqueued_buffers s ! unat stream = b # bs"
  shows "wp (if empty_stream_consumes_buffer (obm_mem_config c) then recycle_front ops stream b bs else ret ())
    (\<lambda>_ s'. obm_inv pool_inv live c X s' \<and> moved_to_handle c ops stream 0 False s s')
    (\<lambda>_ s'. obm_inv pool_inv live c X s') s"
proof -
  have shape: "obm_shape c s" and pinv: "pool_inv (host_pool s)" and i': "unat stream < unat (NUM_STREAMS c)"
    using inv i by (simp_all add: obm_inv_def word_less_nat_alt)
  have lv: "live (host_pool s) (buf_ptr b) = Some (buf_capacity b)"
    using held_live [OF inv, of "buf_ptr b" "buf_capacity b"] enqueued_in_held [OF shape_handle(4) [OF shape i hs] bs]
    by (simp add: enq_block_def)
  have same: "(enqueued_buffers s)[unat stream := b # bs] = enqueued_buffers s" using bs by (metis list_update_id)
  show ?thesis
  proof (cases "empty_stream_consumes_buffer (obm_mem_config c)")
    case True
    show ?thesis
      unfolding if_P [OF True] recycle_front_def wp_seqE wp_on_pool
    proof (rule wp_mono [OF free_law [OF pinv lv]], goal_cases)
      case (1 u p)
      have "obm_inv pool_inv live c X (s\<lparr>host_pool := p, enqueued_buffers := (enqueued_buffers s)[unat stream := bs]\<rparr>)"
        by (rule obm_inv_free_front [OF inv i' bs]) (use 1 in auto)
      with moved_nothing [OF hs bs refl, of c ops p] True show ?case by (simp add: wp_set_queues)
    qed (simp add: obm_inv_pool [OF inv])
  next
    case False
    with inv moved_nothing [OF hs bs, of s c "host_pool s" ops] same show ?thesis by (simp add: wp_ret)
  qed
qed

lemma move_current_buffer_wp:
  assumes inv: "obm_inv pool_inv live c X s" and i: "stream < NUM_STREAMS c"
  shows "wp (move_current_buffer_to_handle c ops stream bytes is_last)
    (\<lambda>_ s'. obm_inv pool_inv live c X s' \<and> moved_to_handle c ops stream bytes is_last s s')
    (\<lambda>_ s'. obm_inv pool_inv live c X s') s"
proof -
  have shape: "obm_shape c s" using inv by (simp add: obm_inv_def)
  then have len: "unat stream < length (enqueued_handles s)" "unat stream < length (enqueued_buffers s)"
    using i by (simp_all add: obm_shape_def word_less_nat_alt)
  note defs = move_current_buffer_to_handle_def handle_queue_def buffer_queue_def vec_at_def front_of_def
  consider "enqueued_handles s ! unat stream = []" | "enqueued_buffers s ! unat stream = []"
    | r hs b bs where "enqueued_handles s ! unat stream = r # hs" "enqueued_buffers s ! unat stream = b # bs"
    by (meson neq_Nil_conv)
  then show ?thesis
  proof cases
    case (3 r hs b bs)
    show ?thesis
    proof (cases "ucast bytes \<le> buf_capacity b")
      case fits: True
      have first: "wp (if bytes > 0 then deliver_front ops stream r b bs bytes
          else if empty_stream_consumes_buffer (obm_mem_config c) then recycle_front ops stream b bs else ret ())
        (\<lambda>_ s'. obm_inv pool_inv live c X s' \<and> moved_to_handle c ops stream bytes False s s')
        (\<lambda>_ s'. obm_inv pool_inv live c X s') s"
        using deliver_wp [OF inv i 3 _ fits] recycle_wp [OF inv i 3] by (simp add: word_gt_0)
      have move: "wp (move_current_buffer_to_handle c ops stream bytes is_last) Q E s =
          wp (if bytes > 0 then deliver_front ops stream r b bs bytes
            else if empty_stream_consumes_buffer (obm_mem_config c) then recycle_front ops stream b bs
            else ret ())
            (\<lambda>_. wp (if is_last then finish_stream stream r hs else ret ()) Q E) E s" for Q E
        unfolding move_current_buffer_to_handle_def handle_queue_def buffer_queue_def
        by (simp only: wp_seqE wp_readE wp_liftE vec_at_def len if_True 3 fits wp_assertE front_of_def
            list.case sum.case list.distinct not_False_eq_True list.sel simp_thms)
      show ?thesis
        unfolding move
        by (rule wp_mono [OF first]) (use finish_stream_wp [OF _ _ shape i 3(1)] in blast)+
    qed (use inv len 3 in \<open>simp add: defs wp_simps\<close>)
  qed (use inv len in \<open>simp_all add: defs wp_simps split: list.split\<close>)
qed

text \<open>A whole interrupt: the front buffer moves, and a managed stream gets new buffers.\<close>

lemma handle_fpga_interrupt_wp:
  assumes inv: "obm_inv pool_inv live c X s"
    and cap: "0 < BUFFER_CAPACITY c" "unat (BUFFER_CAPACITY c) \<le> max_request"
  shows "wp (handle_fpga_interrupt c ops val)
    (\<lambda>_ s'. obm_inv pool_inv live c X s' \<and>
       (\<exists>v t bs. parse_interrupt_value val = Inr v \<and> iv_stream_id v < NUM_STREAMS c \<and>
          moved_to_handle c ops (iv_stream_id v) (iv_bytes_written v) (iv_last v) s t \<and> obm_shape c t \<and>
          enqueued_handles s' = enqueued_handles t \<and>
          buffers_enqueued c (iv_stream_id v) bs t s' \<and>
          (\<forall>b \<in> set bs. buf_capacity b = BUFFER_CAPACITY c) \<and>
          length (enqueued_buffers s' ! unat (iv_stream_id v)) =
            (if bit (MANAGED_STREAMS c) (unat (iv_stream_id v))
             then max (length (enqueued_buffers t ! unat (iv_stream_id v))) (unat (NUM_BUFFERS_TO_ENQUEUE c))
             else length (enqueued_buffers t ! unat (iv_stream_id v))) \<and>
          (bit (MANAGED_STREAMS c) (unat (iv_stream_id v)) \<or> bs = [])))
    (\<lambda>_ s'. obm_inv pool_inv live c X s') s"
proof (cases "parse_interrupt_value val")
  case (Inl e)
  with inv show ?thesis by (simp add: handle_fpga_interrupt_def wp_simps)
next
  case (Inr v)
  show ?thesis
  proof (cases "iv_stream_id v < NUM_STREAMS c")
    case False
    with inv Inr show ?thesis by (simp add: handle_fpga_interrupt_def wp_simps)
  next
    case True
    show ?thesis
      unfolding handle_fpga_interrupt_def wp_seqE wp_liftE wp_assertE Inr sum.case
      apply (simp only: True if_True)
    proof (rule wp_mono [OF move_current_buffer_wp [OF inv True]], goal_cases)
      case (1 u t)
      then have t: "obm_inv pool_inv live c X t" "obm_shape c t"
        and mv: "moved_to_handle c ops (iv_stream_id v) (iv_bytes_written v) (iv_last v) s t"
        by (simp_all add: obm_inv_def)
      show ?case
      proof (cases "mask_test (MANAGED_STREAMS c) (unat (iv_stream_id v))")
        case (Inl e)
        with t show ?thesis by simp
      next
        case managed: (Inr m)
        then have m: "m = bit (MANAGED_STREAMS c) (unat (iv_stream_id v))"
          by (simp add: mask_test_def split: if_splits)
        show ?thesis
        proof (cases m)
          case False
          with t mv managed m True show ?thesis
            by (auto simp: wp_ret Inr intro!: exI [of _ t] exI [of _ "[]"] buffers_enqueued_Nil)
        next
          case True
          then show ?thesis
            using t mv m managed
            by (auto intro!: wp_mono [OF ensure_stream_has_buffers_wp [OF t(1) \<open>iv_stream_id v < _\<close> cap]]
                simp: Inr \<open>iv_stream_id v < _\<close>)
        qed
      qed
    qed simp
  qed
qed

end

text \<open>The block that was delivered is allocated, with the bytes that were reported.\<close>

lemma delivered_live:
  assumes inv: "obm_inv pinv live c X s'" and shape: "obm_shape c s" and i: "i < NUM_STREAMS c"
    and mv: "moved_to_handle c ops i n l s t" and bs: "buffers_enqueued c i bs t s'" and n: "0 < n"
  shows "live (host_pool s') (delivered_ptr ops (host_pool s) (hd (enqueued_buffers s ! unat i)) n) = Some (ucast n)"
proof -
  let ?b = "hd (enqueued_buffers s ! unat i)"
  let ?q = "delivered_ptr ops (host_pool s) ?b n"
  obtain r hs where r: "enqueued_handles s ! unat i = r # hs"
    using mv by (cases "enqueued_handles s ! unat i") (auto simp: moved_to_handle_def)
  note sh = shape_handle [OF shape i r]
  have out: "unat i < length (oh_output_buffers (handles s ! r))"
    using sh(2) i by (simp add: handle_shape_def word_less_nat_alt)
  let ?out = "\<lparr>buf_ptr = ?q, buf_size = ucast n, buf_capacity = buf_capacity ?b\<rparr>"
  have "oh_output_buffers (handles s' ! r) = (oh_output_buffers (handles s ! r))[unat i :=
      oh_output_buffers (handles s ! r) ! unat i @ [?out]]" "r < length (handles s')"
    using mv bs n sh(1) by (auto simp: moved_to_handle_def Let_def r buffers_enqueued_def handle_moved_def)
  then have "out_block ?out \<in># held_blocks s'"
    using out by (intro output_in_held [of r _ _ "oh_output_buffers (handles s ! r) ! unat i @ [?out]"])
      (auto intro: set_update_memI)
  then show ?thesis by (intro held_live [OF inv]) (simp add: out_block_def)
qed

end
