(* ===== verification/Acquire.thy ===== *)
theory Acquire
  imports Buffer_Ownership
begin

text \<open>
  Both ways to get an output handle. Acquiring one for a set of managed streams puts it behind the
  handles of each of them and fills their queues of buffers; acquiring one for a transfer of a known
  size cuts the transfer into the largest buffers the hardware takes. The lemmas give the state
  both leave and show that the ownership invariant survives, on the exceptions too.
\<close>

section \<open>A new handle\<close>

lemma OutputHandle_init_simps [simp]:
  "oh_NUM_STREAMS (OutputHandle_init m n) = n"
  "oh_active_streams (OutputHandle_init m n) = m"
  "oh_finished_streams (OutputHandle_init m n) = 0"
  "oh_output_buffers (OutputHandle_init m n) = replicate (unat n) []"
  by (simp_all add: OutputHandle_init_def)

lemma obm_inv_new_handle:
  assumes "obm_inv pinv live c X s"
  shows "obm_inv pinv live c X (s\<lparr>handles := handles s @ [OutputHandle_init m (NUM_STREAMS c)]\<rparr>)"
proof (rule obm_inv_balance [OF assms])
  show "obm_shape c (s\<lparr>handles := handles s @ [OutputHandle_init m (NUM_STREAMS c)]\<rparr>)"
    using assms by (auto simp: obm_inv_def obm_shape_def handle_shape_def less_Suc_eq)
qed (use assms in \<open>simp_all add: obm_inv_def held_blocks_def handle_blocks_def\<close>)

lemma obm_inv_push_handle:
  assumes "obm_inv pinv live c X s" and "r < length (handles s)" and "i < length (enqueued_handles s)"
  shows "obm_inv pinv live c X
    (s\<lparr>enqueued_handles := (enqueued_handles s)[i := enqueued_handles s ! i @ [r]]\<rparr>)"
proof (rule obm_inv_balance [OF assms(1)])
  have "enqueued_handles s ! i \<in> set (enqueued_handles s)"
    using assms(3) by (rule nth_mem)
  then have "\<forall>x \<in> set (enqueued_handles s ! i). x < length (handles s)"
    using assms(1) by (simp add: obm_inv_def obm_shape_def)
  with assms show "obm_shape c
      (s\<lparr>enqueued_handles := (enqueued_handles s)[i := enqueued_handles s ! i @ [r]]\<rparr>)"
    by (auto simp: obm_inv_def obm_shape_def dest!: set_update_subset_insert [THEN subsetD])
qed (use assms(1) in \<open>simp_all add: obm_inv_def held_blocks_def\<close>)

section \<open>Managed streams\<close>

text \<open>
  The state after the streams \<open>is\<close> have been given the handle \<open>r\<close>: each active one has it at the
  back of its queue and as many buffers as configured; nothing else has changed but what was
  written to the registers of the active streams.
\<close>

definition streams_acquired ::
  "obm_params \<Rightarrow> stream_mask_t \<Rightarrow> nat \<Rightarrow> nat set \<Rightarrow> 'p obm \<Rightarrow> 'p obm \<Rightarrow> bool" where
  "streams_acquired c m r I s s' \<longleftrightarrow>
     handles s' = handles s \<and> obm_shape c s' \<and>
     (\<forall>i < unat (NUM_STREAMS c).
        if i \<in> I \<and> bit m i
        then enqueued_handles s' ! i = enqueued_handles s ! i @ [r] \<and>
          length (enqueued_buffers s' ! i) =
            max (length (enqueued_buffers s ! i)) (unat (NUM_BUFFERS_TO_ENQUEUE c)) \<and>
          (\<exists>bs. enqueued_buffers s' ! i = enqueued_buffers s ! i @ bs \<and>
             (\<forall>b \<in> set bs. buf_capacity b = BUFFER_CAPACITY c \<and> unat (buf_ptr b) < 2 ^ 48))
        else enqueued_handles s' ! i = enqueued_handles s ! i \<and>
          enqueued_buffers s' ! i = enqueued_buffers s ! i) \<and>
     (\<forall>pend f. obm_synced c pend f s \<longrightarrow> obm_synced c pend f s')"

lemma streams_acquired_stream:
  assumes "streams_acquired c m r I s t" and "i < unat (NUM_STREAMS c)"
  shows "if i \<in> I \<and> bit m i
    then enqueued_handles t ! i = enqueued_handles s ! i @ [r] \<and>
      length (enqueued_buffers t ! i) =
        max (length (enqueued_buffers s ! i)) (unat (NUM_BUFFERS_TO_ENQUEUE c)) \<and>
      (\<exists>bs. enqueued_buffers t ! i = enqueued_buffers s ! i @ bs \<and>
         (\<forall>b \<in> set bs. buf_capacity b = BUFFER_CAPACITY c))
    else enqueued_handles t ! i = enqueued_handles s ! i \<and>
      enqueued_buffers t ! i = enqueued_buffers s ! i"
proof (cases "i \<in> I \<and> bit m i")
  case True
  with assms obtain bs where "enqueued_handles t ! i = enqueued_handles s ! i @ [r]"
    "length (enqueued_buffers t ! i) =
      max (length (enqueued_buffers s ! i)) (unat (NUM_BUFFERS_TO_ENQUEUE c))"
    "enqueued_buffers t ! i = enqueued_buffers s ! i @ bs"
    "\<forall>b \<in> set bs. buf_capacity b = BUFFER_CAPACITY c"
    unfolding streams_acquired_def by force
  with True show ?thesis by auto
next
  case False
  with assms show ?thesis unfolding streams_acquired_def by presburger
qed

lemma streams_acquired_empty: "obm_shape c s \<Longrightarrow> streams_acquired c m r {} s s"
  by (simp add: streams_acquired_def)

text \<open>One more stream.\<close>

lemma streams_acquired_step:
  assumes acq: "streams_acquired c m r I s t" and i: "i < unat (NUM_STREAMS c)" "i \<notin> I" "bit m i"
    and bs: "buffers_enqueued c (of_nat i) bs t u" "\<forall>b \<in> set bs. buf_capacity b = BUFFER_CAPACITY c"
      "enqueued_handles u = enqueued_handles t"
    and len: "length (enqueued_buffers u ! i) =
      max (length (enqueued_buffers t ! i)) (unat (NUM_BUFFERS_TO_ENQUEUE c))"
    and u': "u' = u\<lparr>enqueued_handles := (enqueued_handles u)[i := enqueued_handles u ! i @ [r]]\<rparr>"
    and shape: "obm_shape c u'"
  shows "streams_acquired c m r (insert i I) s u'"
proof -
  have ui: "unat (of_nat i :: stream_t) = i"
    using i(1) by (rule unat_of_nat_below)
  then have ilt: "(of_nat i :: stream_t) < NUM_STREAMS c"
    using i by (simp add: word_less_nat_alt)
  have t: "obm_shape c t" using acq by (simp add: streams_acquired_def)
  have same: "obm_synced c pend f u' \<longleftrightarrow> obm_synced c pend f u" for pend f
    by (simp add: obm_synced_def u')
  have st: "obm_synced c pend f t" if "obm_synced c pend f s" for pend f
    using acq that by (simp add: streams_acquired_def)
  have sync: "obm_synced c pend f u'" if "obm_synced c pend f s" for pend f
    unfolding same by (rule buffers_enqueued_synced [OF bs(1) st [OF that] t ilt])
  have "i < length (enqueued_handles t)" "i < length (enqueued_buffers t)"
    using t i by (simp_all add: obm_shape_def)
  with sync show ?thesis
    using acq i bs len shape ui
    by (auto simp: streams_acquired_def buffers_enqueued_def u' nth_list_update)
qed

context memory_pool
begin

lemma acquire_stream_wp:
  assumes cap: "0 < BUFFER_CAPACITY c" "unat (BUFFER_CAPACITY c) \<le> max_request"
    and inv: "obm_inv pool_inv live c X t" and acq: "streams_acquired c m r I s t" and r: "r < length (handles s)"
    and i: "i < unat (NUM_STREAMS c)" "i \<notin> I" "bit m i"
  shows "wp (seqE (ensure_stream_has_buffers c ops (of_nat i)) (\<lambda>_. push_handle (of_nat i) r))
    (\<lambda>_ s'. obm_inv pool_inv live c X s' \<and> streams_acquired c m r (insert i I) s s')
    (\<lambda>_ s'. obm_inv pool_inv live c X s' \<and> handles s' = handles s) t"
proof -
  have ui: "unat (of_nat i :: stream_t) = i"
    using i(1) by (rule unat_of_nat_below)
  then have ilt: "(of_nat i :: stream_t) < NUM_STREAMS c"
    using i by (simp add: word_less_nat_alt)
  have ht: "handles t = handles s" using acq by (simp add: streams_acquired_def)
  show ?thesis
    unfolding wp_seqE
  proof (rule wp_mono [OF ensure_stream_has_buffers_wp [OF inv ilt cap]], goal_cases)
    case (1 x u)
    then obtain bs where bs: "buffers_enqueued c (of_nat i) bs t u"
        "\<forall>b \<in> set bs. buf_capacity b = BUFFER_CAPACITY c" "enqueued_handles u = enqueued_handles t"
      and len: "length (enqueued_buffers u ! i) =
        max (length (enqueued_buffers t ! i)) (unat (NUM_BUFFERS_TO_ENQUEUE c))"
      and u: "obm_inv pool_inv live c X u" by (auto simp: ui)
    have hu: "handles u = handles s" using bs(1) ht by (simp add: buffers_enqueued_def)
    have ilen: "i < length (enqueued_handles u)"
      using u i by (simp add: obm_inv_def obm_shape_def)
    let ?u = "u\<lparr>enqueued_handles := (enqueued_handles u)[i := enqueued_handles u ! i @ [r]]\<rparr>"
    have u': "obm_inv pool_inv live c X ?u"
      by (rule obm_inv_push_handle [OF u _ ilen]) (use hu r in simp)
    moreover have "streams_acquired c m r (insert i I) s ?u"
      by (rule streams_acquired_step [OF acq i bs len refl]) (use u' in \<open>simp add: obm_inv_def\<close>)
    ultimately show ?case using ilen by (simp add: wp_simps ui)
  qed (use ht in auto)
qed

lemma acquire_streams_wp:
  assumes cap: "0 < BUFFER_CAPACITY c" "unat (BUFFER_CAPACITY c) \<le> max_request"
    and "obm_inv pool_inv live c X t" and "streams_acquired c m r I s t" and "r < length (handles s)"
    and "distinct is" and "set is \<inter> I = {}" and "set is \<subseteq> {..< unat (NUM_STREAMS c)}"
  shows "wp (acquire_streams c ops m r is)
    (\<lambda>_ s'. obm_inv pool_inv live c X s' \<and> streams_acquired c m r (set is \<union> I) s s')
    (\<lambda>_ s'. obm_inv pool_inv live c X s' \<and> handles s' = handles s) t"
  using assms(3-)
proof (induction "is" arbitrary: I t)
  case Nil
  then show ?case by (simp add: wp_ret)
next
  case (Cons i "is")
  have i: "i < unat (NUM_STREAMS c)" "i \<notin> I" and ht: "handles t = handles s"
    using Cons.prems by (auto simp: streams_acquired_def)
  have IH: "wp (acquire_streams c ops m r is)
      (\<lambda>_ s'. obm_inv pool_inv live c X s' \<and> streams_acquired c m r (set (i # is) \<union> I) s s')
      (\<lambda>_ s'. obm_inv pool_inv live c X s' \<and> handles s' = handles s) u"
    if "obm_inv pool_inv live c X u" "streams_acquired c m r (insert i I) s u" for u
    using Cons.IH [OF that Cons.prems(3)] Cons.prems(4-6) by auto
  show ?case
  proof (cases "mask_test m i")
    case (Inl e)
    with Cons.prems ht show ?thesis by (simp add: wp_simps)
  next
    case (Inr active)
    then have active: "active = bit m i"
      by (simp add: mask_test_def split: if_splits)
    show ?thesis
    proof (cases active)
      case False
      have "streams_acquired c m r (insert i I) s t"
        using Cons.prems(2) False active by (auto simp: streams_acquired_def)
      with IH [of t] Cons.prems(1) False Inr show ?thesis by (simp add: wp_simps)
    next
      case True
      with active have b: "bit m i" by simp
      show ?thesis
        unfolding acquire_streams.simps Inr seqE_liftE_Inr
        by (simp only: True if_True) (rule wp_seqI [OF acquire_stream_wp [OF cap Cons.prems(1-3) i b]], rule IH, simp_all)
    qed
  qed
qed

text \<open>Acquiring a handle for managed streams.\<close>

lemma acquire_output_handle_wp:
  assumes inv: "obm_inv pool_inv live c X s"
    and cap: "0 < BUFFER_CAPACITY c" "unat (BUFFER_CAPACITY c) \<le> max_request"
  shows "wp (acquire_output_handle c ops m)
    (\<lambda>r s'. obm_inv pool_inv live c X s' \<and> r = length (handles s) \<and>
       m \<noteq> 0 \<and> m AND NOT (MANAGED_STREAMS c) = 0 \<and>
       streams_acquired c m r {..< unat (NUM_STREAMS c)}
         (s\<lparr>handles := handles s @ [OutputHandle_init m (NUM_STREAMS c)]\<rparr>) s')
    (\<lambda>_ s'. obm_inv pool_inv live c X s') s"
proof -
  let ?s = "s\<lparr>handles := handles s @ [OutputHandle_init m (NUM_STREAMS c)]\<rparr>"
  have inv': "obm_inv pool_inv live c X ?s" by (rule obm_inv_new_handle [OF inv])
  have "wp (acquire_streams c ops m (length (handles s)) [0 ..< unat (NUM_STREAMS c)])
     (\<lambda>_ s'. obm_inv pool_inv live c X s' \<and>
        streams_acquired c m (length (handles s)) {..< unat (NUM_STREAMS c)} ?s s')
     (\<lambda>_ s'. obm_inv pool_inv live c X s') ?s"
    by (rule wp_mono [OF acquire_streams_wp [OF cap inv' streams_acquired_empty]])
      (use inv' in \<open>auto simp: obm_inv_def atLeast0LessThan\<close>)
  then have acq: "wp (acquire_streams c ops m (length (handles s)) [0 ..< unat (NUM_STREAMS c)])
     (\<lambda>_ s'. wp (ret (length (handles s))) Q E s') E ?s"
    if "\<And>s'. obm_inv pool_inv live c X s' \<Longrightarrow>
        streams_acquired c m (length (handles s)) {..< unat (NUM_STREAMS c)} ?s s' \<Longrightarrow> Q (length (handles s)) s'"
      "\<And>e s'. obm_inv pool_inv live c X s' \<Longrightarrow> E e s'" for Q E
    by (rule wp_mono) (use that in \<open>auto simp: wp_ret\<close>)
  have nh: "wp (new_handle c m) Q E s = Q (length (handles s)) ?s" for Q E
    by (simp add: new_handle_def wp_def)
  show ?thesis
    unfolding acquire_output_handle_def wp_seqE wp_assertE nh
    using inv acq by (auto simp del: acquire_streams.simps)
qed

end

section \<open>Transfers of a known size\<close>

lemma chunk_of_nat: "unat (chunk_of n) = min (unat n) 268369920"
  by (simp add: chunk_of_def stf_consts min_def word_le_nat_alt)

lemma chunk_capacity_nat:
  assumes "unat n \<le> 268369920"
  shows "unat (chunk_capacity n) = round_up (unat n) 65536"
proof -
  have "unat (n + 65536 - 1) = unat n + 65535"
    using assms by (simp add: unat_word_ariths)
  moreover have "(unat n + 65535) div 65536 * 65536 \<le> unat n + 65535"
    by (rule div_times_less_eq_dividend)
  ultimately show ?thesis
    using assms by (simp add: chunk_capacity_def stf_consts round_up_def unat_mult_lem [THEN iffD1]
        unat_word_ariths unat_div)
qed

lemma chunk_capacity_bounds:
  assumes "0 < n" and "unat n \<le> 268369920"
  shows "0 < chunk_capacity n" and "unat (chunk_capacity n) \<le> 268369920"
    and "65536 dvd unat (chunk_capacity n)"
proof -
  have le: "unat n \<le> round_up (unat n) 65536" by (rule round_up_ge) simp
  with assms chunk_capacity_nat [OF assms(2)] show "0 < chunk_capacity n"
    by (simp add: word_less_nat_alt)
  have "(unat n + 65535) div 65536 \<le> 4095"
    using assms(2) by (intro div_le_mono [where n = 268435455 and k = 65536, simplified]) simp
  then show "unat (chunk_capacity n) \<le> 268369920"
    using chunk_capacity_nat [OF assms(2)] by (simp add: round_up_def)
  show "65536 dvd unat (chunk_capacity n)"
    using chunk_capacity_nat [OF assms(2)] by simp
qed

text \<open>
  The buffers of a transfer: as many as the largest buffer the hardware takes fits into the size,
  rounded up; together they hold the size rounded up to whole transfers.
\<close>

definition transfer_buffers :: "nat \<Rightarrow> Buffer list \<Rightarrow> bool" where
  "transfer_buffers n bs \<longleftrightarrow>
     length bs = (n + 268369919) div 268369920 \<and>
     sum_list (map (\<lambda>b. unat (buf_capacity b)) bs) = round_up n 65536 \<and>
     (\<forall>b \<in> set bs. 65536 dvd unat (buf_capacity b) \<and> 0 < buf_capacity b \<and>
        unat (buf_capacity b) \<le> 268369920)"

lemma transfer_buffers_0: "transfer_buffers 0 []"
  by (simp add: transfer_buffers_def round_up_def)

lemma transfer_buffers_Cons:
  assumes "0 < n" and "transfer_buffers (unat (n - chunk_of n)) bs"
    and "buf_capacity b = chunk_capacity (chunk_of n)"
  shows "transfer_buffers (unat n) (b # bs)"
proof -
  have le: "chunk_of n \<le> n" and pos: "0 < chunk_of n" and cn: "unat (chunk_of n) \<le> 268369920"
    using assms(1) by (simp_all add: word_le_nat_alt word_less_nat_alt chunk_of_nat)
  note bd = chunk_capacity_bounds [OF pos cn]
  have rem: "unat (n - chunk_of n) = unat n - unat (chunk_of n)"
    using le by (rule unat_diff_le)
  show ?thesis
  proof (cases "unat n \<le> 268369920")
    case True
    then have "unat (chunk_of n) = unat n" by (simp add: chunk_of_nat)
    moreover have "(unat n + 268369919) div 268369920 = 1"
      using assms(1) True by (intro div_nat_eqI) (simp_all add: word_less_nat_alt)
    ultimately show ?thesis
      using assms(2,3) bd chunk_capacity_nat [OF cn] rem
      by (auto simp: transfer_buffers_def round_up_def)
  next
    case False
    then obtain k where k: "unat n = 268369920 + k"
      by (metis le_add_diff_inverse nat_le_linear)
    have c: "unat (chunk_of n) = 268369920" using k by (simp add: chunk_of_nat)
    have "(268369920 + k + 268369919) div 268369920 = Suc ((k + 268369919) div 268369920)"
      by simp
    moreover have "round_up (268369920 + k) 65536 = 268369920 + round_up k 65536"
    proof -
      have "268369920 + k + 65536 - 1 = (k + 65536 - 1) + 4095 * 65536" by simp
      then have "(268369920 + k + 65536 - 1) div 65536 = 4095 + (k + 65536 - 1) div 65536"
        by (metis div_mult_self1 zero_neq_numeral)
      then show ?thesis by (simp add: round_up_def)
    qed
    ultimately show ?thesis
      using assms(2,3) bd chunk_capacity_nat [OF cn] rem k c
      by (auto simp: transfer_buffers_def round_up_def)
  qed
qed

text \<open>One chunk: a buffer is enqueued, and the handle is pushed once more.\<close>

context memory_pool
begin

lemma enqueue_chunk_wp:
  assumes inv: "obm_inv pool_inv live c X s" and i: "stream < NUM_STREAMS c"
    and r: "r < length (handles s)" and n: "0 < n" "unat n \<le> 268369920"
  shows "wp (enqueue_chunk c ops stream r n)
    (\<lambda>_ s'. obm_inv pool_inv live c X s' \<and>
       enqueued_handles s' = (enqueued_handles s)[unat stream := enqueued_handles s ! unat stream @ [r]] \<and>
       (\<exists>p. buffers_enqueued c stream
          [\<lparr>buf_ptr = p, buf_size = 0, buf_capacity = chunk_capacity n\<rparr>] s s'))
    (\<lambda>_ s'. obm_inv pool_inv live c X s' \<and> handles s' = handles s) s"
  unfolding enqueue_chunk_def Let_def
proof (rule wp_add_buffer [unfolded Let_def, OF inv i], goal_cases)
  case 1
  show ?case using chunk_capacity_bounds [OF n] by simp
next
  case 2
  show ?case using chunk_capacity_bounds [OF n] by (simp add: max_request_def)
next
  case (3 e s')
  then show ?case using obm_more_eq(3) by blast
next
  case (4 p s')
  let ?b = "\<lparr>buf_ptr = p, buf_size = 0, buf_capacity = chunk_capacity n\<rparr>"
  have len: "unat stream < length (enqueued_handles s')" and r': "r < length (handles s')"
    using 4 i r by (simp_all add: obm_inv_def obm_shape_def word_less_nat_alt buffer_added_def)
  let ?s = "s'\<lparr>enqueued_handles :=
      (enqueued_handles s')[unat stream := enqueued_handles s' ! unat stream @ [r]]\<rparr>"
  have inv': "obm_inv pool_inv live c X ?s" by (rule obm_inv_push_handle [OF 4(1) r' len])
  have enq: "wp (enqueue_buffer (obm_mem_config c) stream ?b) Q E (host_cthread ?s)"
    if "unat p < 2 ^ 48 \<Longrightarrow> Q () (host_cthread ?s @ [SetCSR (buffer_register_value ?b) (stream_csr c stream)])"
      "\<And>e. E e (host_cthread ?s)" for Q E
    by (rule wp_enqueue_buffer) (use that in \<open>simp_all add: stream_csr_def\<close>)
  show ?case
    unfolding wp_seqE wp_push_handle
    apply (simp only: len if_True wp_on_cthread)
    apply (rule enq)
    using 4(2) inv' obm_inv_csr [OF inv']
     apply (auto simp: buffers_enqueued_def buffer_added_def intro!: exI [of _ p])
    done
qed

text \<open>The loop enqueues the buffers of the transfer and the handle once for each of them.\<close>

lemma acquire_chunks_wp:
  assumes "obm_inv pool_inv live c X s" and i: "stream < NUM_STREAMS c"
    and "r < length (handles s)"
  shows "wp (acquire_chunks c ops stream r n)
    (\<lambda>_ s'. obm_inv pool_inv live c X s' \<and>
       (\<exists>bs. transfer_buffers (unat n) bs \<and> buffers_enqueued c stream bs s s' \<and>
          enqueued_handles s' = (enqueued_handles s)[unat stream :=
            enqueued_handles s ! unat stream @ replicate (length bs) r]))
    (\<lambda>_ s'. obm_inv pool_inv live c X s' \<and> handles s' = handles s) s"
  using assms(1,3)
proof (induction "unat n" arbitrary: n s rule: less_induct)
  case less
  have len: "unat stream < length (enqueued_buffers s)" "unat stream < length (enqueued_handles s)"
    using less.prems i by (simp_all add: obm_inv_def obm_shape_def word_less_nat_alt)
  show ?case
  proof (cases "0 < n")
    case False
    then have n: "n = 0" by (simp add: word_gt_0)
    show ?thesis
      by (subst acquire_chunks.simps)
        (use less.prems(1) in \<open>auto simp: n wp_ret intro!: exI [of _ "[]"] buffers_enqueued_Nil
          transfer_buffers_0\<close>)
  next
    case True
    then have c: "0 < chunk_of n" "unat (chunk_of n) \<le> 268369920"
      by (simp_all add: word_less_nat_alt chunk_of_nat)
    have "unat (n - chunk_of n) = unat n - unat (chunk_of n)"
      by (rule unat_diff_le) (simp add: word_le_nat_alt chunk_of_nat)
    then have dec: "unat (n - chunk_of n) < unat n"
      using True c(1) by (simp add: word_less_nat_alt)
    show ?thesis
      apply (subst acquire_chunks.simps)
      apply (simp only: True if_True Let_def wp_seqE)
    proof (rule wp_mono [OF enqueue_chunk_wp [OF less.prems(1) i less.prems(2) c]], goal_cases)
      case (1 u t)
      then obtain p where inv: "obm_inv pool_inv live c X t"
        and hq: "enqueued_handles t =
          (enqueued_handles s)[unat stream := enqueued_handles s ! unat stream @ [r]]"
        and b: "buffers_enqueued c stream
          [\<lparr>buf_ptr = p, buf_size = 0, buf_capacity = chunk_capacity (chunk_of n)\<rparr>] s t"
        by auto
      have ht: "handles t = handles s" using b by (simp add: buffers_enqueued_def)
      have r': "r < length (handles t)" using less.prems(2) ht by simp
      show ?case
        apply (rule wp_mono [OF less.hyps [OF dec inv r']])
         apply clarify
        subgoal for v w bs
          by (rule exI [of _ "_ # bs"])
            (use buffers_enqueued_trans [OF b _ len(1), of bs w] hq len
                transfer_buffers_Cons [OF True, of bs] in auto)
        apply (simp add: ht)
        done
    qed simp
  qed
qed

lemma acquire_output_handle_sized_wp:
  assumes inv: "obm_inv pool_inv live c X s"
  shows "wp (acquire_output_handle_sized c ops stream n)
    (\<lambda>r s'. obm_inv pool_inv live c X s' \<and> r = length (handles s) \<and>
       stream < NUM_STREAMS c \<and> \<not> bit (MANAGED_STREAMS c) (unat stream) \<and> 0 < n \<and>
       (\<exists>bs. transfer_buffers (unat n) bs \<and>
          buffers_enqueued c stream bs
            (s\<lparr>handles := handles s @ [OutputHandle_init (2 ^ unat stream) (NUM_STREAMS c)]\<rparr>) s' \<and>
          enqueued_handles s' = (enqueued_handles s)[unat stream :=
            enqueued_handles s ! unat stream @ replicate (length bs) r]))
    (\<lambda>_ s'. obm_inv pool_inv live c X s') s"
proof (cases "stream < NUM_STREAMS c \<and> unat stream < 64")
  case False
  with inv show ?thesis
    by (auto simp: acquire_output_handle_sized_def wp_simps mask_test_def stf_consts)
next
  case True
  define m :: u64 where "m = 2 ^ unat stream"
  let ?h = "OutputHandle_init m (NUM_STREAMS c)"
  let ?s = "s\<lparr>handles := handles s @ [?h]\<rparr>"
  have inv': "obm_inv pool_inv live c X ?s" by (rule obm_inv_new_handle [OF inv])
  have ms: "mask_set 0 (unat stream) = Inr m"
    using True by (simp add: mask_set_def stf_consts m_def)
  have nh: "wp (new_handle c m) Q E s = Q (length (handles s)) ?s" for Q E
    by (simp add: new_handle_def wp_def)
  have loop: "wp (acquire_chunks c ops stream (length (handles s)) n) Q E ?s"
    if "\<And>bs s'. obm_inv pool_inv live c X s' \<Longrightarrow> transfer_buffers (unat n) bs \<Longrightarrow>
        buffers_enqueued c stream bs ?s s' \<Longrightarrow>
        enqueued_handles s' = (enqueued_handles s)[unat stream :=
          enqueued_handles s ! unat stream @ replicate (length bs) (length (handles s))] \<Longrightarrow> Q () s'"
      "\<And>e s'. obm_inv pool_inv live c X s' \<Longrightarrow> E e s'" for Q E
    by (rule wp_mono [OF acquire_chunks_wp [OF inv']]) (use True that in auto)
  show ?thesis
    using True inv
    apply (simp add: acquire_output_handle_sized_def wp_simps mask_test_def stf_consts nh ms
        flip: m_def)
    apply (intro impI loop)
     apply (auto simp: wp_simps)
    done
qed

end

end
