(* ===== verification/Hardware.thy ===== *)
theory Hardware
  imports Output_Buffer_Manager
begin

text \<open>
  The hardware side of the interfaces the host library writes to and reads from, translated from
  the SystemVerilog under \<open>hardware/src/hdl\<close>: the packed structures of \<open>common.sv\<close>, the layout of
  an interrupt value (\<open>memory/notify_meta_intf_adapter.sv\<close>), the read registers of the
  configurations and of the table in front of them (\<open>config/*.sv\<close>), and the routing of writes
  (\<open>config/write_config_splitter.sv\<close>). The lemmas are the round trips between the two sides.
  A packed structure lists its most significant field first.
\<close>

section \<open>Packed structures\<close>

record buffer_t =
  bt_vaddr :: "48 word"
  bt_size :: "12 word"

definition buffer_t_of :: "u64 \<Rightarrow> buffer_t" where
  "buffer_t_of data = \<lparr>bt_vaddr = ucast (drop_bit 12 data), bt_size = ucast data\<rparr>"

record stream_conf_t =
  sct_select :: "8 word"
  sct_data_type :: "3 word"

definition stream_conf_t_of :: "u64 \<Rightarrow> stream_conf_t" where
  "stream_conf_t_of data = \<lparr>sct_select = ucast (drop_bit 3 data), sct_data_type = ucast data\<rparr>"

text \<open>The value of an interrupt: stream id in \<open>[2:0]\<close>, size in \<open>[30:3]\<close>, last in \<open>[31]\<close>.\<close>

definition notify_value :: "3 word \<Rightarrow> 28 word \<Rightarrow> bool \<Rightarrow> u32" where
  "notify_value axi_strm_id sz is_last =
     ucast axi_strm_id OR push_bit 3 (ucast sz) OR push_bit 31 (of_bool is_last)"

text \<open>Widths of the element types, in bits.\<close>

fun GET_TYPE_WIDTH :: "type_t \<Rightarrow> nat" where
  "GET_TYPE_WIDTH BYTE_T = 8"
| "GET_TYPE_WIDTH INT16_T = 16"
| "GET_TYPE_WIDTH INT32_T = 32"
| "GET_TYPE_WIDTH FLOAT_T = 32"
| "GET_TYPE_WIDTH INT64_T = 64"
| "GET_TYPE_WIDTH DOUBLE_T = 64"
| "GET_TYPE_WIDTH INT128_T = 128"
| "GET_TYPE_WIDTH NUM_TYPES = 0"

definition GET_TYPE_BYTES :: "type_t \<Rightarrow> nat" where
  "GET_TYPE_BYTES t = GET_TYPE_WIDTH t div 8"

section \<open>Round trips of single values\<close>

lemma and_mask_take_bit: "w AND (2 ^ n - 1) = take_bit n (w :: 'a :: len word)"
  unfolding mask_eq_exp_minus_1 [symmetric] by (simp add: take_bit_eq_mask)

lemma extract_bits:
  "unat start_bit + unat num_bits \<le> 32 \<Longrightarrow> unat num_bits < 31 \<Longrightarrow> unat start_bit < 32 \<Longrightarrow>
   extract_bits_from_uint32 val start_bit num_bits =
     Inr (take_bit (unat num_bits) (drop_bit (unat start_bit) val))"
  unfolding and_mask_take_bit [symmetric]
  by (simp add: extract_bits_from_uint32_def word_le_nat_alt unat_add_no_wrap push_bit_eq_mult)

lemma notify_bits:
  "bit (notify_value i n l) k \<longleftrightarrow>
     (if k < 3 then bit i k else if k < 31 then bit n (k - 3) else k = 31 \<and> l)"
  by (auto simp: notify_value_def bit_simps dest: bit_imp_le_length)

lemma notify_stream: "take_bit 3 (notify_value i n l) = ucast i"
  by (rule bit_word_eqI) (auto simp: notify_bits bit_simps dest: bit_imp_le_length)

lemma notify_size: "take_bit 28 (drop_bit 3 (notify_value i n l)) = ucast n"
  by (rule bit_word_eqI) (auto simp: notify_bits bit_simps dest: bit_imp_le_length)

lemma notify_last: "take_bit (Suc 0) (drop_bit 31 (notify_value i n l)) = of_bool l"
proof -
  have "odd (drop_bit 31 (notify_value i n l)) = l"
    by (simp add: notify_bits flip: bit_iff_odd_drop_bit)
  then show ?thesis by (simp only: take_bit_Suc_0 mod_2_eq_odd)
qed

lemma parse_notify_value:
  "parse_interrupt_value (notify_value i n l) =
     Inr \<lparr>iv_last = l, iv_bytes_written = ucast n, iv_stream_id = ucast i\<rparr>"
proof -
  have "(ucast (ucast i :: u32) :: u8) = ucast i"
    by (rule bit_word_eqI) (auto simp: bit_simps dest: bit_imp_le_length)
  then show ?thesis
    using notify_stream [of i n l] notify_size [of i n l] notify_last [of i n l]
    by (simp add: parse_interrupt_value_def extract_bits stf_consts)
qed

text \<open>The register value of a buffer is its packed structure.\<close>

lemma buffer_value_bits:
  assumes "unat (buf_capacity b) < 2 ^ 28"
  shows "bit (buffer_register_value b) k \<longleftrightarrow>
    (if k < 12 then bit (buf_capacity b div 65536) k else k < 64 \<and> bit (buf_ptr b) (k - 12))"
proof -
  have "unat (buf_capacity b div 65536) < 2 ^ 12"
    using assms by (simp add: unat_div less_mult_imp_div_less)
  then have "take_bit 12 (buf_capacity b div 65536) = buf_capacity b div 65536"
    by (simp add: word_unat_eq_iff unsigned_take_bit_eq take_bit_nat_eq_self)
  then have "\<not> bit (buf_capacity b div 65536) k" if "12 \<le> k" for k
    using that by (metis bit_take_bit_iff leD)
  then show ?thesis
    by (auto simp: buffer_register_value_def stf_consts bit_simps dest: bit_imp_le_length)
qed

lemma buffer_t_of_value:
  assumes ptr: "unat (buf_ptr b) < 2 ^ 48" and cap: "unat (buf_capacity b) < 2 ^ 28"
    and "65536 dvd unat (buf_capacity b)"
  shows "unat (bt_vaddr (buffer_t_of (buffer_register_value b))) = unat (buf_ptr b)"
    and "unat (bt_size (buffer_t_of (buffer_register_value b))) * 65536 = unat (buf_capacity b)"
proof -
  have "bt_vaddr (buffer_t_of (buffer_register_value b)) = ucast (buf_ptr b)"
    by (rule bit_word_eqI) (auto simp: buffer_t_of_def bit_simps buffer_value_bits [OF cap])
  then show "unat (bt_vaddr (buffer_t_of (buffer_register_value b))) = unat (buf_ptr b)"
    using ptr by (simp add: unsigned_ucast_eq take_bit_nat_eq_self)
  have "bt_size (buffer_t_of (buffer_register_value b)) = ucast (buf_capacity b div 65536)"
    by (rule bit_word_eqI) (auto simp: buffer_t_of_def bit_simps buffer_value_bits [OF cap])
  moreover have "unat (buf_capacity b) div 65536 < 2 ^ 12"
    using cap by (simp add: less_mult_imp_div_less)
  ultimately show "unat (bt_size (buffer_t_of (buffer_register_value b))) * 65536 = unat (buf_capacity b)"
    using assms(3) by (simp add: unsigned_ucast_eq unat_div take_bit_nat_eq_self)
qed

lemma stream_conf_t_of_value:
  "stream_conf_t_of (stream_register_value t sel) = \<lparr>sct_select = sel, sct_data_type = ucast (type_code t)\<rparr>"
proof -
  have "take_bit 3 (type_code t) = type_code t"
    by (cases t) simp_all
  then have "\<not> bit (type_code t) k" if "3 \<le> k" for k
    using that by (metis bit_take_bit_iff leD)
  then have "ucast (drop_bit 3 (stream_register_value t sel)) = sel"
    by (intro bit_word_eqI) (auto simp: stream_register_value_def bit_simps)
  moreover have "(ucast (stream_register_value t sel) :: 3 word) = ucast (type_code t)"
    by (intro bit_word_eqI) (auto simp: stream_register_value_def bit_simps)
  ultimately show ?thesis by (simp add: stream_conf_t_of_def)
qed

section \<open>Properties\<close>

text \<open>C35. Interrupt round trip: for every stream id of 3 bits, size of 28 bits and last flag, parsing the
  word the hardware raises gives back exactly these values; no assertion and no undefined shift is
  reached.\<close>

theorem interrupt_roundtrip:
  "parse_interrupt_value (notify_value i n l) =
     Inr \<lparr>iv_last = l, iv_bytes_written = ucast n, iv_stream_id = ucast i\<rparr>"
  by (rule parse_notify_value)

text \<open>C36. Buffer round trip: when \<open>enqueue_buffer\<close> accepts a buffer, it makes one register write, to the
  register of the stream, and the hardware's packed structure decodes the written value to the
  buffer's address and to its capacity in transfers of 64 KiB.\<close>

theorem enqueue_buffer_roundtrip:
  assumes "enqueue_buffer mc i b cs = (Inr (), cs')"
  shows "\<exists>v. cs' = cs @ [SetCSR v (addr_offset mc + ucast i)] \<and>
    unat (bt_vaddr (buffer_t_of v)) = unat (buf_ptr b) \<and>
    unat (bt_size (buffer_t_of v)) * unat BYTES_PER_FPGA_TRANSFER = unat (buf_capacity b)"
proof -
  have "cs' = cs @ [SetCSR (buffer_register_value b) (addr_offset mc + ucast i)] \<and>
      buf_ptr b < 281474976710656 \<and> buf_capacity b < 268435455 \<and> buf_capacity b mod 65536 = 0"
    using assms
    by (auto simp: enqueue_buffer_def write_register_def method_defs call_def stf_consts
        split: if_splits)
  moreover from this have "65536 dvd unat (buf_capacity b)"
    by (simp add: dvd_eq_mod_eq_0 word_unat_eq_iff unat_mod)
  ultimately show ?thesis
    using buffer_t_of_value [of b] by (auto simp: word_less_nat_alt stf_consts)
qed

theorem enqueue_buffer_roundtrip_witness:
  "\<exists>v. [SetCSR 4294971394 7] = [] @ [SetCSR v ((5 :: u32) + ucast (2 :: stream_t))] \<and>
    unat (bt_vaddr (buffer_t_of v)) = 1048577 \<and>
    unat (bt_size (buffer_t_of v)) * unat BYTES_PER_FPGA_TRANSFER = 131072"
  using enqueue_buffer_roundtrip
    [of "\<lparr>addr_offset = 5, num_regs = 8, num_streams = 4, maximum_num_enqueued_buffers = 9,
        empty_stream_consumes_buffer = False\<rparr>" 2
      "\<lparr>buf_ptr = 1048577, buf_size = 0, buf_capacity = 131072\<rparr>" "[]" "[SetCSR 4294971394 7]"]
  by (simp add: enqueue_buffer_def write_register_def method_defs call_def stf_consts
      buffer_register_value_def)

text \<open>Stream configuration round trip: an accepted configuration is one register write whose value the
  hardware's packed structure decodes to the select value and to the 3-bit code of the element type,
  and these codes tell all element types apart.\<close>

theorem enqueue_stream_config_roundtrip:
  assumes "enqueue_stream_config sc i t sel cs = (Inr (), cs')"
  shows "\<exists>v. cs' = cs @ [SetCSR v (addr_offset sc + ucast i)] \<and> sct_select (stream_conf_t_of v) = sel \<and>
    (\<forall>u. sct_data_type (stream_conf_t_of v) = ucast (type_code u) \<longleftrightarrow> u = t)"
proof -
  have "cs' = cs @ [SetCSR (stream_register_value t sel) (addr_offset sc + ucast i)]"
    using assms
    by (auto simp: enqueue_stream_config_def write_register_def method_defs call_def split: if_splits)
  moreover have "(ucast (type_code t) :: 3 word) = ucast (type_code u) \<longleftrightarrow> u = t" for u
    by (cases t; cases u) simp_all
  ultimately show ?thesis
    by (auto simp: stream_conf_t_of_value)
qed

theorem enqueue_stream_config_roundtrip_witness:
  "\<exists>v. [SetCSR 1341 5] = [] @ [SetCSR v ((4 :: u32) + ucast (1 :: stream_t))] \<and>
    sct_select (stream_conf_t_of v) = 167 \<and>
    (\<forall>u. sct_data_type (stream_conf_t_of v) = ucast (type_code u) \<longleftrightarrow> u = INT16_T)"
  using enqueue_stream_config_roundtrip
    [of "\<lparr>addr_offset = 4, num_regs = 2, sc_num_streams = 2\<rparr>" 1 INT16_T 167 "[]" "[SetCSR 1341 5]"]
  by (simp add: enqueue_stream_config_def write_register_def method_defs call_def
      stream_register_value_def)

text \<open>The two sides agree on the size of every element type: what \<open>size_of\<close> returns in bytes is the
  width of the hardware's type, and both know exactly the same types.\<close>

theorem type_sizes_agree:
  "map_sum (\<lambda>_. ()) unat (size_of t) =
     (if GET_TYPE_BYTES t = 0 then Inl () else Inr (GET_TYPE_BYTES t))"
  by (cases t) (simp_all add: GET_TYPE_BYTES_def)

end
