(* ===== verification/Readers.thy ===== *)
theory Readers
  imports Output_Handle
begin

text \<open>
  Several threads reading from one handle while the manager pushes buffers and marks streams as
  done. A call that has to wait sleeps on the condition variable; every push and every mark wakes all
  sleepers, each of which then evaluates its predicate again with the lock held; a sleeper may also
  wake up for no reason. The lock makes each of these one step. The lemmas show that no wake-up is
  lost, that buffers come out in the order they went in, each exactly once, and that a thread is told
  that there is no more output only when the stream is finished and empty.
\<close>

section \<open>The calls\<close>

datatype reader_call = Next_output stream_t | Has_more stream_t | Any_more

datatype reader_result = Got "Buffer option" | Has bool

fun map_blocking :: "('a \<Rightarrow> 'b) \<Rightarrow> 'a blocking \<Rightarrow> 'b blocking" where
  "map_blocking f (Returns x) = Returns (f x)"
| "map_blocking f Blocks = Blocks"

text \<open>
  What follows a failed check of the predicate after a wake-up is what follows the first one, so a
  thread that was woken runs the call from its predicate on, which is the call itself.
\<close>

fun run_call :: "reader_call \<Rightarrow> (OutputHandle, reader_result blocking) action" where
  "run_call (Next_output i) = seqE (get_next_stream_output i) (\<lambda>r. ret (map_blocking Got r))"
| "run_call (Has_more i) = seqE (stream_has_more_output i) (\<lambda>r. ret (map_blocking Has r))"
| "run_call Any_more = seqE any_stream_has_more_output (\<lambda>r. ret (map_blocking Has r))"

datatype thread_state = Idle | Asleep reader_call | Awake reader_call

text \<open>
  \<open>rd_pushed i\<close> and \<open>rd_taken i\<close> record the buffers that went into stream \<open>i\<close> and came out of it,
  oldest first.
\<close>

record readers =
  rd_handle :: OutputHandle
  rd_threads :: "nat \<Rightarrow> thread_state"
  rd_pushed :: "stream_t \<Rightarrow> Buffer list"
  rd_taken :: "stream_t \<Rightarrow> Buffer list"

fun wake :: "thread_state \<Rightarrow> thread_state" where
  "wake (Asleep k) = Awake k"
| "wake t = t"

definition notify_all :: "(nat \<Rightarrow> thread_state) \<Rightarrow> nat \<Rightarrow> thread_state" where
  "notify_all ts = wake \<circ> ts"

fun log_taken :: "reader_call \<Rightarrow> reader_result \<Rightarrow> (stream_t \<Rightarrow> Buffer list) \<Rightarrow> stream_t \<Rightarrow> Buffer list" where
  "log_taken (Next_output i) (Got (Some b)) taken = taken(i := taken i @ [b])"
| "log_taken k r taken = taken"

inductive rd_step :: "readers \<Rightarrow> readers \<Rightarrow> bool" where
  rd_returns:
    "rd_threads s t = Idle \<or> rd_threads s t = Awake k \<Longrightarrow>
     run_call k (rd_handle s) = (Inr (Returns r), h) \<Longrightarrow>
     rd_step s (s\<lparr>rd_handle := h, rd_threads := (rd_threads s)(t := Idle),
       rd_taken := log_taken k r (rd_taken s)\<rparr>)"
| rd_blocks:
    "rd_threads s t = Idle \<or> rd_threads s t = Awake k \<Longrightarrow>
     run_call k (rd_handle s) = (Inr Blocks, h) \<Longrightarrow>
     rd_step s (s\<lparr>rd_handle := h, rd_threads := (rd_threads s)(t := Asleep k)\<rparr>)"
| rd_throws:
    "rd_threads s t = Idle \<or> rd_threads s t = Awake k \<Longrightarrow>
     run_call k (rd_handle s) = (Inl e, h) \<Longrightarrow>
     rd_step s (s\<lparr>rd_handle := h, rd_threads := (rd_threads s)(t := Idle)\<rparr>)"
| rd_spurious:
    "rd_threads s t = Asleep k \<Longrightarrow>
     rd_step s (s\<lparr>rd_threads := (rd_threads s)(t := Awake k)\<rparr>)"
| rd_push:
    "push_buffer i b (rd_handle s) = (Inr (), h) \<Longrightarrow>
     rd_step s (s\<lparr>rd_handle := h, rd_threads := notify_all (rd_threads s),
       rd_pushed := (rd_pushed s)(i := rd_pushed s i @ [b])\<rparr>)"
| rd_mark_done:
    "mark_done i (rd_handle s) = (Inr (), h) \<Longrightarrow>
     rd_step s (s\<lparr>rd_handle := h, rd_threads := notify_all (rd_threads s)\<rparr>)"
| rd_callback: "rd_step s (s\<lparr>rd_handle := run_callback (rd_handle s)\<rparr>)"

definition rd_start :: "stream_mask_t \<Rightarrow> stream_t \<Rightarrow> readers" where
  "rd_start m n = \<lparr>rd_handle = OutputHandle_init m n, rd_threads = (\<lambda>_. Idle),
     rd_pushed = (\<lambda>_. []), rd_taken = (\<lambda>_. [])\<rparr>"

inductive rd_reachable :: "stream_mask_t \<Rightarrow> stream_t \<Rightarrow> readers \<Rightarrow> bool" for m n where
  rd_init: "rd_reachable m n (rd_start m n)"
| rd_next: "rd_reachable m n s \<Longrightarrow> rd_step s s' \<Longrightarrow> rd_reachable m n s'"

section \<open>When a call waits\<close>

fun must_wait :: "reader_call \<Rightarrow> OutputHandle \<Rightarrow> bool" where
  "must_wait (Next_output i) h \<longleftrightarrow> oh_output_buffers h ! unat i = [] \<and> \<not> stream_finished h i"
| "must_wait (Has_more i) h \<longleftrightarrow> oh_output_buffers h ! unat i = [] \<and> \<not> stream_finished h i"
| "must_wait Any_more h \<longleftrightarrow> \<not> any_stream_output_available h \<and> any_memory_in_flight h = Inr True"

lemma wp_has_more:
  "wp (stream_has_more_output i)
     (\<lambda>r h'. h' = h \<and> unat i < length (oh_output_buffers h) \<and>
        (case r of Returns b \<Rightarrow> b = (oh_output_buffers h ! unat i \<noteq> []) \<and> (b \<or> stream_finished h i)
         | Blocks \<Rightarrow> oh_output_buffers h ! unat i = [] \<and> \<not> stream_finished h i))
     (\<lambda>_ h'. h' = h) h"
  by (auto simp: stream_has_more_output_def wp_simps vec_at_def split: sum.split)

lemma wp_any_more:
  "wp any_stream_has_more_output
     (\<lambda>r h'. h' = h \<and>
        (case r of Returns b \<Rightarrow> b = any_stream_output_available h \<and> (b \<or> any_memory_in_flight h = Inr False)
         | Blocks \<Rightarrow> \<not> any_stream_output_available h \<and> any_memory_in_flight h = Inr True))
     (\<lambda>_ h'. h' = h) h"
  by (auto simp: any_stream_has_more_output_def wp_simps split: sum.split)

text \<open>The effect of a call: it waits and changes nothing, or it takes the oldest buffer, or it looks.\<close>

lemma run_call_blocks:
  "run_call k h = (Inr Blocks, h') \<Longrightarrow> h' = h \<and> must_wait k h"
proof (cases k)
  case (Next_output i)
  assume "run_call k h = (Inr Blocks, h')"
  then have "get_next_stream_output i h = (Inr Blocks, h')"
    by (auto simp: Next_output method_defs elim!: map_blocking.elims split: prod.splits sum.splits)
  from wpD_Inr [OF get_next_wp this] show ?thesis by (simp add: Next_output)
next
  case (Has_more i)
  assume "run_call k h = (Inr Blocks, h')"
  then have "stream_has_more_output i h = (Inr Blocks, h')"
    by (auto simp: Has_more method_defs elim!: map_blocking.elims split: prod.splits sum.splits)
  from wpD_Inr [OF wp_has_more this] show ?thesis by (simp add: Has_more)
next
  case Any_more
  assume "run_call k h = (Inr Blocks, h')"
  then have "any_stream_has_more_output h = (Inr Blocks, h')"
    by (auto simp: Any_more method_defs elim!: map_blocking.elims split: prod.splits sum.splits)
  from wpD_Inr [OF wp_any_more this] show ?thesis by (simp add: Any_more)
qed

lemma run_call_throws:
  "run_call k h = (Inl e, h') \<Longrightarrow> h' = h"
proof (cases k)
  case (Next_output i)
  assume "run_call k h = (Inl e, h')"
  then have "get_next_stream_output i h = (Inl e, h')"
    by (auto simp: Next_output method_defs split: prod.splits sum.splits)
  from wpD_Inl [OF get_next_wp this] show ?thesis .
next
  case (Has_more i)
  assume "run_call k h = (Inl e, h')"
  then have "stream_has_more_output i h = (Inl e, h')"
    by (auto simp: Has_more method_defs split: prod.splits sum.splits)
  from wpD_Inl [OF wp_has_more this] show ?thesis .
next
  case Any_more
  assume "run_call k h = (Inl e, h')"
  then have "any_stream_has_more_output h = (Inl e, h')"
    by (auto simp: Any_more method_defs split: prod.splits sum.splits)
  from wpD_Inl [OF wp_any_more this] show ?thesis .
qed

lemma map_blocking_Returns: "map_blocking f x = Returns y \<longleftrightarrow> (\<exists>z. x = Returns z \<and> y = f z)"
  by (cases x) auto

lemma run_next_returns:
  assumes "run_call (Next_output i) h = (Inr (Returns r), h')"
  shows "unat i < length (oh_output_buffers h) \<and>
    ((\<exists>b rest. r = Got (Some b) \<and> oh_output_buffers h ! unat i = b # rest \<and>
        h' = h\<lparr>oh_output_buffers := (oh_output_buffers h)[unat i := rest]\<rparr>) \<or>
     (r = Got None \<and> h' = h \<and> oh_output_buffers h ! unat i = [] \<and> stream_finished h i))"
proof -
  obtain x where x: "get_next_stream_output i h = (Inr (Returns x), h')" "r = Got x"
    using assms by (auto simp: method_defs map_blocking_Returns split: prod.splits sum.splits)
  from wpD_Inr [OF get_next_wp x(1)] x(2) show ?thesis
    by (cases x) auto
qed

lemma run_has_more_returns:
  assumes "run_call (Has_more i) h = (Inr (Returns r), h')"
  shows "h' = h \<and> r = Has (oh_output_buffers h ! unat i \<noteq> []) \<and>
    (oh_output_buffers h ! unat i = [] \<longrightarrow> stream_finished h i)"
proof -
  obtain x where x: "stream_has_more_output i h = (Inr (Returns x), h')" "r = Has x"
    using assms by (auto simp: method_defs map_blocking_Returns split: prod.splits sum.splits)
  from wpD_Inr [OF wp_has_more x(1)] x(2) show ?thesis by auto
qed

lemma run_any_more_returns:
  assumes "run_call Any_more h = (Inr (Returns r), h')"
  shows "h' = h \<and> r = Has (any_stream_output_available h) \<and>
    (any_stream_output_available h \<or> any_memory_in_flight h = Inr False)"
proof -
  obtain x where x: "any_stream_has_more_output h = (Inr (Returns x), h')" "r = Has x"
    using assms by (auto simp: method_defs map_blocking_Returns split: prod.splits sum.splits)
  from wpD_Inr [OF wp_any_more x(1)] x(2) show ?thesis by auto
qed

lemma run_call_returns:
  assumes "run_call k h = (Inr (Returns r), h')"
  shows "(\<exists>i b rest. k = Next_output i \<and> r = Got (Some b) \<and> unat i < length (oh_output_buffers h) \<and>
      oh_output_buffers h ! unat i = b # rest \<and>
      h' = h\<lparr>oh_output_buffers := (oh_output_buffers h)[unat i := rest]\<rparr>) \<or>
    (h' = h \<and> (\<forall>taken. log_taken k r taken = taken))"
proof (cases k)
  case (Next_output i)
  with run_next_returns [of i h r h'] assms show ?thesis by auto
next
  case (Has_more i)
  with run_has_more_returns [of i h r h'] assms show ?thesis by simp
next
  case Any_more
  with run_any_more_returns [of h r h'] assms show ?thesis by simp
qed

section \<open>The invariant\<close>

definition rd_inv :: "readers \<Rightarrow> bool" where
  "rd_inv s \<longleftrightarrow>
     (\<forall>t k. rd_threads s t = Asleep k \<longrightarrow> must_wait k (rd_handle s)) \<and>
     (\<forall>i. unat i < length (oh_output_buffers (rd_handle s)) \<longrightarrow>
        rd_pushed s i = rd_taken s i @ oh_output_buffers (rd_handle s) ! unat i)"

text \<open>Taking a buffer makes no sleeper's predicate true.\<close>

lemma must_wait_take:
  assumes "must_wait k h" and "i < length (oh_output_buffers h)" and "oh_output_buffers h ! i = b # rest"
  shows "must_wait k (h\<lparr>oh_output_buffers := (oh_output_buffers h)[i := rest]\<rparr>)"
proof (cases k)
  case Any_more
  have "oh_output_buffers h ! i \<in> set (oh_output_buffers h)" using assms(2) by simp
  then have "any_stream_output_available h"
    using assms(3) by (auto simp: any_stream_output_available_def list_ex_iff)
  with assms(1) Any_more show ?thesis by simp
qed (use assms in \<open>auto simp: nth_list_update stream_finished_def\<close>)

lemma notify_not_asleep [simp]: "notify_all ts t \<noteq> Asleep k"
  by (cases "ts t") (simp_all add: notify_all_def)

lemma run_callback_frame:
  "oh_output_buffers (run_callback h) = oh_output_buffers h"
  "oh_active_streams (run_callback h) = oh_active_streams h"
  "oh_finished_streams (run_callback h) = oh_finished_streams h"
  by (simp_all add: run_callback_def split: option.split list.split)

lemma in_flight_cong:
  "oh_active_streams h = oh_active_streams h' \<Longrightarrow> oh_finished_streams h = oh_finished_streams h' \<Longrightarrow>
   in_flight_from h is = in_flight_from h' is"
  by (induction "is") (auto split: sum.split)

lemma must_wait_cong:
  assumes "oh_output_buffers h = oh_output_buffers h'" "oh_active_streams h = oh_active_streams h'"
    "oh_finished_streams h = oh_finished_streams h'"
  shows "must_wait k h = must_wait k h'"
  using assms in_flight_cong [OF assms(2,3)]
  by (cases k) (simp_all add: stream_finished_def any_stream_output_available_def any_memory_in_flight_def)

lemma rd_step_inv: "rd_step s s' \<Longrightarrow> rd_inv s \<Longrightarrow> rd_inv s'"
proof (induction rule: rd_step.induct)
  case (rd_returns s t k r h)
  from run_call_returns [OF rd_returns(2)] show ?case
  proof (elim disjE exE conjE)
    fix i b rest
    assume k: "k = Next_output i" "r = Got (Some b)" and i: "unat i < length (oh_output_buffers (rd_handle s))"
      and out: "oh_output_buffers (rd_handle s) ! unat i = b # rest"
      and h: "h = (rd_handle s)\<lparr>oh_output_buffers := (oh_output_buffers (rd_handle s))[unat i := rest]\<rparr>"
    have w: "must_wait k' h" if "must_wait k' (rd_handle s)" for k'
      unfolding h by (rule must_wait_take [OF that i out])
    show ?thesis
      using rd_returns(3) w i out
      by (auto simp: rd_inv_def k h nth_list_update word_unat_eq_iff [symmetric])
  next
    assume "h = rd_handle s" "\<forall>taken. log_taken k r taken = taken"
    with rd_returns(3) show ?thesis by (simp add: rd_inv_def)
  qed
next
  case (rd_blocks s t k h)
  from run_call_blocks [OF rd_blocks(2)] rd_blocks(3) show ?case by (simp add: rd_inv_def)
next
  case (rd_throws s t k e h)
  from run_call_throws [OF rd_throws(2)] rd_throws(3) show ?case by (simp add: rd_inv_def)
next
  case (rd_spurious s t k)
  then show ?case by (simp add: rd_inv_def)
next
  case (rd_push i b s h)
  then have "unat i < length (oh_output_buffers (rd_handle s))"
    "h = (rd_handle s)\<lparr>oh_output_buffers := (oh_output_buffers (rd_handle s))
      [unat i := oh_output_buffers (rd_handle s) ! unat i @ [b]]\<rparr>"
    by (auto simp: push_buffer_def vec_at_def method_defs split: if_splits)
  with rd_push(2) show ?case
    by (auto simp: rd_inv_def nth_list_update word_unat_eq_iff [symmetric])
next
  case (rd_mark_done i s h)
  then have "oh_output_buffers h = oh_output_buffers (rd_handle s)"
    by (auto simp: mark_done_def method_defs mask_set_def join_callback_thread_def
        split: if_splits option.splits)
  with rd_mark_done(2) show ?case by (simp add: rd_inv_def)
next
  case (rd_callback s)
  from rd_callback show ?case
    by (simp add: rd_inv_def run_callback_frame must_wait_cong [OF run_callback_frame])
qed

lemma rd_reachable_inv: "rd_reachable m n s \<Longrightarrow> rd_inv s"
proof (induction rule: rd_reachable.induct)
  case rd_init
  then show ?case by (simp add: rd_inv_def rd_start_def OutputHandle_init_def)
qed (rule rd_step_inv)

lemma rd_length:
  "rd_reachable m n s \<Longrightarrow>
   length (oh_output_buffers (rd_handle s)) = unat n \<and> oh_active_streams (rd_handle s) = m \<and>
   oh_NUM_STREAMS (rd_handle s) = n"
proof (induction rule: rd_reachable.induct)
  case rd_init
  then show ?case by (simp add: rd_start_def OutputHandle_init_def)
next
  case (rd_next s s')
  from rd_next(2,1,3) show ?case
  proof (induction rule: rd_step.induct)
    case (rd_returns s t k r h)
    from run_call_returns [OF rd_returns(2)] rd_returns show ?case by auto
  next
    case (rd_blocks s t k h)
    with run_call_blocks [OF rd_blocks(2)] show ?case by simp
  next
    case (rd_throws s t k e h)
    with run_call_throws [OF rd_throws(2)] show ?case by simp
  next
    case (rd_push i b s h)
    then show ?case by (auto simp: push_buffer_def vec_at_def method_defs split: if_splits)
  next
    case (rd_mark_done i s h)
    then show ?case
      by (auto simp: mark_done_def method_defs mask_set_def join_callback_thread_def
          split: if_splits option.splits)
  next
    case (rd_callback s)
    then show ?case by (simp add: run_callback_frame) (simp add: run_callback_def split: option.split list.split)
  qed simp
qed

section \<open>Callbacks\<close>

text \<open>The invocations that were made and those the callback thread still has to make.\<close>

definition callback_trace :: "OutputHandle \<Rightarrow> (nat \<times> stream_t) list" where
  "callback_trace h = oh_invoked h @ (case oh_callback_thread h of None \<Rightarrow> [] | Some todo \<Rightarrow> todo)"

lemma callback_trace_mark:
  "mark_done i h = (Inr (), h') \<Longrightarrow>
     callback_trace h' = callback_trace h @ map (\<lambda>c. (c, i)) (oh_callback h)"
  by (auto simp: mark_done_def method_defs mask_set_def join_callback_thread_def callback_trace_def
      split: if_splits option.splits)

lemma callback_trace_run: "callback_trace (run_callback h) = callback_trace h"
  by (auto simp: run_callback_def callback_trace_def split: option.split list.split)

lemma callback_trace_join: "callback_trace (join_callback_thread h) = callback_trace h"
  by (simp add: join_callback_thread_def callback_trace_def split: option.split)

section \<open>Properties\<close>

text \<open>Three reachable states: a thread waits, a buffer has arrived, the stream is done.\<close>

definition example_buffer :: Buffer where
  "example_buffer = \<lparr>buf_ptr = 65536, buf_size = 10, buf_capacity = 65536\<rparr>"

definition example_asleep :: readers where
  "example_asleep = (rd_start 1 1)\<lparr>rd_threads := (\<lambda>_. Idle)(0 := Asleep (Next_output 0))\<rparr>"

definition example_pushed :: readers where
  "example_pushed = (rd_start 1 1)\<lparr>
     rd_handle := snd (push_buffer 0 example_buffer (OutputHandle_init 1 1)),
     rd_pushed := (\<lambda>_. [])(0 := [example_buffer])\<rparr>"

definition example_done :: readers where
  "example_done = (rd_start 1 1)\<lparr>rd_handle := snd (mark_done 0 (OutputHandle_init 1 1))\<rparr>"

lemmas example_run_defs = get_next_stream_output_def stream_has_more_output_def push_buffer_def
  mark_done_def join_callback_thread_def mask_set_def check_stream_def mask_test_def vec_at_def
  stream_finished_def OutputHandle_init_def method_defs stf_consts

lemma example_asleep_reachable: "rd_reachable 1 1 example_asleep"
proof -
  have "run_call (Next_output 0) (rd_handle (rd_start 1 1)) = (Inr Blocks, rd_handle (rd_start 1 1))"
    by (simp add: rd_start_def example_run_defs)
  from rd_next [OF rd_init rd_blocks [OF disjI1 this, of 0]] show ?thesis
    by (simp add: example_asleep_def rd_start_def)
qed

lemma notify_idle [simp]: "notify_all (\<lambda>_. Idle) = (\<lambda>_. Idle)"
  by (simp add: notify_all_def comp_def)

lemma example_pushed_reachable: "rd_reachable 1 1 example_pushed"
proof -
  have "push_buffer 0 example_buffer (rd_handle (rd_start 1 1)) =
      (Inr (), snd (push_buffer 0 example_buffer (OutputHandle_init 1 1)))"
    by (simp add: rd_start_def example_run_defs)
  from rd_next [OF rd_init rd_push [OF this]] show ?thesis
    by (simp add: example_pushed_def rd_start_def)
qed

lemma example_done_reachable: "rd_reachable 1 1 example_done"
proof -
  have "mark_done 0 (rd_handle (rd_start 1 1)) = (Inr (), snd (mark_done 0 (OutputHandle_init 1 1)))"
    by (simp add: rd_start_def example_run_defs)
  from rd_next [OF rd_init rd_mark_done [OF this]] show ?thesis
    by (simp add: example_done_def rd_start_def)
qed

text \<open>C10. No lost wake-up: in every reachable state, whatever the interleaving of the manager and any number
  of reading threads, a thread that sleeps on the condition variable has a reason to: its predicate
  is false of the current state of the handle.\<close>

theorem no_lost_wakeup:
  assumes "rd_reachable m n s" and "rd_threads s t = Asleep k"
  shows "must_wait k (rd_handle s)"
  using rd_reachable_inv [OF assms(1)] assms(2) by (simp add: rd_inv_def)

theorem no_lost_wakeup_witness: "must_wait (Next_output 0) (rd_handle example_asleep)"
  by (rule no_lost_wakeup [OF example_asleep_reachable, of 0]) (simp add: example_asleep_def)

text \<open>C12. Delivery: with any number of threads taking from a stream, the buffers that came out so far, in the
  order they came out, followed by those still in the queue are exactly the buffers that went in, in
  the order they went in. Nothing is lost, duplicated or reordered.\<close>

theorem output_is_fifo:
  assumes "rd_reachable m n s" and "i < n"
  shows "rd_pushed s i = rd_taken s i @ oh_output_buffers (rd_handle s) ! unat i"
  using rd_reachable_inv [OF assms(1)] rd_length [OF assms(1)] assms(2)
  by (simp add: rd_inv_def word_less_nat_alt)

theorem output_is_fifo_witness:
  "rd_pushed example_pushed 0 =
     rd_taken example_pushed 0 @ oh_output_buffers (rd_handle example_pushed) ! unat (0 :: stream_t)"
  by (rule output_is_fifo [OF example_pushed_reachable]) simp

text \<open>C37. End of a stream: a thread is told that there is no more output only when the stream was marked as
  done and every buffer that was ever pushed to it has been taken.\<close>

theorem no_output_means_drained:
  assumes "rd_reachable m n s"
    and "run_call (Next_output i) (rd_handle s) = (Inr (Returns (Got None)), h)"
  shows "stream_finished (rd_handle s) i \<and> rd_taken s i = rd_pushed s i"
proof -
  from run_next_returns [OF assms(2)]
  have "unat i < length (oh_output_buffers (rd_handle s))" "stream_finished (rd_handle s) i"
    "oh_output_buffers (rd_handle s) ! unat i = []" by auto
  with rd_reachable_inv [OF assms(1)] show ?thesis by (simp add: rd_inv_def)
qed

theorem no_output_means_drained_witness:
  "stream_finished (rd_handle example_done) 0 \<and> rd_taken example_done 0 = rd_pushed example_done 0"
  by (rule no_output_means_drained [OF example_done_reachable, of 0 "rd_handle example_done"])
    (simp add: example_done_def rd_start_def example_run_defs)

text \<open>C38. No thread waits for a finished stream: once an active stream is marked as done nobody sleeps in a
  call on it, and every further call on it returns without waiting.\<close>

theorem finished_stream_never_blocks:
  assumes "rd_reachable m n s" and "i < n" and "bit m (unat i)" and "stream_finished (rd_handle s) i"
  shows "(\<forall>t. rd_threads s t \<noteq> Asleep (Next_output i) \<and> rd_threads s t \<noteq> Asleep (Has_more i)) \<and>
    (\<exists>r h. run_call (Next_output i) (rd_handle s) = (Inr (Returns r), h)) \<and>
    (\<exists>r h. run_call (Has_more i) (rd_handle s) = (Inr (Returns r), h))"
proof -
  note len = rd_length [OF assms(1)]
  have i: "unat i < unat n" "unat i < 64"
    using assms(2,3) bit_imp_le_length [OF assms(3)] by (simp_all add: word_less_nat_alt)
  then have "check_stream (rd_handle s) i = Inr ()"
    using len assms(2,3) by (simp add: check_stream_def mask_test_def stf_consts not_le)
  then have "(\<exists>r h. run_call (Next_output i) (rd_handle s) = (Inr (Returns r), h)) \<and>
    (\<exists>r h. run_call (Has_more i) (rd_handle s) = (Inr (Returns r), h))"
    using len i assms(4)
    by (cases "oh_output_buffers (rd_handle s) ! unat i")
      (simp_all add: get_next_stream_output_def stream_has_more_output_def method_defs vec_at_def
        transferred_mem_front_to_shared_ptr_def)
  moreover have "\<forall>t k. rd_threads s t = Asleep k \<longrightarrow> must_wait k (rd_handle s)"
    using rd_reachable_inv [OF assms(1)] by (simp add: rd_inv_def)
  then have "rd_threads s t \<noteq> Asleep (Next_output i) \<and> rd_threads s t \<noteq> Asleep (Has_more i)" for t
    using assms(4) by fastforce
  ultimately show ?thesis by blast
qed

theorem finished_stream_never_blocks_witness:
  "(\<forall>t. rd_threads example_done t \<noteq> Asleep (Next_output 0) \<and>
      rd_threads example_done t \<noteq> Asleep (Has_more 0)) \<and>
    (\<exists>r h. run_call (Next_output 0) (rd_handle example_done) = (Inr (Returns r), h)) \<and>
    (\<exists>r h. run_call (Has_more 0) (rd_handle example_done) = (Inr (Returns r), h))"
  by (rule finished_stream_never_blocks [OF example_done_reachable])
    (simp_all add: example_done_def rd_start_def example_run_defs)

text \<open>Marking a list of streams as done, one after the other.\<close>

fun mark_all :: "stream_t list \<Rightarrow> (OutputHandle, unit) action" where
  "mark_all [] = ret ()"
| "mark_all (i # is) = seqE (mark_done i) (\<lambda>_. mark_all is)"

lemma mark_all_trace:
  "\<forall>i \<in> set is. i < 64 \<Longrightarrow> \<exists>h'. mark_all is h = (Inr (), h') \<and> oh_callback h' = oh_callback h \<and>
     callback_trace h' = callback_trace h @ concat (map (\<lambda>i. map (\<lambda>c. (c, i)) (oh_callback h)) is)"
proof (induction "is" arbitrary: h)
  case Nil
  then show ?case by (simp add: ret_def)
next
  case (Cons i "is")
  have "unat i < 64" using Cons.prems by (simp add: word_less_nat_alt)
  then obtain h1 where h1: "mark_done i h = (Inr (), h1)"
    by (auto simp: mark_done_def method_defs mask_set_def stf_consts)
  moreover have "oh_callback h1 = oh_callback h"
    using wpD_Inr [OF mark_done_wp h1] by simp
  moreover obtain h2 where "mark_all is h1 = (Inr (), h2)" "oh_callback h2 = oh_callback h1"
    "callback_trace h2 = callback_trace h1 @ concat (map (\<lambda>i. map (\<lambda>c. (c, i)) (oh_callback h1)) is)"
    using Cons by auto
  ultimately show ?case
    using callback_trace_mark [OF h1] by (simp add: seqE_def)
qed

lemma add_callbacks: "oh_callback (fold add_callback cs h) = oh_callback h @ cs"
  "oh_invoked (fold add_callback cs h) = oh_invoked h"
  "oh_callback_thread (fold add_callback cs h) = oh_callback_thread h"
  by (induction cs arbitrary: h) (simp_all add: add_callback_def)

text \<open>C39. Callbacks: when the callbacks \<open>cs\<close> were added to a new handle and then the streams \<open>is\<close> are marked
  as done, joining the callback thread leaves every callback called exactly once for every mark, the
  marks in their order and for each mark the callbacks in the order they were added.\<close>

theorem callbacks_run_once_in_order:
  assumes "\<forall>i \<in> set is. i < 64"
  shows "\<exists>h. mark_all is (fold add_callback cs (OutputHandle_init m n)) = (Inr (), h) \<and>
    oh_invoked (join_callback_thread h) = concat (map (\<lambda>i. map (\<lambda>c. (c, i)) cs) is)"
proof -
  let ?h = "fold add_callback cs (OutputHandle_init m n)"
  have h: "oh_callback ?h = cs" "callback_trace ?h = []"
    by (simp_all add: add_callbacks callback_trace_def) (simp_all add: OutputHandle_init_def)
  have "oh_invoked (join_callback_thread h) = callback_trace h" for h
    by (simp add: join_callback_thread_def callback_trace_def split: option.split)
  with mark_all_trace [OF assms, of ?h] h show ?thesis by auto
qed

theorem callbacks_run_once_in_order_witness:
  "\<exists>h. mark_all [3, 0] (fold add_callback [10, 20] (OutputHandle_init 9 4)) = (Inr (), h) \<and>
    oh_invoked (join_callback_thread h) =
      concat (map (\<lambda>i. map (\<lambda>c. (c, i)) [10, 20]) [3, 0])"
  by (rule callbacks_run_once_in_order) simp

end
