(* ===== verification/Transfers.thy ===== *)
theory Transfers
  imports Tlb_Manager
begin

text \<open>
  Data transfers that the host posts: \<open>enqueue_stream_input\<close> of \<open>software/libstf/util.cpp\<close>, and its
  counterpart \<open>enqueue_stream_output\<close> and \<open>offload_to_card\<close> of the replay buffer example
  (\<open>examples/03_replay_buffer/src/main.cpp\<close>). The driver moves at most \<open>coyote::MAX_TRANSFER_SIZE\<close>
  bytes at once; this constant is the parameter \<open>mx\<close>. The lemmas show that the loops end and cut a
  range into consecutive chunks that cover it exactly.
\<close>

section \<open>Loops over offsets\<close>

text \<open>
  The loop \<open>for (size_t off = 0; off < limit; off += step) body\<close>; \<open>off\<close> wraps around like the variable
  of the code, and \<open>None\<close> is a loop that never ends.
\<close>

partial_function (option) for_offsets ::
  "u64 \<Rightarrow> u64 \<Rightarrow> (u64 \<Rightarrow> 's \<Rightarrow> 's) \<Rightarrow> u64 \<Rightarrow> 's \<Rightarrow> 's option" where
  "for_offsets limit step body off s =
     (if off < limit then for_offsets limit step body (off + step) (body off s) else Some s)"

declare for_offsets.simps [code]

definition num_chunks :: "nat \<Rightarrow> nat \<Rightarrow> nat" where
  "num_chunks n d = (n + d - 1) div d"

lemma num_chunks_iff:
  assumes "0 < d"
  shows "k < num_chunks n d \<longleftrightarrow> k * d < n"
proof -
  have "k < num_chunks n d \<longleftrightarrow> Suc k * d \<le> n + d - 1"
    using less_eq_div_iff_mult_less_eq [OF assms, of "Suc k" "n + d - 1"]
    by (simp add: num_chunks_def Suc_le_eq)
  also have "\<dots> \<longleftrightarrow> k * d < n" using assms by auto
  finally show ?thesis .
qed

lemma num_chunks_0 [simp]: "num_chunks 0 d = 0"
  by (cases d) (simp_all add: num_chunks_def)

lemma num_chunks_pos: "0 < d \<Longrightarrow> 0 < n \<Longrightarrow> 0 < num_chunks n d"
  by (simp add: num_chunks_iff)

lemma unat_of_nat_mult: "i * unat (d :: u64) < 2 ^ 64 \<Longrightarrow> unat (of_nat i * d) = i * unat d"
proof -
  assume "i * unat d < 2 ^ 64"
  moreover have "of_nat i * d = (of_nat (i * unat d) :: u64)" by simp
  ultimately show ?thesis by (simp only: unat_of_nat_64)
qed

lemma for_offsets_fold:
  assumes "0 < step" and "unat limit + unat step \<le> 2 ^ 64"
    and "k \<le> num_chunks (unat limit) (unat step)"
  shows "for_offsets limit step body (of_nat k * step) s =
    Some (fold (\<lambda>i. body (of_nat i * step)) [k ..< num_chunks (unat limit) (unat step)] s)"
  using assms(3)
proof (induction k arbitrary: s rule: inc_induct)
  case base
  let ?n = "num_chunks (unat limit) (unat step)"
  have pos: "0 < unat step" using assms(1) by (simp add: word_pos_nat)
  have "?n * unat step < 2 ^ 64"
  proof (cases ?n)
    case (Suc m)
    then have "m * unat step < unat limit" using num_chunks_iff [OF pos, of m "unat limit"] by simp
    then show ?thesis using Suc assms(2) by simp
  qed simp
  then have "unat (of_nat ?n * step) = ?n * unat step" by (rule unat_of_nat_mult)
  moreover have "\<not> ?n * unat step < unat limit" using num_chunks_iff [OF pos, of ?n "unat limit"] by simp
  ultimately show ?case by (subst for_offsets.simps) (simp add: word_less_nat_alt)
next
  case (step k)
  have pos: "0 < unat step" using assms(1) by (simp add: word_pos_nat)
  have lt: "k * unat step < unat limit" using num_chunks_iff [OF pos] step.hyps by simp
  then have "unat (of_nat k * step) = k * unat step"
    using unat_64_bound [of limit] by (intro unat_of_nat_mult) simp
  then have "of_nat k * step < limit" using lt by (simp add: word_less_nat_alt)
  moreover have "of_nat k * step + step = of_nat (Suc k) * step"
    by (simp add: algebra_simps)
  ultimately show ?case
    using step.IH step.hyps by (subst for_offsets.simps) (simp add: upt_conv_Cons add.commute)
qed

section \<open>The transfers of a range\<close>

text \<open>A transfer: its address, its length, and whether it is the last one of the range.\<close>

definition chunk_at :: "u64 \<Rightarrow> ptr \<Rightarrow> u64 \<Rightarrow> u64 \<Rightarrow> ptr \<times> u64 \<times> bool" where
  "chunk_at mx p sz off = (p + off, min (sz - off) mx, off + mx \<ge> sz)"

definition chunks_of :: "u64 \<Rightarrow> ptr \<Rightarrow> u64 \<Rightarrow> (ptr \<times> u64 \<times> bool) list" where
  "chunks_of mx p sz =
     map (\<lambda>i. chunk_at mx p sz (of_nat i * mx)) [0 ..< num_chunks (unat sz) (unat mx)]"

text \<open>The bytes of the transfers, in the order they are posted.\<close>

definition chunk_bytes :: "(ptr \<times> u64 \<times> bool) list \<Rightarrow> nat list" where
  "chunk_bytes cs = concat (map (\<lambda>(a, n, _). [unat a ..< unat a + unat n]) cs)"

lemma chunk_at_offset:
  assumes "0 < mx" and "unat sz + unat mx \<le> 2 ^ 64" and "no_wrap p sz"
    and "i < num_chunks (unat sz) (unat mx)"
    and "chunk_at mx p sz (of_nat i * mx) = (a, n, l)"
  shows "unat a = unat p + i * unat mx" "unat n = min (unat sz - i * unat mx) (unat mx)" "0 < n"
    "l \<longleftrightarrow> Suc i = num_chunks (unat sz) (unat mx)"
proof -
  let ?off = "of_nat i * mx"
  have pos: "0 < unat mx" using assms(1) by (simp add: word_pos_nat)
  have lt: "i * unat mx < unat sz" using num_chunks_iff [OF pos] assms(4) by simp
  then have off: "unat ?off = i * unat mx"
    using unat_64_bound [of sz] by (intro unat_of_nat_mult) simp
  have an: "a = p + ?off" "n = min (sz - ?off) mx" "l \<longleftrightarrow> sz \<le> ?off + mx"
    using assms(5) by (auto simp: chunk_at_def)
  show "unat a = unat p + i * unat mx"
    unfolding an(1) using lt assms(3) off by (subst unat_add_no_wrap) (simp_all add: no_wrap_def)
  have diff: "unat (sz - ?off) = unat sz - i * unat mx"
    using lt off by (subst unat_diff_le) (simp_all add: word_le_nat_alt)
  show n: "unat n = min (unat sz - i * unat mx) (unat mx)"
    unfolding an(2) min_def word_le_nat_alt diff by (simp add: diff)
  show "0 < n" unfolding word_pos_nat n using lt pos by simp
  have "unat (?off + mx) = i * unat mx + unat mx"
    using lt assms(2) off by (subst unat_add_no_wrap) simp_all
  then have "l \<longleftrightarrow> \<not> Suc i * unat mx < unat sz" unfolding an(3) by (simp add: word_le_nat_alt add.commute not_less)
  then show "l \<longleftrightarrow> Suc i = num_chunks (unat sz) (unat mx)"
    using num_chunks_iff [OF pos, of "Suc i" "unat sz"] assms(4) by auto
qed

lemma chunk_bytes_prefix:
  assumes "0 < mx" and "unat sz + unat mx \<le> 2 ^ 64" and "no_wrap p sz"
    and "k \<le> num_chunks (unat sz) (unat mx)"
  shows "chunk_bytes (map (\<lambda>i. chunk_at mx p sz (of_nat i * mx)) [0 ..< k]) =
    [unat p ..< unat p + min (unat sz) (k * unat mx)]"
  using assms(4)
proof (induction k)
  case (Suc k)
  obtain a n l where c: "chunk_at mx p sz (of_nat k * mx) = (a, n, l)" by (metis prod_cases3)
  have "k < num_chunks (unat sz) (unat mx)" using Suc.prems by simp
  note at = chunk_at_offset [OF assms(1-3) this c]
  have pos: "0 < unat mx" using assms(1) by (simp add: word_pos_nat)
  have lt: "k * unat mx < unat sz" using num_chunks_iff [OF pos, of k "unat sz"] Suc.prems by simp
  have "[unat p ..< unat p + k * unat mx] @ [unat a ..< unat a + unat n] =
      [unat p ..< unat p + min (unat sz) (Suc k * unat mx)]"
  proof -
    have "unat a + unat n = unat p + min (unat sz) (Suc k * unat mx)" using at(1,2) lt by simp
    then show ?thesis using at(1) upt_add_eq_append [of "unat p" "unat p + k * unat mx" "unat n"]
      by (metis le_add1 upt_add_eq_append)
  qed
  then show ?case using Suc lt c by (simp add: chunk_bytes_def)
qed (simp add: chunk_bytes_def)

lemma chunks_of_shape:
  assumes "0 < mx" and "unat sz + unat mx \<le> 2 ^ 64" and "no_wrap p sz" and "0 < sz"
  shows "chunk_bytes (chunks_of mx p sz) = [unat p ..< unat p + unat sz]"
    "length (chunks_of mx p sz) = num_chunks (unat sz) (unat mx)"
    "(a, n, l) \<in> set (chunks_of mx p sz) \<Longrightarrow> 0 < n \<and> n \<le> mx"
    "map (snd \<circ> snd) (chunks_of mx p sz) =
       replicate (num_chunks (unat sz) (unat mx) - 1) False @ [True]"
proof -
  let ?n = "num_chunks (unat sz) (unat mx)"
  have pos: "0 < unat mx" using assms(1) by (simp add: word_pos_nat)
  have "unat sz \<le> ?n * unat mx" using num_chunks_iff [OF pos, of ?n "unat sz"] by simp
  then show "chunk_bytes (chunks_of mx p sz) = [unat p ..< unat p + unat sz]"
    using chunk_bytes_prefix [OF assms(1-3) order_refl] by (simp add: chunks_of_def)
  show "length (chunks_of mx p sz) = ?n" by (simp add: chunks_of_def)
  show "0 < n \<and> n \<le> mx" if mem: "(a, n, l) \<in> set (chunks_of mx p sz)"
  proof -
    obtain i where i: "(a, n, l) = chunk_at mx p sz (of_nat i * mx)" "i \<in> set [0 ..< ?n]"
      using mem unfolding chunks_of_def set_map by blast
    then have "i < ?n" by simp
    from chunk_at_offset [OF assms(1-3) this i(1) [symmetric]] show ?thesis by (simp add: word_le_nat_alt)
  qed
  have n: "0 < ?n" using pos assms(4) num_chunks_iff [OF pos, of 0 "unat sz"] by (simp add: word_pos_nat)
  have l: "snd (snd (chunk_at mx p sz (of_nat i * mx))) \<longleftrightarrow> Suc i = ?n" if "i < ?n" for i
    using chunk_at_offset(4) [OF assms(1-3) that] by (metis prod.collapse)
  show "map (snd \<circ> snd) (chunks_of mx p sz) = replicate (?n - 1) False @ [True]"
    using n by (intro nth_equalityI) (auto simp: chunks_of_def nth_append l)
qed

section \<open>Sending a range to a stream\<close>

definition enqueue_stream_input ::
  "u64 \<Rightarrow> 'p MemoryPool \<Rightarrow> ptr \<Rightarrow> u64 \<Rightarrow> stream_t \<Rightarrow> bool \<Rightarrow> (('p, 'm) host_scheme, unit) action" where
  "enqueue_stream_input mx ops byte_ptr sz stream is_last =
     seqE (ensure_tlb_mapping ops byte_ptr sz) (\<lambda>_.
     on_cthread (\<lambda>cs.
       case for_offsets sz mx (\<lambda>off cs.
              let curr_ptr = byte_ptr + off;
                  input_size = min (sz - off) mx;
                  last_transfer = (off + mx \<ge> sz \<and> is_last)
              in cs @ [LocalRead curr_ptr input_size stream last_transfer]) 0 cs of
         None \<Rightarrow> (Inl Diverges, cs)
       | Some cs' \<Rightarrow> (Inr (), cs')))"

section \<open>Receiving a stream in a range\<close>

definition enqueue_stream_output ::
  "u64 \<Rightarrow> 'p MemoryPool \<Rightarrow> ptr \<Rightarrow> u64 \<Rightarrow> stream_t \<Rightarrow> (('p, 'm) host_scheme, u64) action" where
  "enqueue_stream_output mx ops byte_ptr sz stream =
     seqE (ensure_tlb_mapping ops byte_ptr sz) (\<lambda>_.
     on_cthread (\<lambda>cs.
       case for_offsets sz mx (\<lambda>off (num_transfers, cs).
              (num_transfers + 1,
               cs @ [LocalWrite (byte_ptr + off) (min (sz - off) mx) stream (off + mx \<ge> sz)]))
              0 (0, cs) of
         None \<Rightarrow> (Inl Diverges, cs)
       | Some (num_transfers, cs') \<Rightarrow> (Inr num_transfers, cs')))"

section \<open>Moving a range to the card\<close>

partial_function (option) offload_loop ::
  "u64 \<Rightarrow> 'p MemoryPool \<Rightarrow> ptr \<Rightarrow> ptr \<Rightarrow> ('p, 'm) host_scheme \<Rightarrow>
   ((cpp_error + unit) \<times> ('p, 'm) host_scheme) option" where
  "offload_loop mx ops end_ptr byte_ptr h =
     (if byte_ptr < end_ptr then
        (case pool_get_page_boundaries ops byte_ptr (host_pool h) of
           Inl e \<Rightarrow> Some (Inl e, h)
         | Inr (page, page_size) \<Rightarrow>
             let page_end = page + page_size;
                 len = min (min page_end end_ptr - byte_ptr) mx
             in offload_loop mx ops end_ptr page_end
                  (h\<lparr>host_cthread := host_cthread h @ [LocalOffload byte_ptr len]\<rparr>))
      else Some (Inr (), h))"

declare offload_loop.simps [code]

definition offload_to_card ::
  "u64 \<Rightarrow> 'p MemoryPool \<Rightarrow> ptr \<Rightarrow> u64 \<Rightarrow> (('p, 'm) host_scheme, unit) action" where
  "offload_to_card mx ops byte_ptr sz h =
     (case offload_loop mx ops (byte_ptr + sz) byte_ptr h of
        None \<Rightarrow> (Inl Diverges, h)
      | Some r \<Rightarrow> r)"

section \<open>What the transfers deliver\<close>

lemma fold_append: "fold (\<lambda>i cs. cs @ [f i]) is cs = cs @ map f is"
  by (induction "is" arbitrary: cs) auto

lemma fold_append_count:
  "fold (\<lambda>i (n, cs). (n + 1, cs @ [f i])) is (n, cs) = (n + of_nat (length is), cs @ map f is)"
  by (induction "is" arbitrary: n cs) (auto simp: algebra_simps)

text \<open>The calls for the chunks of a range; only the last read of a stream carries the flag.\<close>

definition read_calls :: "stream_t \<Rightarrow> bool \<Rightarrow> (ptr \<times> u64 \<times> bool) list \<Rightarrow> cthread" where
  "read_calls stream is_last cs = map (\<lambda>(a, n, l). LocalRead a n stream (l \<and> is_last)) cs"

definition write_calls :: "stream_t \<Rightarrow> (ptr \<times> u64 \<times> bool) list \<Rightarrow> cthread" where
  "write_calls stream cs = map (\<lambda>(a, n, l). LocalWrite a n stream l) cs"

lemma enqueue_stream_input_posts:
  assumes "ensure_tlb_mapping ops p sz h = (Inr (), h1)"
    and "0 < mx" and "unat sz + unat mx \<le> 2 ^ 64"
  shows "enqueue_stream_input mx ops p sz stream is_last h =
    (Inr (), h1\<lparr>host_cthread := host_cthread h1 @ read_calls stream is_last (chunks_of mx p sz)\<rparr>)"
proof -
  have "for_offsets sz mx (\<lambda>off cs. cs @ [LocalRead (p + off) (min (sz - off) mx) stream
        (sz \<le> off + mx \<and> is_last)]) 0 cs = Some (cs @ read_calls stream is_last (chunks_of mx p sz))" for cs
    using for_offsets_fold [OF assms(2,3), of 0 _ cs]
    by (simp add: fold_append read_calls_def chunks_of_def chunk_at_def comp_def)
  then show ?thesis
    by (simp add: enqueue_stream_input_def seqE_def assms(1) on_cthread_def onE_def Let_def)
qed

text \<open>Whatever the arguments, what returns has mapped pages that were not mapped and then posted reads.\<close>

lemma for_offsets_inv:
  assumes "for_offsets limit step body off s = Some t" and "P s" and "\<And>off s. P s \<Longrightarrow> P (body off s)"
  shows "P t"
proof -
  have "P s \<longrightarrow> (\<forall>off s. P s \<longrightarrow> P (body off s)) \<longrightarrow> P t"
    by (rule for_offsets.raw_induct
        [where P = "\<lambda>limit step body off s t. P s \<longrightarrow> (\<forall>off s. P s \<longrightarrow> P (body off s)) \<longrightarrow> P t", OF _ assms(1)])
      (auto split: if_splits)
  then show ?thesis using assms(2,3) by blast
qed

fun is_read :: "coyote_call \<Rightarrow> bool" where
  "is_read (LocalRead a n i l) = True"
| "is_read _ = False"

lemma enqueue_stream_input_frame:
  assumes "enqueue_stream_input mx ops p sz stream is_last h = (Inr (), h')"
  obtains new ds where "h' = (after_maps new h)\<lparr>host_cthread := host_cthread h @ user_maps new @ ds\<rparr>"
    "distinct (map fst new)" "fst ` set new \<inter> existing_tlb_mappings h = {}" "list_all is_read ds"
proof -
  obtain h1 where map: "ensure_tlb_mapping ops p sz h = (Inr (), h1)"
    using assms by (auto simp: enqueue_stream_input_def seqE_def split: prod.splits sum.splits)
  obtain new where h1: "h1 = after_maps new h" and new: "distinct (map fst new)"
    "fst ` set new \<inter> existing_tlb_mappings h = {}"
    using map by (rule ensure_tlb_mapping_after_maps)
  let ?body = "\<lambda>off cs. cs @ [LocalRead (p + off) (min (sz - off) mx) stream (sz \<le> off + mx \<and> is_last)]"
  obtain cs where loop: "for_offsets sz mx ?body 0 (host_cthread h1) = Some cs" and h': "h' = h1\<lparr>host_cthread := cs\<rparr>"
    using assms by (auto simp: enqueue_stream_input_def seqE_def map on_cthread_def onE_def Let_def
        split: option.splits)
  have "\<exists>ds. cs = host_cthread h1 @ ds \<and> list_all is_read ds"
    by (rule for_offsets_inv [OF loop]) auto
  then show thesis using that [OF _ new] h' h1 by auto
qed

lemma enqueue_stream_output_posts:
  assumes "ensure_tlb_mapping ops p sz h = (Inr (), h1)"
    and "0 < mx" and "unat sz + unat mx \<le> 2 ^ 64"
  shows "enqueue_stream_output mx ops p sz stream h =
    (Inr (of_nat (length (chunks_of mx p sz))),
     h1\<lparr>host_cthread := host_cthread h1 @ write_calls stream (chunks_of mx p sz)\<rparr>)"
proof -
  have "for_offsets sz mx (\<lambda>off (n, cs). (n + 1, cs @ [LocalWrite (p + off) (min (sz - off) mx) stream
        (sz \<le> off + mx)])) 0 (0 :: u64, cs) =
      Some (of_nat (length (chunks_of mx p sz)), cs @ write_calls stream (chunks_of mx p sz))" for cs
    using for_offsets_fold [OF assms(2,3), of 0 "\<lambda>off (n, cs). (n + 1, cs @ [LocalWrite (p + off)
        (min (sz - off) mx) stream (sz \<le> off + mx)])" "(0 :: u64, cs)"]
    by (simp add: fold_append_count write_calls_def chunks_of_def chunk_at_def comp_def)
  then show ?thesis
    by (simp add: enqueue_stream_output_def seqE_def assms(1) on_cthread_def onE_def)
qed

lemma transfers_no_mapping [simp]:
  "list_all (Not \<circ> is_mapping) (read_calls s l cs)" "list_all (Not \<circ> is_mapping) (write_calls s cs)"
  by (simp_all add: read_calls_def write_calls_def list_all_iff split_beta)

lemma filter_transfers [simp]:
  "filter (Not \<circ> is_mapping) (read_calls s l cs) = read_calls s l cs"
  "filter (Not \<circ> is_mapping) (write_calls s cs) = write_calls s cs"
  using transfers_no_mapping(1) [of s l cs] transfers_no_mapping(2) [of s cs] by (simp_all add: filter_id_conv list_all_iff)

text \<open>Over any pool \<open>offload_to_card\<close> returns when the range is inside pages, and only off-loads.\<close>

definition offload_calls :: "(ptr \<times> u64) list \<Rightarrow> cthread" where
  "offload_calls os = map (\<lambda>(a, m). LocalOffload a m) os"

lemma offload_no_mapping [simp]: "list_all (Not \<circ> is_mapping) (offload_calls os)"
  by (simp add: offload_calls_def list_all_iff split_beta)

lemma offload_loop_paged:
  assumes "paged ops (host_pool h) b m" and "e = b + m"
  shows "\<exists>os. offload_loop mx ops e b h =
    Some (Inr (), h\<lparr>host_cthread := host_cthread h @ offload_calls os\<rparr>)"
  using assms
proof (induction "unat m" arbitrary: b m h rule: less_induct)
  case less
  note pg = less.prems(1) and e = less.prems(2)
  have stop: "\<exists>os. offload_loop mx ops e a g = Some (Inr (), g\<lparr>host_cthread := host_cthread g @ offload_calls os\<rparr>)"
    if "\<not> a < e" for a g
    using that by (intro exI [of _ "[]"], subst offload_loop.simps) (simp add: offload_calls_def)
  show ?case
  proof (cases "b < e")
    case True
    then have pos: "0 < m" using e by (auto simp: word_gt_0)
    obtain pa pn where page: "pool_get_page_boundaries ops b (host_pool h) = Inr (pa, pn)"
      "no_wrap pa pn" "unat b \<in> range_of pa pn"
      by (rule paged_page [OF pg pos])
    let ?h = "h\<lparr>host_cthread := host_cthread h @ [LocalOffload b (min (min (pa + pn) e - b) mx)]\<rparr>"
    have step: "offload_loop mx ops e b h = offload_loop mx ops e (pa + pn) ?h"
      using True page(1) by (subst offload_loop.simps) (simp add: Let_def)
    have "\<exists>os. offload_loop mx ops e (pa + pn) ?h =
        Some (Inr (), ?h\<lparr>host_cthread := host_cthread ?h @ offload_calls os\<rparr>)"
    proof (cases "pa + pn < e")
      case True
      note rest = next_page [OF pg page(2,3) True [unfolded e]]
      show ?thesis by (rule less.hyps [OF rest(1)]) (use rest(3) e in simp_all)
    qed (rule stop)
    then obtain os where "offload_loop mx ops e (pa + pn) ?h =
        Some (Inr (), ?h\<lparr>host_cthread := host_cthread ?h @ offload_calls os\<rparr>)" by blast
    then show ?thesis
      unfolding step
      by (intro exI [of _ "(b, min (min (pa + pn) e - b) mx) # os"]) (simp add: offload_calls_def)
  qed (rule stop)
qed

lemma offload_to_card_paged:
  assumes "paged ops (host_pool h) a sz"
  obtains os where "offload_to_card mx ops a sz h = (Inr (), h\<lparr>host_cthread := host_cthread h @ offload_calls os\<rparr>)"
  using offload_loop_paged [OF assms refl, of mx] that by (auto simp: offload_to_card_def)

text \<open>The mapping of the range comes first, so both calls act on the state it leaves.\<close>

lemma transfer_state:
  assumes "memory_pool ops pool_inv live" and "pool_inv (host_pool h)" and "tlb_inv h"
    and "live (host_pool h) q = Some n" and "range_of p sz \<subseteq> range_of q n" and "0 < sz"
  obtains new where "ensure_tlb_mapping ops p sz h = (Inr (), after_maps new h)"
    "covered ops (after_maps new h) p sz" "tlb_inv (after_maps new h)" "no_wrap p sz"
proof -
  have pg: "paged ops (host_pool h) p sz"
    by (rule memory_pool.live_paged [OF assms(1,2,4-6)])
  obtain new where new: "ensure_tlb_mapping ops p sz h = (Inr (), after_maps new h)"
    "distinct (map fst new)" "fst ` set new \<inter> existing_tlb_mappings h = {}"
    "covered ops (after_maps new h) p sz"
    using ensure_tlb_mapping_maps [OF pg assms(6)] by metis
  have "tlb_inv (after_maps new h)" by (rule tlb_inv_maps [OF assms(3) new(2,3)]) simp_all
  with new(1,4) pg show thesis by (intro that [of new]) (simp_all add: paged_def)
qed

section \<open>Properties\<close>

text \<open>C24. Sending a range to a stream: for any range of a live buffer of any pool, \<open>enqueue_stream_input\<close> returns
  after it has mapped the pages that were missing and posted reads that together cover the bytes of
  the range, each byte once and in order, no read being empty or longer than the driver allows;
  the end-of-stream flag is on the last read only, and only when the caller asked for it.\<close>

theorem stream_input_delivers_range:
  assumes "memory_pool ops pool_inv live" and "pool_inv (host_pool h)" and "tlb_inv h"
    and "live (host_pool h) q = Some n" and "range_of p sz \<subseteq> range_of q n" and "0 < sz"
    and "0 < mx" and "unat sz + unat mx \<le> 2 ^ 64"
  shows "\<exists>new cs h'. enqueue_stream_input mx ops p sz stream is_last h = (Inr (), h') \<and>
    host_cthread h' = host_cthread h @ user_maps new @ read_calls stream is_last cs \<and>
    chunk_bytes cs = [unat p ..< unat p + unat sz] \<and> (\<forall>(a, m, l) \<in> set cs. 0 < m \<and> m \<le> mx) \<and>
    map (snd \<circ> snd) cs = replicate (length cs - 1) False @ [True] \<and>
    covered ops h' p sz \<and> tlb_inv h' \<and> host_pool h' = host_pool h"
proof -
  obtain new where new: "ensure_tlb_mapping ops p sz h = (Inr (), after_maps new h)"
    "covered ops (after_maps new h) p sz" "tlb_inv (after_maps new h)" "no_wrap p sz"
    by (rule transfer_state [OF assms(1-6)])
  let ?cs = "chunks_of mx p sz"
  let ?h = "(after_maps new h)\<lparr>host_cthread := host_cthread (after_maps new h) @ read_calls stream is_last ?cs\<rparr>"
  note shape = chunks_of_shape [OF assms(7,8) new(4) assms(6)]
  have "covered ops ?h p sz" by (rule covered_mono [OF new(2)]) simp_all
  moreover have "tlb_inv ?h" by (rule tlb_inv_calls [OF new(3)]) auto
  ultimately show ?thesis
    using enqueue_stream_input_posts [OF new(1) assms(7,8), of stream is_last] shape
    by (intro exI [of _ new] exI [of _ ?cs] exI [of _ ?h]) auto
qed

theorem stream_input_delivers_range_witness:
  "\<exists>new cs h'. enqueue_stream_input 64 SimpleMemoryPool_ops 65664 200 1 True example_host = (Inr (), h') \<and>
    host_cthread h' = user_maps new @ read_calls 1 True cs \<and> chunk_bytes cs = [65664 ..< 65864]"
proof -
  have "sp_live (host_pool example_host) 65664 = Some 200"
    using example_live_2 by (simp add: example_host_def)
  from stream_input_delivers_range [OF simple_pool.memory_pool_axioms example_host_inv this order_refl, of 64 1 True]
  show ?thesis by (auto simp: example_host_def)
qed

text \<open>Receiving a stream in a range: \<open>enqueue_stream_output\<close> of the examples posts writes that cover the bytes
  of the range, each once and in order, only the last of them flagged, and returns exactly the
  number of transfers it has posted, the number of completions the caller then waits for.\<close>

theorem stream_output_counts_transfers:
  assumes "memory_pool ops pool_inv live" and "pool_inv (host_pool h)" and "tlb_inv h"
    and "live (host_pool h) q = Some n" and "range_of p sz \<subseteq> range_of q n" and "0 < sz"
    and "0 < mx" and "unat sz + unat mx \<le> 2 ^ 64"
  shows "\<exists>new cs h'. enqueue_stream_output mx ops p sz stream h = (Inr (of_nat (length cs)), h') \<and>
    length cs = num_chunks (unat sz) (unat mx) \<and>
    host_cthread h' = host_cthread h @ user_maps new @ write_calls stream cs \<and>
    chunk_bytes cs = [unat p ..< unat p + unat sz] \<and> (\<forall>(a, m, l) \<in> set cs. 0 < m \<and> m \<le> mx) \<and>
    map (snd \<circ> snd) cs = replicate (length cs - 1) False @ [True] \<and>
    covered ops h' p sz \<and> tlb_inv h' \<and> host_pool h' = host_pool h"
proof -
  obtain new where new: "ensure_tlb_mapping ops p sz h = (Inr (), after_maps new h)"
    "covered ops (after_maps new h) p sz" "tlb_inv (after_maps new h)" "no_wrap p sz"
    by (rule transfer_state [OF assms(1-6)])
  let ?cs = "chunks_of mx p sz"
  let ?h = "(after_maps new h)\<lparr>host_cthread := host_cthread (after_maps new h) @ write_calls stream ?cs\<rparr>"
  note shape = chunks_of_shape [OF assms(7,8) new(4) assms(6)]
  have "covered ops ?h p sz" by (rule covered_mono [OF new(2)]) simp_all
  moreover have "tlb_inv ?h" by (rule tlb_inv_calls [OF new(3)]) auto
  ultimately show ?thesis
    using enqueue_stream_output_posts [OF new(1) assms(7,8), of stream] shape
    by (intro exI [of _ new] exI [of _ ?cs] exI [of _ ?h]) auto
qed

theorem stream_output_counts_transfers_witness:
  "\<exists>new cs h'. enqueue_stream_output 64 SimpleMemoryPool_ops 65664 200 1 example_host = (Inr 4, h') \<and>
    host_cthread h' = user_maps new @ write_calls 1 cs \<and> length cs = 4"
proof -
  have "sp_live (host_pool example_host) 65664 = Some 200"
    using example_live_2 by (simp add: example_host_def)
  note ex = stream_output_counts_transfers [OF simple_pool.memory_pool_axioms example_host_inv this order_refl, of 64 1]
  obtain new cs h' where
    "enqueue_stream_output 64 SimpleMemoryPool_ops 65664 200 1 example_host = (Inr (of_nat (length cs)), h')"
    "length cs = 4" "host_cthread h' = user_maps new @ write_calls 1 cs"
    using ex by (auto simp: example_host_def num_chunks_def)
  then show ?thesis by (intro exI [of _ new] exI [of _ cs] exI [of _ h']) simp
qed

end
