(* ===== verification/Output_System.thy ===== *)
theory Output_System
  imports Acquire Hardware Readers Transfers
begin

text \<open>
  The output path as a whole: the manager, the writers of the FPGA, the interrupts under way between
  them, and the clients that send input, take buffers from handles and drop buffers and handles. The writers are an
  environment: each takes the buffers written to its register in order and raises an interrupt
  for a buffer with any number of bytes that fits into it; interrupts of all streams arrive in the
  order in which they were raised. The invariant links the queue of the host to the queue of the
  device, which is what makes the host attribute an interrupt to the buffer the device has used.
  The steps are the calls that return: a call that throws is no step, and \<open>flush_buffers\<close>, after which
  the device no longer has the buffers that the host still counts, is none either.
\<close>

section \<open>Destroying handles\<close>

lemma live_blocks_unique:
  assumes "add_mset (q, n) R = live_blocks (m :: ptr \<rightharpoonup> u64)"
  shows "m q = Some n" and "live_blocks (m(q := None)) = R"
proof -
  have "(q, n) \<in># live_blocks m" using assms by (metis union_single_eq_member)
  then show q: "m q = Some n" by (simp add: live_blocks_mem)
  then have "live_blocks m = add_mset (q, n) (live_blocks (m(q := None)))"
    by (simp add: live_blocks_remove)
  with assms show "live_blocks (m(q := None)) = R" by simp
qed

lemma queue_blocks_concat: "queue_blocks f qs = image_mset f (mset (concat qs))"
  by (induction qs) (simp_all add: queue_blocks_def)

text \<open>Freeing a queue, given what freeing a block does; \<open>E\<close> is what is known when a call throws.\<close>

lemma free_queue_wp:
  fixes live :: "'p \<Rightarrow> ptr \<rightharpoonup> u64"
  assumes free: "\<And>p q n sz al. pinv p \<Longrightarrow> live p q = Some n \<Longrightarrow>
      wp (pool_free ops q sz al) (\<lambda>_ p'. pinv p' \<and> live p' = (live p)(q := None)) E p"
    and "pinv p" and "image_mset f (mset bs) + R = live_blocks (live p)" and "\<And>b. fst (f b) = buf_ptr b"
  shows "wp (free_buffers_in_queue ops bs) (\<lambda>_ p'. pinv p' \<and> live_blocks (live p') = R) E p"
  using assms(2,3)
proof (induction bs arbitrary: p)
  case Nil
  then show ?case by (simp add: wp_simps)
next
  case (Cons b bs)
  have fb: "f b = (buf_ptr b, snd (f b))" by (metis assms(4) prod.collapse)
  then have "add_mset (buf_ptr b, snd (f b)) (image_mset f (mset bs) + R) = live_blocks (live p)"
    using Cons.prems(2) by simp
  note u = live_blocks_unique [OF this]
  show ?case
    unfolding free_buffers_in_queue.simps wp_seqE
  proof (rule wp_mono [OF free [OF Cons.prems(1) u(1)]], goal_cases)
    case (1 x p')
    then have p': "pinv p'" and lp: "live p' = (live p)(buf_ptr b := None)" by simp_all
    show ?case
      by (rule Cons.IH [OF p']) (simp only: lp u(2))
  qed
qed

context memory_pool
begin

lemma free_buffers_in_queue_wp:
  assumes "pool_inv p" and "image_mset f (mset bs) + R = live_blocks (live p)"
    and "\<And>b. fst (f b) = buf_ptr b"
  shows "wp (free_buffers_in_queue ops bs)
    (\<lambda>_ p'. pool_inv p' \<and> live_blocks (live p') = R) (\<lambda>_ p'. pool_inv p') p"
proof (rule free_queue_wp [where f = f and pinv = pool_inv and live = live, OF _ assms])
  show "wp (pool_free ops q sz al) (\<lambda>_ p'. pool_inv p' \<and> live p' = (live p)(q := None)) (\<lambda>_ p'. pool_inv p') p"
    if "pool_inv p" and "live p q = Some n" for p q n sz al
    by (rule wp_mono [OF free_law [OF that]]) auto
qed

text \<open>The destructor of a handle gives back the buffers that were not taken.\<close>

lemma OutputHandle_destroy_wp:
  assumes "pool_inv p" and "handle_blocks h + R = live_blocks (live p)"
  shows "wp (OutputHandle_destroy ops h)
    (\<lambda>h' p'. pool_inv p' \<and> live_blocks (live p') = R \<and> handle_blocks h' = {#} \<and>
       oh_output_buffers h' = map (\<lambda>_. []) (oh_output_buffers h) \<and> oh_NUM_STREAMS h' = oh_NUM_STREAMS h \<and>
       oh_active_streams h' = oh_active_streams h \<and> oh_finished_streams h' = oh_finished_streams h \<and>
       callback_trace h' = callback_trace h \<and> oh_callback_thread h' = None)
    (\<lambda>_ p'. pool_inv p') p"
proof -
  have "image_mset out_block (mset (concat (oh_output_buffers h))) + R = live_blocks (live p)"
    using assms(2) by (simp add: handle_blocks_def queue_blocks_concat)
  note free = free_buffers_in_queue_wp [OF assms(1) this]
  have nil: "queue_blocks out_block (map (\<lambda>_. []) qs) = {#}" for qs
    by (induction qs) (simp_all add: queue_blocks_def)
  have oh_join: "oh_output_buffers (join_callback_thread h) = oh_output_buffers h"
    by (simp add: join_callback_thread_def split: option.split)
  show ?thesis
    unfolding OutputHandle_destroy_def Let_def oh_join wp_seqE
    by (rule wp_mono [OF free])
      (auto simp: wp_simps nil handle_blocks_def out_block_def join_callback_thread_def
        callback_trace_def split: option.split)
qed

end

section \<open>What clients do\<close>

lemma obm_inv_others:
  assumes "obm_inv pinv live c X s" and "obm_shape c s'" and "pinv (host_pool s')"
    and "existing_tlb_mappings s' = existing_tlb_mappings s" and "host_cthread s' = host_cthread s"
    and "live_blocks (live (host_pool s')) + held_blocks s + X =
      held_blocks s' + X' + live_blocks (live (host_pool s))"
  shows "obm_inv pinv live c X' s'"
proof -
  have "held_blocks s + X = live_blocks (live (host_pool s))"
    using assms(1) by (simp add: obm_inv_def)
  with assms(6) have "held_blocks s' + X' = live_blocks (live (host_pool s'))"
    by (metis add_right_cancel add.assoc)
  then show ?thesis
    using assms(1-5) by (simp add: obm_inv_def tlb_inv_def)
qed

lemma obm_inv_take:
  assumes inv: "obm_inv pinv live c X s" and r: "r < length (handles s)"
    and i: "i < length (oh_output_buffers (handles s ! r))"
    and out: "oh_output_buffers (handles s ! r) ! i = b # rest"
  shows "obm_inv pinv live c (add_mset (out_block b) X) (s\<lparr>handles := (handles s)[r :=
    (handles s ! r)\<lparr>oh_output_buffers := (oh_output_buffers (handles s ! r))[i := rest]\<rparr>]\<rparr>)"
    (is "obm_inv _ _ _ _ (s\<lparr>handles := (handles s)[r := ?h]\<rparr>)")
proof (rule obm_inv_others [OF inv])
  have shape: "obm_shape c s" using inv by (simp add: obm_inv_def)
  then have "handle_shape (NUM_STREAMS c) ?h"
    using r by (simp add: obm_shape_def handle_shape_def)
  with shape show "obm_shape c (s\<lparr>handles := (handles s)[r := ?h]\<rparr>)"
    by (auto intro!: obm_shape_queues [OF shape] simp: obm_shape_def
        dest: set_update_subset_insert [THEN subsetD])
  have "handle_blocks (handles s ! r) = handle_blocks ?h + {#out_block b#}"
    by (simp add: handle_blocks_def queue_blocks_pop [OF i out])
  then have "sum_list (map handle_blocks (handles s)) =
      sum_list (map handle_blocks ((handles s)[r := ?h])) + {#out_block b#}"
    by (rule sum_list_map_update_minus [OF r])
  then show "live_blocks (live (host_pool (s\<lparr>handles := (handles s)[r := ?h]\<rparr>))) + held_blocks s + X =
      held_blocks (s\<lparr>handles := (handles s)[r := ?h]\<rparr>) + add_mset (out_block b) X +
        live_blocks (live (host_pool s))"
    by (simp add: held_blocks_def)
qed (use inv in \<open>simp_all add: obm_inv_def\<close>)

lemma obm_inv_drop:
  assumes inv: "obm_inv pinv live c (add_mset (q, n) X) s" and p: "pinv p"
    and lv: "live p = (live (host_pool s))(q := None)"
  shows "obm_inv pinv live c X (s\<lparr>host_pool := p\<rparr>)"
proof (rule obm_inv_others [OF inv])
  have "(q, n) \<in># held_blocks s + add_mset (q, n) X" by simp
  then have "(q, n) \<in># live_blocks (live (host_pool s))"
    using inv unfolding obm_inv_def by metis
  then have "live (host_pool s) q = Some n" by (simp add: live_blocks_mem)
  then have "live_blocks (live (host_pool s)) = add_mset (q, n) (live_blocks (live p))"
    by (simp add: live_blocks_remove lv)
  then show "live_blocks (live (host_pool (s\<lparr>host_pool := p\<rparr>))) + held_blocks s + add_mset (q, n) X =
      held_blocks (s\<lparr>host_pool := p\<rparr>) + X + live_blocks (live (host_pool s))"
    by (simp add: held_blocks_def)
qed (use inv p in \<open>simp_all add: obm_inv_def obm_shape_def\<close>)

lemma others_live:
  assumes "obm_inv pinv live c X s" and "(q, n) \<in># X"
  shows "live (host_pool s) q = Some n"
proof -
  have "(q, n) \<in># held_blocks s + X" using assms(2) by simp
  then have "(q, n) \<in># live_blocks (live (host_pool s))"
    using assms(1) unfolding obm_inv_def by metis
  then show ?thesis by (simp add: live_blocks_mem)
qed

text \<open>
  The last client drops its handle: its destructor runs when the queues of the manager do not have it
  any more. When a client drops a handle earlier, it is the interrupt that takes the handle out of
  its last queue after which the destructor runs, which is then the next step.
\<close>

definition release_handle :: "'p MemoryPool \<Rightarrow> nat \<Rightarrow> ('p obm, unit) action" where
  "release_handle ops r =
     seqE (readE handles) (\<lambda>hs.
     seqE (liftE (vec_at hs r)) (\<lambda>h.
     seqE (on_pool (OutputHandle_destroy ops h)) (\<lambda>h'.
     modifyE (\<lambda>s. s\<lparr>handles := hs[r := h']\<rparr>))))"

definition handle_unused :: "nat \<Rightarrow> 'p obm \<Rightarrow> bool" where
  "handle_unused r s \<longleftrightarrow> list_all (\<lambda>q. r \<notin> set q) (enqueued_handles s)"

lemma reads_no_mapping: "list_all is_read ds \<Longrightarrow> list_all (Not \<circ> is_mapping) ds"
  by (rule list.pred_mono_strong, assumption) (auto elim: is_read.elims)

lemma csr_writes_reads: "list_all is_read ds \<Longrightarrow> csr_writes a ds = []"
  by (induction ds) (auto simp: csr_writes_def elim: is_read.elims)

section \<open>The system\<close>

text \<open>
  \<open>sys_fetched i\<close> counts the buffers of stream \<open>i\<close> that the writer has used up, \<open>sys_irqs\<close> are
  the interrupts raised and not handled yet, each with the register value of the buffer it is for
  (a ghost: the interrupt itself carries only the word), and \<open>sys_client\<close> are the buffers that
  clients have taken and not dropped.
\<close>

record 'p system =
  sys_host :: "'p obm"
  sys_fetched :: "stream_t \<Rightarrow> nat"
  sys_irqs :: "(u32 \<times> u64 option) list"
  sys_client :: "Buffer list"

definition buffer_bytes :: "u64 \<Rightarrow> nat" where
  "buffer_bytes v = unat (bt_size (buffer_t_of v)) * 65536"

definition uses_buffer :: "obm_params \<Rightarrow> 28 word \<Rightarrow> bool" where
  "uses_buffer c n \<longleftrightarrow> n > 0 \<or> empty_stream_consumes_buffer (obm_mem_config c)"

inductive sys_step :: "obm_params \<Rightarrow> 'p MemoryPool \<Rightarrow> 'p system \<Rightarrow> 'p system \<Rightarrow> bool"
  for c :: obm_params and ops :: "'p MemoryPool" where
  writer_uses_buffer:
    "uses_buffer c n \<Longrightarrow> ucast i < NUM_STREAMS c \<Longrightarrow>
     sys_fetched s (ucast i) < length (csr_writes (stream_csr c (ucast i)) (host_cthread (sys_host s))) \<Longrightarrow>
     v = csr_writes (stream_csr c (ucast i)) (host_cthread (sys_host s)) ! sys_fetched s (ucast i) \<Longrightarrow>
     unat n \<le> buffer_bytes v \<Longrightarrow>
     sys_step c ops s (s\<lparr>sys_fetched := (sys_fetched s)(ucast i := Suc (sys_fetched s (ucast i))),
       sys_irqs := sys_irqs s @ [(notify_value i n is_last, Some v)]\<rparr>)"
| writer_sees_no_data:
    "\<not> uses_buffer c 0 \<Longrightarrow> ucast i < NUM_STREAMS c \<Longrightarrow>
     sys_step c ops s (s\<lparr>sys_irqs := sys_irqs s @ [(notify_value i 0 is_last, None)]\<rparr>)"
| host_interrupt:
    "sys_irqs s = (w, v) # rest \<Longrightarrow> handle_fpga_interrupt c ops w (sys_host s) = (Inr (), h') \<Longrightarrow>
     sys_step c ops s (s\<lparr>sys_host := h', sys_irqs := rest\<rparr>)"
| host_acquire:
    "acquire_output_handle c ops m (sys_host s) = (Inr r, h') \<Longrightarrow>
     sys_step c ops s (s\<lparr>sys_host := h'\<rparr>)"
| host_acquire_sized:
    "acquire_output_handle_sized c ops i sz (sys_host s) = (Inr r, h') \<Longrightarrow>
     sys_step c ops s (s\<lparr>sys_host := h'\<rparr>)"
| client_takes:
    "on_handle r (get_next_stream_output i) (sys_host s) = (Inr (Returns (Some b)), h') \<Longrightarrow>
     sys_step c ops s (s\<lparr>sys_host := h', sys_client := b # sys_client s\<rparr>)"
| client_drops:
    "b \<in> set (sys_client s) \<Longrightarrow> on_pool (BufferDeleter ops b) (sys_host s) = (Inr (), h') \<Longrightarrow>
     sys_step c ops s (s\<lparr>sys_host := h', sys_client := remove1 b (sys_client s)\<rparr>)"
| client_releases:
    "handle_unused r (sys_host s) \<Longrightarrow> release_handle ops r (sys_host s) = (Inr (), h') \<Longrightarrow>
     sys_step c ops s (s\<lparr>sys_host := h'\<rparr>)"
| client_sends:
    "enqueue_stream_input mx ops p sz i l (sys_host s) = (Inr (), h') \<Longrightarrow>
     sys_step c ops s (s\<lparr>sys_host := h'\<rparr>)"

inductive sys_reachable :: "obm_params \<Rightarrow> 'p MemoryPool \<Rightarrow> 'p host \<Rightarrow> 'p system \<Rightarrow> bool"
  for c :: obm_params and ops :: "'p MemoryPool" and h :: "'p host" where
  sys_start: "sys_reachable c ops h
     \<lparr>sys_host = obm_start c h, sys_fetched = (\<lambda>_. 0), sys_irqs = [], sys_client = []\<rparr>"
| sys_next: "sys_reachable c ops h s \<Longrightarrow> sys_step c ops s s' \<Longrightarrow> sys_reachable c ops h s'"

section \<open>The invariant\<close>

text \<open>The stream an interrupt is for, and the buffers of a stream whose interrupts are under way.\<close>

definition irq_stream :: "u32 \<Rightarrow> stream_t" where
  "irq_stream w = (case parse_interrupt_value w of Inl e \<Rightarrow> 0 | Inr v \<Rightarrow> iv_stream_id v)"

fun pending :: "(u32 \<times> u64 option) list \<Rightarrow> stream_t \<Rightarrow> u64 list" where
  "pending [] i = []"
| "pending ((w, None) # irqs) i = pending irqs i"
| "pending ((w, Some v) # irqs) i = (if irq_stream w = i then v # pending irqs i else pending irqs i)"

text \<open>What the writers raise: a size that fits into the buffer, and no buffer only when none is used.\<close>

definition irq_ok :: "obm_params \<Rightarrow> u32 \<times> u64 option \<Rightarrow> bool" where
  "irq_ok c irq \<longleftrightarrow>
     (\<exists>i n l. fst irq = notify_value i n l \<and> ucast i < NUM_STREAMS c \<and>
        (case snd irq of None \<Rightarrow> n = 0 \<and> \<not> uses_buffer c 0
         | Some v \<Rightarrow> uses_buffer c n \<and> unat n \<le> buffer_bytes v))"

text \<open>A buffer the hardware can be given.\<close>

definition buffer_ok :: "Buffer \<Rightarrow> bool" where
  "buffer_ok b \<longleftrightarrow> unat (buf_ptr b) < 2 ^ 48 \<and> 0 < buf_capacity b \<and>
     unat (buf_capacity b) < 2 ^ 28 \<and> 65536 dvd unat (buf_capacity b)"

definition sys_inv ::
  "('p \<Rightarrow> bool) \<Rightarrow> ('p \<Rightarrow> ptr \<rightharpoonup> u64) \<Rightarrow> obm_params \<Rightarrow> (ptr \<times> u64) multiset \<Rightarrow> 'p system \<Rightarrow> bool" where
  "sys_inv pinv live c X s \<longleftrightarrow>
     obm_inv pinv live c (image_mset out_block (mset (sys_client s)) + X) (sys_host s) \<and>
     obm_synced c (pending (sys_irqs s)) (sys_fetched s) (sys_host s) \<and>
     list_all (irq_ok c) (sys_irqs s) \<and>
     (\<forall>q \<in> set (enqueued_buffers (sys_host s)). list_all buffer_ok q)"

definition params_ok :: "obm_params \<Rightarrow> bool" where
  "params_ok c \<longleftrightarrow> 0 < BUFFER_CAPACITY c \<and> unat (BUFFER_CAPACITY c) < 2 ^ 28 \<and>
     65536 dvd unat (BUFFER_CAPACITY c)"

lemma params_ok_init: "OutputBufferManager_init mc m n cap = Inr c \<Longrightarrow> params_ok c"
  by (auto simp: OutputBufferManager_init_def params_ok_def stf_consts word_less_nat_alt
      word_le_nat_alt unat_mod dvd_eq_mod_eq_0 word_unat_eq_iff split: if_splits)

lemma params_ok_request: "params_ok c \<Longrightarrow> unat (BUFFER_CAPACITY c) \<le> max_request"
  by (simp add: params_ok_def max_request_def)

lemma buffer_ok_capacity:
  "params_ok c \<Longrightarrow> buf_capacity b = BUFFER_CAPACITY c \<Longrightarrow> unat (buf_ptr b) < 2 ^ 48 \<Longrightarrow> buffer_ok b"
  by (simp add: params_ok_def buffer_ok_def)

lemma buffer_bytes_value: "buffer_ok b \<Longrightarrow> buffer_bytes (buffer_register_value b) = unat (buf_capacity b)"
  by (simp add: buffer_ok_def buffer_bytes_def buffer_t_of_value)

lemma irq_stream_notify [simp]: "irq_stream (notify_value i n l) = ucast i"
  by (simp add: irq_stream_def parse_notify_value)

lemma pending_append: "pending (xs @ ys) i = pending xs i @ pending ys i"
  by (induction xs i rule: pending.induct) auto

section \<open>Each step keeps the invariant\<close>

lemma unat_ucast_28_32: "unat (ucast (n :: 28 word) :: u32) = unat n"
proof -
  have "unat n < 2 ^ 32" by (rule less_trans [OF unsigned_less]) simp
  then show ?thesis by (simp add: unsigned_ucast_eq take_bit_nat_eq_self)
qed

lemma ucast_28_32_pos: "0 < (ucast (n :: 28 word) :: u32) \<longleftrightarrow> 0 < n"
  by (simp add: word_less_nat_alt unat_ucast_28_32)

lemma synced_front:
  assumes "obm_synced c pend f s" and "i < NUM_STREAMS c" and "pend i = v # vs"
  shows "\<exists>b bs. enqueued_buffers s ! unat i = b # bs \<and> buffer_register_value b = v"
  using assms by (cases "enqueued_buffers s ! unat i") (auto simp: obm_synced_def)

lemma synced_moved:
  assumes sync: "obm_synced c (pending ((w, v) # rest)) f s" and irq: "irq_ok c (w, v)"
    and w: "parse_interrupt_value w = Inr iv"
    and mv: "moved_to_handle c ops (iv_stream_id iv) (iv_bytes_written iv) (iv_last iv) s t"
    and shape: "obm_shape c s"
  shows "obm_synced c (pending rest) f t"
proof -
  obtain i n l where wi: "w = notify_value i n l" and i: "ucast i < NUM_STREAMS c"
    and v: "case v of None \<Rightarrow> n = 0 \<and> \<not> uses_buffer c 0
      | Some v \<Rightarrow> uses_buffer c n \<and> unat n \<le> buffer_bytes v"
    using irq by (auto simp: irq_ok_def)
  have iv: "iv_stream_id iv = ucast i" "iv_bytes_written iv = ucast n"
    using w by (auto simp: wi parse_notify_value)
  have len: "unat (ucast i :: stream_t) < length (enqueued_buffers s)"
    using shape i by (simp add: obm_shape_def word_less_nat_alt)
  have cs: "host_cthread t = host_cthread s" and bq: "enqueued_buffers s ! unat (ucast i :: stream_t) \<noteq> []"
    and enq: "enqueued_buffers t = (enqueued_buffers s)[unat (ucast i :: stream_t) :=
        if uses_buffer c n then tl (enqueued_buffers s ! unat (ucast i :: stream_t))
        else enqueued_buffers s ! unat (ucast i :: stream_t)]"
    using mv by (auto simp: moved_to_handle_def Let_def iv uses_buffer_def ucast_28_32_pos)
  show ?thesis
  proof (cases v)
    case None
    with v enq have "enqueued_buffers t = enqueued_buffers s" by simp
    with sync cs None show ?thesis by (simp add: obm_synced_def)
  next
    case (Some x)
    then have "uses_buffer c n" using v by simp
    with sync cs enq len Some wi show ?thesis
      by (auto simp: obm_synced_def nth_list_update map_tl dest: word_unat_eq_iff [THEN iffD2])
  qed
qed

lemma moved_buffers_ok:
  assumes "moved_to_handle c ops i n l s t" and "\<forall>q \<in> set (enqueued_buffers s). list_all buffer_ok q"
    and "unat i < length (enqueued_buffers s)"
  shows "\<forall>q \<in> set (enqueued_buffers t). list_all buffer_ok q"
proof
  fix q
  assume q: "q \<in> set (enqueued_buffers t)"
  let ?q = "enqueued_buffers s ! unat i"
  have "list_all buffer_ok ?q"
    using assms(2,3) by simp
  then show "list_all buffer_ok q"
    using q assms(1,2)
    by (auto simp: moved_to_handle_def Let_def list_all_iff dest!: set_update_subset_insert [THEN subsetD]
        dest: list.set_sel(2) split: if_splits)
qed

lemma enqueued_buffers_ok:
  assumes "buffers_enqueued c i bs s t" and "list_all buffer_ok bs"
    and "\<forall>q \<in> set (enqueued_buffers s). list_all buffer_ok q" and "unat i < length (enqueued_buffers s)"
  shows "\<forall>q \<in> set (enqueued_buffers t). list_all buffer_ok q"
  using assms by (auto simp: buffers_enqueued_def dest!: set_update_subset_insert [THEN subsetD])

lemma transfer_buffers_ok:
  "transfer_buffers n bs \<Longrightarrow> buffers_enqueued c i bs s t \<Longrightarrow> list_all buffer_ok bs"
  by (fastforce simp: transfer_buffers_def buffers_enqueued_def list_all_iff buffer_ok_def)

lemma acquired_buffers_ok:
  assumes "streams_acquired c m r {..< unat (NUM_STREAMS c)} s t" and "params_ok c"
    and "\<forall>q \<in> set (enqueued_buffers s). list_all buffer_ok q"
    and "obm_shape c s"
  shows "\<forall>q \<in> set (enqueued_buffers t). list_all buffer_ok q"
proof
  fix q
  assume "q \<in> set (enqueued_buffers t)"
  then obtain i where i: "i < unat (NUM_STREAMS c)" "q = enqueued_buffers t ! i"
    using assms(1) by (auto simp: in_set_conv_nth streams_acquired_def obm_shape_def)
  then have "list_all buffer_ok (enqueued_buffers s ! i)"
    using assms(3,4) by (auto simp: obm_shape_def)
  moreover have "if bit m i then \<exists>bs. q = enqueued_buffers s ! i @ bs \<and>
      (\<forall>b \<in> set bs. buf_capacity b = BUFFER_CAPACITY c \<and> unat (buf_ptr b) < 2 ^ 48)
    else q = enqueued_buffers s ! i"
    using assms(1) i by (auto simp: streams_acquired_def)
  ultimately show "list_all buffer_ok q"
    using buffer_ok_capacity [OF assms(2)] by (auto simp: list_all_iff split: if_splits)
qed

context memory_pool
begin

lemma host_interrupt_inv:
  assumes inv: "sys_inv pool_inv live c X s" and ok: "params_ok c"
    and irqs: "sys_irqs s = (w, v) # rest"
    and h: "handle_fpga_interrupt c ops w (sys_host s) = (Inr (), h')"
  shows "sys_inv pool_inv live c X (s\<lparr>sys_host := h', sys_irqs := rest\<rparr>)"
proof -
  let ?X = "image_mset out_block (mset (sys_client s)) + X"
  have oi: "obm_inv pool_inv live c ?X (sys_host s)"
    and sync: "obm_synced c (pending ((w, v) # rest)) (sys_fetched s) (sys_host s)"
    and irq: "irq_ok c (w, v)" "list_all (irq_ok c) rest"
    and bok: "\<forall>q \<in> set (enqueued_buffers (sys_host s)). list_all buffer_ok q"
    using inv by (simp_all add: sys_inv_def irqs)
  have shape: "obm_shape c (sys_host s)" using oi by (simp add: obm_inv_def)
  have cap: "0 < BUFFER_CAPACITY c" using ok by (simp add: params_ok_def)
  from wpD_Inr [OF handle_fpga_interrupt_wp [OF oi cap params_ok_request [OF ok]] h]
  obtain iv t bs where oi': "obm_inv pool_inv live c ?X h'"
    and iv: "parse_interrupt_value w = Inr iv" "iv_stream_id iv < NUM_STREAMS c"
    and mv: "moved_to_handle c ops (iv_stream_id iv) (iv_bytes_written iv) (iv_last iv) (sys_host s) t"
    and t: "obm_shape c t" and bs: "buffers_enqueued c (iv_stream_id iv) bs t h'"
      "\<forall>b \<in> set bs. buf_capacity b = BUFFER_CAPACITY c"
    by blast
  have len: "unat (iv_stream_id iv) < length (enqueued_buffers (sys_host s))"
    "unat (iv_stream_id iv) < length (enqueued_buffers t)"
    using shape t iv(2) by (simp_all add: obm_shape_def word_less_nat_alt)
  have "obm_synced c (pending rest) (sys_fetched s) h'"
    by (rule buffers_enqueued_synced [OF bs(1) synced_moved [OF sync irq(1) iv(1) mv shape] t iv(2)])
  moreover have "list_all buffer_ok bs"
    using bs buffer_ok_capacity [OF ok] by (auto simp: list_all_iff buffers_enqueued_def)
  then have "\<forall>q \<in> set (enqueued_buffers h'). list_all buffer_ok q"
    by (rule enqueued_buffers_ok [OF bs(1) _ moved_buffers_ok [OF mv bok len(1)] len(2)])
  ultimately show ?thesis
    using oi' irq(2) by (simp add: sys_inv_def)
qed

lemma host_acquire_inv:
  assumes inv: "sys_inv pool_inv live c X s" and ok: "params_ok c"
    and h: "acquire_output_handle c ops m (sys_host s) = (Inr r, h')"
  shows "sys_inv pool_inv live c X (s\<lparr>sys_host := h'\<rparr>)"
proof -
  let ?X = "image_mset out_block (mset (sys_client s)) + X"
  let ?s = "(sys_host s)\<lparr>handles := handles (sys_host s) @ [OutputHandle_init m (NUM_STREAMS c)]\<rparr>"
  have oi: "obm_inv pool_inv live c ?X (sys_host s)"
    and sync: "obm_synced c (pending (sys_irqs s)) (sys_fetched s) ?s"
    and bok: "\<forall>q \<in> set (enqueued_buffers ?s). list_all buffer_ok q"
    using inv by (simp_all add: sys_inv_def obm_synced_def)
  have shape: "obm_shape c ?s" using obm_inv_new_handle [OF oi] by (simp add: obm_inv_def)
  have cap: "0 < BUFFER_CAPACITY c" using ok by (simp add: params_ok_def)
  from wpD_Inr [OF acquire_output_handle_wp [OF oi cap params_ok_request [OF ok]] h]
  have oi': "obm_inv pool_inv live c ?X h'"
    and acq: "streams_acquired c m r {..< unat (NUM_STREAMS c)} ?s h'" by blast+
  then have "obm_synced c (pending (sys_irqs s)) (sys_fetched s) h'"
    using sync by (simp add: streams_acquired_def)
  with oi' acquired_buffers_ok [OF acq ok bok shape] inv show ?thesis
    by (simp add: sys_inv_def)
qed

lemma host_acquire_sized_inv:
  assumes inv: "sys_inv pool_inv live c X s"
    and h: "acquire_output_handle_sized c ops i n (sys_host s) = (Inr r, h')"
  shows "sys_inv pool_inv live c X (s\<lparr>sys_host := h'\<rparr>)"
proof -
  let ?X = "image_mset out_block (mset (sys_client s)) + X"
  let ?s = "(sys_host s)\<lparr>handles := handles (sys_host s) @ [OutputHandle_init (2 ^ unat i) (NUM_STREAMS c)]\<rparr>"
  have oi: "obm_inv pool_inv live c ?X (sys_host s)"
    and sync: "obm_synced c (pending (sys_irqs s)) (sys_fetched s) ?s"
    and bok: "\<forall>q \<in> set (enqueued_buffers ?s). list_all buffer_ok q"
    using inv by (simp_all add: sys_inv_def obm_synced_def)
  have shape: "obm_shape c ?s" using obm_inv_new_handle [OF oi] by (simp add: obm_inv_def)
  from wpD_Inr [OF acquire_output_handle_sized_wp [OF oi] h]
  obtain bs where oi': "obm_inv pool_inv live c ?X h'" and i: "i < NUM_STREAMS c"
    and bs: "transfer_buffers (unat n) bs" "buffers_enqueued c i bs ?s h'" by blast
  have "unat i < length (enqueued_buffers ?s)"
    using shape i by (simp add: obm_shape_def word_less_nat_alt)
  from enqueued_buffers_ok [OF bs(2) transfer_buffers_ok [OF bs] bok this]
    buffers_enqueued_synced [OF bs(2) sync shape i] oi' inv
  show ?thesis by (simp add: sys_inv_def)
qed

lemma client_takes_inv:
  assumes inv: "sys_inv pool_inv live c X s"
    and h: "on_handle r (get_next_stream_output i) (sys_host s) = (Inr (Returns (Some b)), h')"
  shows "sys_inv pool_inv live c X (s\<lparr>sys_host := h', sys_client := b # sys_client s\<rparr>)"
proof -
  let ?X = "image_mset out_block (mset (sys_client s)) + X" and ?h = "handles (sys_host s) ! r"
  have oi: "obm_inv pool_inv live c ?X (sys_host s)" using inv by (simp add: sys_inv_def)
  from h obtain hr where r: "r < length (handles (sys_host s))"
    and get: "get_next_stream_output i ?h = (Inr (Returns (Some b)), hr)"
    and h': "h' = (sys_host s)\<lparr>handles := (handles (sys_host s))[r := hr]\<rparr>"
    by (auto simp: on_handle_def onE_def split: if_splits prod.splits)
  from wpD_Inr [OF get_next_wp get] obtain rest where
    i: "unat i < length (oh_output_buffers ?h)" "oh_output_buffers ?h ! unat i = b # rest"
    and hr: "hr = ?h\<lparr>oh_output_buffers := (oh_output_buffers ?h)[unat i := rest]\<rparr>" by auto
  have "obm_inv pool_inv live c (add_mset (out_block b) ?X) h'"
    unfolding h' hr by (rule obm_inv_take [OF oi r i])
  with inv show ?thesis by (simp add: sys_inv_def obm_synced_def h')
qed

lemma client_drops_inv:
  assumes inv: "sys_inv pool_inv live c X s" and b: "b \<in> set (sys_client s)"
    and h: "on_pool (BufferDeleter ops b) (sys_host s) = (Inr (), h')"
  shows "sys_inv pool_inv live c X (s\<lparr>sys_host := h', sys_client := remove1 b (sys_client s)\<rparr>)"
proof -
  let ?X = "image_mset out_block (mset (remove1 b (sys_client s))) + X"
  have "mset (sys_client s) = add_mset b (mset (remove1 b (sys_client s)))"
    using b by simp
  then have "image_mset out_block (mset (sys_client s)) =
      add_mset (out_block b) (image_mset out_block (mset (remove1 b (sys_client s))))"
    by (metis image_mset_add_mset)
  then have oi: "obm_inv pool_inv live c (add_mset (buf_ptr b, buf_size b) ?X) (sys_host s)"
    using inv by (simp add: sys_inv_def out_block_def)
  have lv: "live (host_pool (sys_host s)) (buf_ptr b) = Some (buf_size b)"
    by (rule others_live [OF oi]) simp
  have pinv: "pool_inv (host_pool (sys_host s))" using oi by (simp add: obm_inv_def)
  from h obtain p where p: "BufferDeleter ops b (host_pool (sys_host s)) = (Inr (), p)"
    and h': "h' = (sys_host s)\<lparr>host_pool := p\<rparr>"
    by (auto simp: on_pool_def onE_def split: prod.splits)
  from wpD_Inr [OF BufferDeleter_wp [OF pinv lv] p] have "obm_inv pool_inv live c ?X h'"
    unfolding h' by (intro obm_inv_drop [OF oi]) simp_all
  with inv show ?thesis by (simp add: sys_inv_def obm_synced_def h')
qed

lemma release_handle_wp:
  assumes inv: "obm_inv pool_inv live c X s"
  shows "wp (release_handle ops r) (\<lambda>_ s'. obm_inv pool_inv live c X s' \<and> r < length (handles s) \<and>
      (\<exists>p g. s' = s\<lparr>host_pool := p, handles := (handles s)[r := g]\<rparr> \<and>
         oh_output_buffers g = map (\<lambda>_. []) (oh_output_buffers (handles s ! r)) \<and>
         oh_NUM_STREAMS g = oh_NUM_STREAMS (handles s ! r) \<and> oh_active_streams g = oh_active_streams (handles s ! r) \<and>
         oh_finished_streams g = oh_finished_streams (handles s ! r))) (\<lambda>_ _. True) s"
proof (cases "r < length (handles s)")
  case True
  let ?h = "handles s ! r"
  have pinv: "pool_inv (host_pool s)" and shape: "obm_shape c s" using inv by (simp_all add: obm_inv_def)
  let ?sum = "\<lambda>hs. sum_list (map handle_blocks hs)"
  let ?g0 = "?h\<lparr>oh_output_buffers := []\<rparr>"
  define R where "R = queue_blocks enq_block (enqueued_buffers s) + ?sum ((handles s)[r := ?g0]) + X"
  have sum: "?sum (handles s) = ?sum ((handles s)[r := g]) + handle_blocks ?h" if "handle_blocks g = {#}" for g
    by (rule sum_list_map_update_minus [OF True]) (simp add: that)
  have g0: "handle_blocks ?g0 = {#}" by (simp add: handle_blocks_def queue_blocks_def)
  have "handle_blocks ?h + R = live_blocks (live (host_pool s))"
    using inv sum [OF g0] by (simp add: R_def obm_inv_def held_blocks_def ac_simps)
  note free = OutputHandle_destroy_wp [OF pinv this]
  have "obm_inv pool_inv live c X (s\<lparr>host_pool := p, handles := (handles s)[r := g]\<rparr>)"
    if p: "pool_inv p" "live_blocks (live p) = R" and g: "handle_blocks g = {#}" "oh_NUM_STREAMS g = oh_NUM_STREAMS ?h"
      "oh_output_buffers g = map (\<lambda>_. []) (oh_output_buffers ?h)" for p g
  proof -
    have "handle_shape (NUM_STREAMS c) g"
      using shape True g(2,3) by (simp add: obm_shape_def handle_shape_def)
    then have "obm_shape c (s\<lparr>host_pool := p, handles := (handles s)[r := g]\<rparr>)"
      using shape by (auto simp: obm_shape_def dest!: set_update_subset_insert [THEN subsetD])
    moreover have "?sum ((handles s)[r := g]) = ?sum ((handles s)[r := ?g0])"
      using sum [OF g(1)] sum [OF g0] by simp
    ultimately show ?thesis
      using inv p by (simp add: obm_inv_def tlb_inv_def held_blocks_def R_def)
  qed
  note kept = this
  have "release_handle ops r s = (seqE (on_pool (OutputHandle_destroy ops ?h)) (\<lambda>g.
      modifyE (\<lambda>s. s\<lparr>handles := (handles s)[r := g]\<rparr>))) s"
    using True by (simp add: release_handle_def vec_at_def seqE_def readE_def liftE_def on_pool_def onE_def
        modifyE_def split: prod.splits sum.splits)
  moreover have "wp (seqE (on_pool (OutputHandle_destroy ops ?h)) (\<lambda>g.
      modifyE (\<lambda>s. s\<lparr>handles := (handles s)[r := g]\<rparr>))) (\<lambda>_ s'. obm_inv pool_inv live c X s' \<and> r < length (handles s) \<and>
      (\<exists>p g. s' = s\<lparr>host_pool := p, handles := (handles s)[r := g]\<rparr> \<and>
         oh_output_buffers g = map (\<lambda>_. []) (oh_output_buffers ?h) \<and>
         oh_NUM_STREAMS g = oh_NUM_STREAMS ?h \<and> oh_active_streams g = oh_active_streams ?h \<and>
         oh_finished_streams g = oh_finished_streams ?h)) (\<lambda>_ _. True) s"
    unfolding wp_seqE wp_on_pool
  proof (rule wp_mono [OF free], goal_cases)
    case (1 g p)
    have "obm_inv pool_inv live c X (s\<lparr>host_pool := p, handles := (handles s)[r := g]\<rparr>)"
      by (rule kept) (use 1 in simp_all)
    then show ?case using 1 True by (auto simp: wp_simps)
  qed simp
  ultimately show ?thesis by (simp add: wp_def)
qed (simp add: release_handle_def wp_simps vec_at_def)

lemma client_releases_inv:
  assumes inv: "sys_inv pool_inv live c X s" and h: "release_handle ops r (sys_host s) = (Inr (), h')"
  shows "sys_inv pool_inv live c X (s\<lparr>sys_host := h'\<rparr>)"
proof -
  have "obm_inv pool_inv live c (image_mset out_block (mset (sys_client s)) + X) (sys_host s)"
    using inv by (simp add: sys_inv_def)
  from wpD_Inr [OF release_handle_wp [OF this] h] inv show ?thesis
    by (auto simp: sys_inv_def obm_synced_def)
qed

lemma client_sends_inv:
  assumes inv: "sys_inv pool_inv live c X s"
    and h: "enqueue_stream_input mx ops p sz i l (sys_host s) = (Inr (), h')"
  shows "sys_inv pool_inv live c X (s\<lparr>sys_host := h'\<rparr>)"
proof -
  let ?s = "sys_host s"
  have oi: "obm_inv pool_inv live c (image_mset out_block (mset (sys_client s)) + X) ?s"
    using inv by (simp add: sys_inv_def)
  obtain new ds where h': "h' = (after_maps new ?s)\<lparr>host_cthread := host_cthread ?s @ user_maps new @ ds\<rparr>"
    and new: "distinct (map fst new)" "fst ` set new \<inter> existing_tlb_mappings ?s = {}" and ds: "list_all is_read ds"
    using h by (rule enqueue_stream_input_frame)
  have "obm_inv pool_inv live c (image_mset out_block (mset (sys_client s)) + X) (after_maps new ?s)"
    by (rule obm_inv_after_maps [OF oi new])
  moreover have "tlb_inv h'"
    by (rule tlb_inv_calls [of "after_maps new ?s" ds]) (use calculation ds in \<open>auto simp: h' obm_inv_def reads_no_mapping\<close>)
  ultimately have "obm_inv pool_inv live c (image_mset out_block (mset (sys_client s)) + X) h'"
    by (simp add: h' obm_inv_def obm_shape_def held_blocks_def)
  moreover have "csr_writes a (host_cthread h') = csr_writes a (host_cthread ?s)" for a
    using ds by (simp add: h' csr_writes_reads)
  ultimately show ?thesis using inv by (simp add: sys_inv_def obm_synced_def h')
qed

lemma writer_uses_buffer_inv:
  assumes inv: "sys_inv pool_inv live c X s" and u: "uses_buffer c n" and i: "ucast i < NUM_STREAMS c"
    and f: "sys_fetched s (ucast i) < length (csr_writes (stream_csr c (ucast i)) (host_cthread (sys_host s)))"
    and v: "v = csr_writes (stream_csr c (ucast i)) (host_cthread (sys_host s)) ! sys_fetched s (ucast i)"
    and n: "unat n \<le> buffer_bytes v"
  shows "sys_inv pool_inv live c X (s\<lparr>sys_fetched := (sys_fetched s)(ucast i := Suc (sys_fetched s (ucast i))),
       sys_irqs := sys_irqs s @ [(notify_value i n l, Some v)]\<rparr>)"
proof -
  have "irq_ok c (notify_value i n l, Some v)"
    using u i n by (auto simp: irq_ok_def)
  moreover have "obm_synced c (pending (sys_irqs s @ [(notify_value i n l, Some v)]))
      ((sys_fetched s)(ucast i := Suc (sys_fetched s (ucast i)))) (sys_host s)"
    using inv f Cons_nth_drop_Suc [OF f] by (auto simp: sys_inv_def obm_synced_def pending_append v)
  ultimately show ?thesis using inv by (simp add: sys_inv_def)
qed

lemma writer_sees_no_data_inv:
  assumes inv: "sys_inv pool_inv live c X s" and u: "\<not> uses_buffer c 0" and i: "ucast i < NUM_STREAMS c"
  shows "sys_inv pool_inv live c X (s\<lparr>sys_irqs := sys_irqs s @ [(notify_value i 0 l, None)]\<rparr>)"
proof -
  have "irq_ok c (notify_value i 0 l, None)"
    using u i unfolding irq_ok_def by (intro exI [of _ i] exI [of _ 0] exI [of _ l]) simp
  with inv show ?thesis by (simp add: sys_inv_def obm_synced_def pending_append)
qed

lemma sys_step_inv:
  "sys_step c ops s s' \<Longrightarrow> params_ok c \<Longrightarrow> sys_inv pool_inv live c X s \<Longrightarrow> sys_inv pool_inv live c X s'"
  by (induction rule: sys_step.induct)
    (blast intro: writer_uses_buffer_inv writer_sees_no_data_inv host_interrupt_inv host_acquire_inv
      host_acquire_sized_inv client_takes_inv client_drops_inv client_releases_inv client_sends_inv)+

text \<open>The host before the manager is made: its pool's blocks are \<open>X\<close>, nothing is enqueued.\<close>

lemma sys_start_inv:
  assumes "pool_inv (host_pool h)" and "tlb_inv h" and "X = live_blocks (live (host_pool h))"
    and "\<And>i. i < NUM_STREAMS c \<Longrightarrow> csr_writes (stream_csr c i) (host_cthread h) = []"
  shows "sys_inv pool_inv live c X
    \<lparr>sys_host = obm_start c h, sys_fetched = (\<lambda>_. 0), sys_irqs = [], sys_client = []\<rparr>"
  using assms
  by (simp add: sys_inv_def obm_inv_def obm_start_def host.defs tlb_inv_def obm_shape_def held_blocks_def
      obm_synced_def word_less_nat_alt)

lemma sys_reachable_inv:
  assumes "sys_reachable c ops h s" and "params_ok c" and "pool_inv (host_pool h)" and "tlb_inv h"
    and "\<And>i. i < NUM_STREAMS c \<Longrightarrow> csr_writes (stream_csr c i) (host_cthread h) = []"
  shows "sys_inv pool_inv live c (live_blocks (live (host_pool h))) s"
  using assms by (induction rule: sys_reachable.induct) (auto intro: sys_start_inv sys_step_inv)

text \<open>What the invariant says of the blocks: each has one owner, and they share no byte.\<close>

lemma sys_inv_ownership:
  assumes "sys_inv pool_inv live c X s"
  shows "let owned = held_blocks (sys_host s) + image_mset out_block (mset (sys_client s)) + X
    in owned = live_blocks (live (host_pool (sys_host s))) \<and> (\<forall>b. count owned b \<le> 1) \<and>
      (\<forall>q k r m. (q, k) \<in># owned \<longrightarrow> (r, m) \<in># owned \<longrightarrow> q \<noteq> r \<longrightarrow> range_of q k \<inter> range_of r m = {})"
proof -
  let ?m = "live (host_pool (sys_host s))"
  have inv: "obm_inv pool_inv live c (image_mset out_block (mset (sys_client s)) + X) (sys_host s)"
    using assms by (simp add: sys_inv_def)
  then have eq: "held_blocks (sys_host s) + image_mset out_block (mset (sys_client s)) + X = live_blocks ?m"
    unfolding obm_inv_def by (metis add.assoc)
  have p: "pool_inv (host_pool (sys_host s))" using inv by (simp add: obm_inv_def)
  moreover have "count (live_blocks ?m) b \<le> 1" for b
    by (simp add: live_blocks_def count_mset_set')
  ultimately show ?thesis
    unfolding Let_def eq by (auto dest!: live_blocks_some) (metis IntI empty_iff live_disjoint [OF p])
qed

end

section \<open>The queues of the device do not overflow\<close>

definition fill_inv :: "obm_params \<Rightarrow> 'p obm \<Rightarrow> bool" where
  "fill_inv c h \<longleftrightarrow>
     (\<forall>i < unat (NUM_STREAMS c). bit (MANAGED_STREAMS c) i \<longrightarrow>
        length (enqueued_buffers h ! i) \<le> unat (NUM_BUFFERS_TO_ENQUEUE c))"

lemma fill_inv_moved:
  assumes "fill_inv c s" and "moved_to_handle c ops i n l s t"
  shows "fill_inv c t"
proof -
  have "length (enqueued_buffers t ! j) \<le> length (enqueued_buffers s ! j)" for j
    using assms(2) by (cases "unat i < length (enqueued_buffers s)")
      (auto simp: moved_to_handle_def Let_def nth_list_update list_update_beyond)
  then show ?thesis
    using assms(1) unfolding fill_inv_def by (meson le_trans)
qed

lemma fill_inv_acquired:
  assumes "fill_inv c s" and acq: "streams_acquired c m r I (s\<lparr>handles := hs\<rparr>) t"
  shows "fill_inv c t"
proof -
  have "enqueued_buffers t ! i = enqueued_buffers s ! i \<or> length (enqueued_buffers t ! i) =
      max (length (enqueued_buffers s ! i)) (unat (NUM_BUFFERS_TO_ENQUEUE c))"
    if "i < unat (NUM_STREAMS c)" for i
  proof -
    let ?s = "s\<lparr>handles := hs\<rparr>"
    have "enqueued_buffers t ! i = enqueued_buffers ?s ! i \<or> length (enqueued_buffers t ! i) =
        max (length (enqueued_buffers ?s ! i)) (unat (NUM_BUFFERS_TO_ENQUEUE c))"
      using acq that unfolding streams_acquired_def by metis
    then show ?thesis by simp
  qed
  then show ?thesis
    using assms(1) unfolding fill_inv_def by (metis max.absorb2 order_refl)
qed

context memory_pool
begin

lemma fill_inv_interrupt:
  assumes oi: "obm_inv pool_inv live c X s" and ok: "params_ok c" and fill: "fill_inv c s"
    and h: "handle_fpga_interrupt c ops w s = (Inr (), h')"
  shows "fill_inv c h'"
proof -
  have cap: "0 < BUFFER_CAPACITY c" using ok by (simp add: params_ok_def)
  from wpD_Inr [OF handle_fpga_interrupt_wp [OF oi cap params_ok_request [OF ok]] h]
  obtain iv :: InterruptValue and t bs where mv: "moved_to_handle c ops (iv_stream_id iv) (iv_bytes_written iv) (iv_last iv) s t"
    and bs: "buffers_enqueued c (iv_stream_id iv) bs t h'"
    and len: "length (enqueued_buffers h' ! unat (iv_stream_id iv)) =
      (if bit (MANAGED_STREAMS c) (unat (iv_stream_id iv))
       then max (length (enqueued_buffers t ! unat (iv_stream_id iv))) (unat (NUM_BUFFERS_TO_ENQUEUE c))
       else length (enqueued_buffers t ! unat (iv_stream_id iv)))"
    by blast
  have "enqueued_buffers h' ! j = enqueued_buffers t ! j" if "j \<noteq> unat (iv_stream_id iv)" for j
    using bs that by (simp add: buffers_enqueued_def)
  then show ?thesis
    using fill_inv_moved [OF fill mv] len unfolding fill_inv_def by (metis max.absorb2 order_refl)
qed

lemma fill_inv_step:
  assumes "sys_step c ops s s'" and ok: "params_ok c" and inv: "sys_inv pool_inv live c X s"
    and fill: "fill_inv c (sys_host s)"
  shows "fill_inv c (sys_host s')"
  using assms(1)
proof cases
  case (host_interrupt w v rest h')
  have "obm_inv pool_inv live c (image_mset out_block (mset (sys_client s)) + X) (sys_host s)"
    using inv by (simp add: sys_inv_def)
  from fill_inv_interrupt [OF this ok fill host_interrupt(3)] host_interrupt(1) show ?thesis by simp
next
  case (host_acquire m r h')
  let ?X = "image_mset out_block (mset (sys_client s)) + X"
  have oi: "obm_inv pool_inv live c ?X (sys_host s)" using inv by (simp add: sys_inv_def)
  have cap: "0 < BUFFER_CAPACITY c" using ok by (simp add: params_ok_def)
  from wpD_Inr [OF acquire_output_handle_wp [OF oi cap params_ok_request [OF ok]] host_acquire(2)]
  have "fill_inv c h'" by (blast intro: fill_inv_acquired [OF fill])
  then show ?thesis using host_acquire by simp
next
  case (host_acquire_sized i n r h')
  let ?X = "image_mset out_block (mset (sys_client s)) + X"
  have oi: "obm_inv pool_inv live c ?X (sys_host s)" using inv by (simp add: sys_inv_def)
  from wpD_Inr [OF acquire_output_handle_sized_wp [OF oi] host_acquire_sized(2)]
  obtain bs where "\<not> bit (MANAGED_STREAMS c) (unat i)"
    "enqueued_buffers h' = (enqueued_buffers (sys_host s))[unat i := enqueued_buffers (sys_host s) ! unat i @ bs]"
    by (auto simp: buffers_enqueued_def)
  then show ?thesis
    using fill host_acquire_sized unfolding fill_inv_def by simp (metis nth_list_update_neq)
next
  case (client_releases r h')
  have "obm_inv pool_inv live c (image_mset out_block (mset (sys_client s)) + X) (sys_host s)"
    using inv by (simp add: sys_inv_def)
  from wpD_Inr [OF release_handle_wp [OF this] client_releases(3)] fill client_releases(1) show ?thesis
    by (auto simp: fill_inv_def)
next
  case (client_sends mx p sz i l h')
  from client_sends(2) obtain new ds where
    "h' = (after_maps new (sys_host s))\<lparr>host_cthread := host_cthread (sys_host s) @ user_maps new @ ds\<rparr>"
    by (rule enqueue_stream_input_frame)
  then show ?thesis using fill client_sends(1) by (simp add: fill_inv_def)
qed (use fill in \<open>auto simp: fill_inv_def on_handle_def on_pool_def onE_def split: if_splits prod.splits\<close>)

lemma fill_inv_reachable:
  assumes "sys_reachable c ops h s" and ok: "params_ok c" and "pool_inv (host_pool h)" and "tlb_inv h"
    and "\<And>i. i < NUM_STREAMS c \<Longrightarrow> csr_writes (stream_csr c i) (host_cthread h) = []"
  shows "fill_inv c (sys_host s)"
  using assms(1)
proof (induction rule: sys_reachable.induct)
  case sys_start
  then show ?case by (simp add: fill_inv_def obm_start_def host.defs)
next
  case (sys_next s s')
  from sys_reachable_inv [OF sys_next(1) assms(2-5)] fill_inv_step [OF sys_next(2) ok] sys_next(3)
  show ?case by blast
qed

text \<open>What was written to the register of a managed stream and not used yet fits into its queue.\<close>

lemma outstanding_bound:
  assumes reach: "sys_reachable c ops h s" and ok: "params_ok c" and "pool_inv (host_pool h)" and "tlb_inv h"
    and "\<And>i. i < NUM_STREAMS c \<Longrightarrow> csr_writes (stream_csr c i) (host_cthread h) = []"
    and i: "i < NUM_STREAMS c" "bit (MANAGED_STREAMS c) (unat i)"
  shows "length (csr_writes (stream_csr c i) (host_cthread (sys_host s))) - sys_fetched s i
    \<le> unat (NUM_BUFFERS_TO_ENQUEUE c)"
proof -
  have "map buffer_register_value (enqueued_buffers (sys_host s) ! unat i) =
      pending (sys_irqs s) i @ drop (sys_fetched s i) (csr_writes (stream_csr c i) (host_cthread (sys_host s)))"
    using sys_reachable_inv [OF assms(1-5)] i(1) by (simp add: sys_inv_def obm_synced_def)
  then have "length (enqueued_buffers (sys_host s) ! unat i) =
      length (pending (sys_irqs s) i) +
      (length (csr_writes (stream_csr c i) (host_cthread (sys_host s))) - sys_fetched s i)"
    by (metis length_append length_drop length_map)
  with fill_inv_reachable [OF assms(1-5)] i show ?thesis
    by (force simp: fill_inv_def word_less_nat_alt)
qed

end

end
