(* ===== verification/Huge_Pages.thy ===== *)
theory Huge_Pages
  imports Memory_Pool
begin

text \<open>
  The memory of the pool of huge pages (\<open>HugePageMemoryPool\<close> in \<open>software/libstf/memory_pool.hpp\<close>
  and \<open>memory_pool.cpp\<close>): the pages that were mapped when the pool was made, and the callbacks
  through which jemalloc asks for parts of them. \<open>huge_page_alloc\<close> is the only one that changes
  the state; the others tell jemalloc to keep what it has. The lemmas give its result exactly and
  show that whatever sequence of requests it serves, the extents it hands out are aligned, lie
  inside the mapped pages and do not overlap.
\<close>

section \<open>Constants and state\<close>

definition HUGE_PAGE_BITS :: u64 where "HUGE_PAGE_BITS = 30"

definition PAGE_SIZE :: u64 where "PAGE_SIZE = push_bit (unat HUGE_PAGE_BITS) 1"

definition PAGE_SIZE_KB :: u64 where "PAGE_SIZE_KB = PAGE_SIZE div 1024"

lemma PAGE_SIZE_simp: "PAGE_SIZE = 1073741824"
  by (simp add: PAGE_SIZE_def HUGE_PAGE_BITS_def push_bit_eq_mult)

lemma PAGE_SIZE_KB_simp: "PAGE_SIZE_KB = 1048576"
  by (simp add: PAGE_SIZE_KB_def PAGE_SIZE_simp)

text \<open>The static members of the class: what is left of the mapped pages, and where it begins.\<close>

record huge_memory =
  hm_next_free_addr :: ptr
  hm_remaining_capacity :: u64

section \<open>The callbacks\<close>

text \<open>
  \<open>std::align\<close>: the aligned address or null, and the pointer and the space it leaves, which are
  unchanged when the block does not fit.
\<close>

definition std_align :: "u64 \<Rightarrow> u64 \<Rightarrow> ptr \<Rightarrow> u64 \<Rightarrow> ptr \<times> ptr \<times> u64" where
  "std_align alignment sz p space =
     (if space < sz then (nullptr, p, space)
      else
        let aligned = (p - 1 + alignment) AND - alignment;
            diff = aligned - p
        in if diff > space - sz then (nullptr, p, space)
           else (aligned, aligned, space - diff))"

text \<open>The pointers \<open>zero\<close> and \<open>commit\<close> are arguments and results.\<close>

definition huge_page_alloc ::
  "ptr \<Rightarrow> u64 \<Rightarrow> u64 \<Rightarrow> bool \<Rightarrow> bool \<Rightarrow> (huge_memory, ptr \<times> bool \<times> bool) action" where
  "huge_page_alloc new_addr sz alignment zero commit =
     seqE (assertE (new_addr = nullptr)) (\<lambda>_.
     seqE (readE id) (\<lambda>m.
     let (aligned_address, p, space) =
           std_align alignment sz (hm_next_free_addr m) (hm_remaining_capacity m)
     in
     seqE (modifyE (\<lambda>m. m\<lparr>hm_next_free_addr := p, hm_remaining_capacity := space\<rparr>)) (\<lambda>_.
     if aligned_address = nullptr then ret (nullptr, zero, commit)
     else
       seqE (modifyE (\<lambda>m. m\<lparr>hm_remaining_capacity := hm_remaining_capacity m - sz\<rparr>)) (\<lambda>_.
       seqE (modifyE (\<lambda>m. m\<lparr>hm_next_free_addr := aligned_address + sz\<rparr>)) (\<lambda>_.
       ret (aligned_address, True, True))))))"

text \<open>For the other callbacks \<open>True\<close> means that the pool opts out, \<open>False\<close> that it agrees.\<close>

definition huge_page_dealloc :: "ptr \<Rightarrow> u64 \<Rightarrow> bool \<Rightarrow> bool" where
  "huge_page_dealloc addr sz committed = True"

definition huge_page_decommit :: "ptr \<Rightarrow> u64 \<Rightarrow> u64 \<Rightarrow> u64 \<Rightarrow> bool" where
  "huge_page_decommit addr sz offset len = True"

definition huge_page_split_extend :: "ptr \<Rightarrow> u64 \<Rightarrow> u64 \<Rightarrow> u64 \<Rightarrow> bool \<Rightarrow> bool" where
  "huge_page_split_extend addr sz size_a size_b committed = False"

definition huge_page_merge_extend :: "ptr \<Rightarrow> u64 \<Rightarrow> ptr \<Rightarrow> u64 \<Rightarrow> bool \<Rightarrow> bool" where
  "huge_page_merge_extend addr_a size_a addr_b size_b committed = False"

section \<open>What the allocation callback does\<close>

text \<open>
  The pages were mapped at \<open>b\<close> with \<open>c\<close> bytes, below the end of the user's address space, and the
  rest of them begins at the next free address.
\<close>

definition hm_wf :: "ptr \<Rightarrow> u64 \<Rightarrow> huge_memory \<Rightarrow> bool" where
  "hm_wf b c m \<longleftrightarrow> b \<noteq> nullptr \<and> unat b + unat c \<le> 2 ^ 48 \<and> b \<le> hm_next_free_addr m \<and>
     unat (hm_next_free_addr m) + unat (hm_remaining_capacity m) = unat b + unat c"

lemma huge_memory_upd:
  "m\<lparr>hm_next_free_addr := x, hm_remaining_capacity := y\<rparr> = \<lparr>hm_next_free_addr = x, hm_remaining_capacity = y\<rparr>"
  "m\<lparr>hm_next_free_addr := hm_next_free_addr m, hm_remaining_capacity := hm_remaining_capacity m\<rparr> = m"
  by (cases m; simp)+

lemma std_align_cases:
  assumes al: "valid_alignment al" and fit: "unat p + unat space \<le> 2 ^ 48"
  defines "start \<equiv> round_up (unat p) (unat al)"
  shows "std_align al sz p space =
    (if start + unat sz \<le> unat p + unat space
     then (of_nat start, of_nat start, of_nat (unat p + unat space - start))
     else (nullptr, p, space))"
proof -
  let ?a = "(p - 1 + al) AND - al"
  have neg: "- al = NOT (al - 1)" by (simp add: minus_eq_not_minus_1)
  have swap: "p - 1 + al = p + al - 1" by simp
  have a: "unat ?a = start"
    unfolding neg swap start_def by (rule unat_align_up [OF al]) (use fit in simp)
  have ge: "unat p \<le> start"
    unfolding start_def by (rule round_up_ge) (use valid_alignment_le [OF al] in simp)
  with a have diff: "unat (?a - p) = start - unat p"
    by (subst unat_diff_le) (simp_all add: word_le_nat_alt)
  have ap: "?a = of_nat start" using a by (rule word_eq_of_nat)
  show ?thesis
  proof (cases "space < sz")
    case True
    then show ?thesis using ge by (simp add: std_align_def word_less_nat_alt)
  next
    case False
    then have sz: "unat (space - sz) = unat space - unat sz" and le: "unat sz \<le> unat space"
      by (simp_all add: unat_diff_le word_le_nat_alt not_less)
    have "(?a - p > space - sz) \<longleftrightarrow> \<not> start + unat sz \<le> unat p + unat space"
      using ge le by (auto simp: word_less_nat_alt diff sz)
    moreover have "space - (?a - p) = of_nat (unat p + unat space - start)"
      if "start + unat sz \<le> unat p + unat space"
    proof (rule word_eq_of_nat)
      have "?a - p \<le> space" using that ge by (simp add: word_le_nat_alt diff)
      then show "unat (space - (?a - p)) = unat p + unat space - start"
        using ge by (simp add: unat_diff_le diff)
    qed
    ultimately show ?thesis
      using False ap by (simp add: std_align_def Let_def)
  qed
qed

lemma huge_page_alloc_cases:
  assumes wf: "hm_wf b c m" and sz: "0 < sz" and al: "valid_alignment al"
  defines "start \<equiv> round_up (unat (hm_next_free_addr m)) (unat al)"
  shows "huge_page_alloc nullptr sz al zero commit m =
    (if start + unat sz \<le> unat b + unat c
     then (Inr (of_nat start, True, True),
           \<lparr>hm_next_free_addr = of_nat (start + unat sz),
            hm_remaining_capacity = of_nat (unat b + unat c - (start + unat sz))\<rparr>)
     else (Inr (nullptr, zero, commit), m))"
proof -
  let ?p = "hm_next_free_addr m" and ?r = "hm_remaining_capacity m"
  have fit: "unat ?p + unat ?r \<le> 2 ^ 48" and sum: "unat ?p + unat ?r = unat b + unat c"
    and b: "0 < unat b" "unat b \<le> unat ?p"
    using wf by (simp_all add: hm_wf_def word_le_nat_alt unat_gt_0)
  note sa = std_align_cases [OF al fit, of sz, folded start_def]
  have ge: "unat ?p \<le> start"
    unfolding start_def by (rule round_up_ge) (use valid_alignment_le [OF al] in simp)
  show ?thesis
  proof (cases "start + unat sz \<le> unat b + unat c")
    case True
    then have lt: "start < 2 ^ 64" "start + unat sz < 2 ^ 64" using fit sum by simp_all
    have nz: "(of_nat start :: ptr) \<noteq> nullptr"
      using ge b lt by (metis gr_zeroI le_trans not_le unat_0 unat_of_nat_64)
    have 1: "(of_nat start :: ptr) + sz = of_nat (start + unat sz)" by simp
    have 2: "(of_nat (unat b + unat c - start) :: u64) - sz = of_nat (unat b + unat c - (start + unat sz))"
      using True by (simp add: of_nat_diff)
    from True nz show ?thesis
      by (simp add: huge_page_alloc_def method_defs sa sum huge_memory_upd flip: 1 2)
  next
    case False
    then show ?thesis
      by (simp add: huge_page_alloc_def method_defs sa sum huge_memory_upd)
  qed
qed

text \<open>
  A request is answered with an extent exactly when the next aligned block ends inside the pages.
\<close>

lemma huge_page_alloc_wf:
  assumes wf: "hm_wf b c m" and sz: "0 < sz" and al: "valid_alignment al"
    and res: "huge_page_alloc nullptr sz al zero commit m = (Inr (q, z, co), m')"
  shows "hm_wf b c m'"
    and "q = nullptr \<Longrightarrow> m' = m \<and> z = zero \<and> co = commit"
    and "q \<noteq> nullptr \<Longrightarrow> unat al dvd unat q \<and> unat (hm_next_free_addr m) \<le> unat q \<and>
      unat q + unat sz = unat (hm_next_free_addr m') \<and> z \<and> co"
proof -
  let ?start = "round_up (unat (hm_next_free_addr m)) (unat al)"
  note cases = huge_page_alloc_cases [OF wf sz al, of zero commit]
  have ge: "unat (hm_next_free_addr m) \<le> ?start"
    by (rule round_up_ge) (use valid_alignment_le [OF al] in simp)
  have b: "0 < unat b" "unat b \<le> unat (hm_next_free_addr m)" "unat b + unat c \<le> 2 ^ 48"
    using wf by (simp_all add: hm_wf_def word_le_nat_alt unat_gt_0)
  have "hm_wf b c m' \<and> (q = nullptr \<longrightarrow> m' = m \<and> z = zero \<and> co = commit) \<and>
    (q \<noteq> nullptr \<longrightarrow> unat al dvd unat q \<and> unat (hm_next_free_addr m) \<le> unat q \<and>
      unat q + unat sz = unat (hm_next_free_addr m') \<and> z \<and> co)"
  proof (cases "?start + unat sz \<le> unat b + unat c")
    case True
    then have "(Inr (q, z, co), m') = (Inr (of_nat ?start, True, True) :: cpp_error + ptr \<times> bool \<times> bool,
      \<lparr>hm_next_free_addr = of_nat (?start + unat sz),
       hm_remaining_capacity = of_nat (unat b + unat c - (?start + unat sz))\<rparr>)"
      using res cases by (simp only: if_True)
    then have eq: "q = of_nat ?start" "z" "co"
      "m' = \<lparr>hm_next_free_addr = of_nat (?start + unat sz),
             hm_remaining_capacity = of_nat (unat b + unat c - (?start + unat sz))\<rparr>"
      by (simp_all only: prod.inject sum.inject simp_thms)
    have q: "unat q = ?start" unfolding eq by (rule unat_of_nat_64) (use True b in simp)
    have n: "unat (hm_next_free_addr m') = ?start + unat sz"
      unfolding eq huge_memory.simps by (rule unat_of_nat_64) (use True b in simp)
    have r: "unat (hm_remaining_capacity m') = unat b + unat c - (?start + unat sz)"
      unfolding eq huge_memory.simps by (rule unat_of_nat_64) (use True b in simp)
    have "q \<noteq> nullptr" using q ge b by auto
    with True wf ge b q n r eq(2,3) show ?thesis
      by (simp add: hm_wf_def word_le_nat_alt)
  next
    case False
    then show ?thesis using res cases wf by simp
  qed
  then show "hm_wf b c m'" "q = nullptr \<Longrightarrow> m' = m \<and> z = zero \<and> co = commit"
    "q \<noteq> nullptr \<Longrightarrow> unat al dvd unat q \<and> unat (hm_next_free_addr m) \<le> unat q \<and>
      unat q + unat sz = unat (hm_next_free_addr m') \<and> z \<and> co"
    by blast+
qed

section \<open>Sequences of requests\<close>

text \<open>
  The extents handed out by a sequence of requests, oldest first. A request leaves the address to the
  callback: the code asserts that it does, though jemalloc's manual lets the caller ask for one.
\<close>

inductive hook_calls :: "huge_memory \<Rightarrow> (ptr \<times> u64) list \<Rightarrow> huge_memory \<Rightarrow> bool" where
  hook_none: "hook_calls m [] m"
| hook_call: "hook_calls m xs m' \<Longrightarrow> 0 < sz \<Longrightarrow> valid_alignment al \<Longrightarrow>
    huge_page_alloc nullptr sz al zero commit m' = (Inr (q, z, co), m'') \<Longrightarrow>
    hook_calls m (if q = nullptr then xs else xs @ [(q, sz)]) m''"

text \<open>The extents lie, one behind the other, between the old and the new next free address.\<close>

fun ascending :: "nat \<Rightarrow> (ptr \<times> u64) list \<Rightarrow> nat \<Rightarrow> bool" where
  "ascending lo [] hi \<longleftrightarrow> lo \<le> hi"
| "ascending lo ((a, n) # xs) hi \<longleftrightarrow> lo \<le> unat a \<and> 0 < n \<and> ascending (unat a + unat n) xs hi"

lemma ascending_le: "ascending lo xs hi \<Longrightarrow> lo \<le> hi"
  by (induction lo xs hi rule: ascending.induct) auto

lemma ascending_append:
  "ascending lo (xs @ ys) hi \<longleftrightarrow> (\<exists>mid. ascending lo xs mid \<and> ascending mid ys hi)"
proof (induction lo xs hi rule: ascending.induct)
  case (1 lo hi)
  show ?case
    by (cases ys) (auto dest: ascending_le intro: order_trans)
qed auto

lemma ascending_bounds: "ascending lo xs hi \<Longrightarrow> (a, n) \<in> set xs \<Longrightarrow> lo \<le> unat a \<and> unat a + unat n \<le> hi \<and> 0 < n"
proof (induction lo xs hi rule: ascending.induct)
  case (2 lo b k xs hi)
  then show ?case by (auto dest: ascending_le intro: le_trans [OF le_add1] order_trans)
qed simp

lemma ascending_disjoint:
  "ascending lo xs hi \<Longrightarrow> i < j \<Longrightarrow> j < length xs \<Longrightarrow>
   range_of (fst (xs ! i)) (snd (xs ! i)) \<inter> range_of (fst (xs ! j)) (snd (xs ! j)) = {}"
proof (induction lo xs hi arbitrary: i j rule: ascending.induct)
  case (2 lo a n xs hi)
  show ?case
  proof (cases i)
    case 0
    obtain b k where bk: "xs ! (j - 1) = (b, k)" by (cases "xs ! (j - 1)")
    then have "(b, k) \<in> set xs" using 2 by (metis 0 One_nat_def Suc_pred length_Cons less_Suc_eq_0_disj nth_mem not_less_eq)
    then have "unat a + unat n \<le> unat b"
      using 2 ascending_bounds by fastforce
    with 0 2 bk show ?thesis by (auto simp: range_of_def nth_Cons')
  next
    case (Suc k)
    with 2 show ?thesis by (cases j) auto
  qed
qed simp

lemma hook_calls_wf:
  assumes "hook_calls m xs m'" and "hm_wf b c m"
  shows "hm_wf b c m' \<and> ascending (unat (hm_next_free_addr m)) xs (unat (hm_next_free_addr m'))"
  using assms
proof (induction rule: hook_calls.induct)
  case (hook_call m xs m' sz al zero commit q z co m'')
  then have ih: "hm_wf b c m'" "ascending (unat (hm_next_free_addr m)) xs (unat (hm_next_free_addr m'))"
    by simp_all
  note step = huge_page_alloc_wf [OF ih(1) hook_call.hyps(2-4)]
  show ?case
  proof (cases "q = nullptr")
    case True
    with step ih show ?thesis by simp
  next
    case False
    have "ascending (unat (hm_next_free_addr m)) (xs @ [(q, sz)]) (unat (hm_next_free_addr m''))"
      unfolding ascending_append using ih(2) step(3) [OF False] hook_call.hyps(2) by auto
    with False step(1) show ?thesis by simp
  qed
qed simp

end
