(* ===== verification/Huge_Page_Pool.thy ===== *)
theory Huge_Page_Pool
  imports Huge_Pages
begin

text \<open>
  The pool of huge pages, \<open>HugePageMemoryPool\<close> in \<open>software/libstf/memory_pool.hpp\<close> and
  \<open>memory_pool.cpp\<close>. It leaves the placement of blocks to jemalloc, which is not part of the
  repository: its functions are a parameter (the record \<open>jemalloc_api\<close>), and what the pool relies
  on is the locale \<open>jemalloc\<close>, which says what the manual of jemalloc documents. The \<open>sublocale\<close>
  shows that the pool then meets the contract of a memory pool, so that everything that is proved
  of a client of that contract holds of a client of this pool; the \<open>interpretation\<close> at the end
  gives an allocator that fulfils the documented behaviour through the callbacks of the pool.
\<close>

section \<open>jemalloc\<close>

text \<open>
  jemalloc has a state of its own and calls the callbacks of the pool, which change the static
  members of the class. An allocation is called with its size, alignment, arena and thread cache;
  \<open>je_mallctl\<close> with a name and the value to write, if any, returns an error code and the value read.
\<close>

record 'j je_world =
  je_hooks :: huge_memory
  je_state :: 'j

record 'j jemalloc_api =
  je_mallocx :: "u64 \<Rightarrow> u64 \<Rightarrow> u32 \<Rightarrow> u32 \<Rightarrow> 'j je_world \<Rightarrow> ptr \<times> 'j je_world"
  je_rallocx :: "ptr \<Rightarrow> u64 \<Rightarrow> u64 \<Rightarrow> u32 \<Rightarrow> u32 \<Rightarrow> 'j je_world \<Rightarrow> ptr \<times> 'j je_world"
  je_dallocx :: "ptr \<Rightarrow> u32 \<Rightarrow> u32 \<Rightarrow> 'j je_world \<Rightarrow> 'j je_world"
  je_mallctl :: "string \<Rightarrow> u64 option \<Rightarrow> 'j je_world \<Rightarrow> (int \<times> u64) \<times> 'j je_world"

text \<open>A call that returns to the pool.\<close>

definition je_call :: "('w \<Rightarrow> 'a \<times> 'w) \<Rightarrow> ('w, 'a) action" where
  "je_call f w = (Inr (fst (f w)), snd (f w))"

lemma wp_je_call [wp_simps]: "wp (je_call f) Q E w = Q (fst (f w)) (snd (f w))"
  by (simp add: je_call_def wp_def)

subsection \<open>The helpers for \<open>mallctl\<close>\<close>

text \<open>The error numbers of the platform.\<close>

definition EPERM :: int where "EPERM = 1"
definition ENOENT :: int where "ENOENT = 2"
definition EAGAIN :: int where "EAGAIN = 11"
definition EFAULT :: int where "EFAULT = 14"
definition EINVAL :: int where "EINVAL = 22"

definition mallctl_error_to_string :: "int \<Rightarrow> string" where
  "mallctl_error_to_string error =
     (if error = EINVAL then
        ''The alignment parameter is not a power of 2 at least as large as sizeof(void *).''
      else if error = ENOENT then ''Name or mib specifies an unknown/invalid value.''
      else if error = EPERM then
        ''Attempt to read or write void value, or attempt to write read-only value.''
      else if error = EAGAIN then ''A memory allocation failure occurred.''
      else if error = EFAULT then ''EFAULT occurred''
      else ''Unknown error.'')"

definition check_mallctl_success :: "int \<Rightarrow> string \<Rightarrow> cpp_error + unit" where
  "check_mallctl_success error msg =
     (if error \<noteq> 0 then Inl (RuntimeError (msg @ '' Got error: '' @ mallctl_error_to_string error))
      else Inr ())"

definition je_mallctl_do :: "'j jemalloc_api \<Rightarrow> string \<Rightarrow> ('j je_world, unit) action" where
  "je_mallctl_do J control_name =
     seqE (je_call (je_mallctl J control_name None)) (\<lambda>(error, _).
     liftE (check_mallctl_success error (''Failed to execute mallctl control '' @ control_name @ ''.'')))"

text \<open>The value is passed as a pointer; \<open>None\<close> is the null pointer.\<close>

definition je_mallctl_write :: "'j jemalloc_api \<Rightarrow> string \<Rightarrow> u64 option \<Rightarrow> ('j je_world, unit) action" where
  "je_mallctl_write J control_name v =
     seqE (je_call (je_mallctl J control_name v)) (\<lambda>(error, _).
     liftE (check_mallctl_success error (''Failed to write to mallctl control '' @ control_name @ ''.'')))"

definition je_mallctl_read :: "'j jemalloc_api \<Rightarrow> string \<Rightarrow> ('j je_world, u64) action" where
  "je_mallctl_read J control_name =
     seqE (je_call (je_mallctl J control_name None)) (\<lambda>(error, v).
     seqE (liftE (check_mallctl_success error (''Failed to read from mallctl control '' @ control_name @ ''.''))) (\<lambda>_.
     ret v))"

definition je_mallctl_read_write :: "'j jemalloc_api \<Rightarrow> string \<Rightarrow> u64 option \<Rightarrow> ('j je_world, u64) action" where
  "je_mallctl_read_write J control_name write_value =
     seqE (je_call (je_mallctl J control_name write_value)) (\<lambda>(error, v).
     seqE (liftE (check_mallctl_success error (''Failed to read/write from mallctl control '' @ control_name @ ''.''))) (\<lambda>_.
     ret v))"

lemmas mallctl_defs = je_mallctl_do_def je_mallctl_write_def je_mallctl_read_def je_mallctl_read_write_def

subsection \<open>What the pool relies on\<close>

text \<open>
  During a call jemalloc asks the callback for further extents and keeps all it was ever given,
  because the other callbacks opt out of giving memory back.
\<close>

definition served ::
  "('j je_world \<Rightarrow> bool) \<Rightarrow> ('j \<Rightarrow> (ptr \<times> u64) list) \<Rightarrow> 'j je_world \<Rightarrow> 'j je_world \<Rightarrow> bool" where
  "served je_inv je_extents w w' \<longleftrightarrow> je_inv w' \<and>
     (\<exists>xs. hook_calls (je_hooks w) xs (je_hooks w') \<and>
        je_extents (je_state w') = je_extents (je_state w) @ xs)"

text \<open>The controls the pool uses, apart from the destruction of the arena.\<close>

definition pool_controls :: "string set" where
  "pool_controls = {''arenas.dirty_decay_ms'', ''arenas.create'', ''tcache.create'', ''tcache.destroy''}"

text \<open>
  \<open>je_live\<close> are the allocations that were not freed, with the sizes they were requested with;
  \<open>je_extents\<close> what the callback has returned. An allocation is aligned, does not overlap another
  one and lies in the memory of the callback; a failing call returns null and changes no
  allocation; a reallocation may move the block.
\<close>

locale jemalloc =
  fixes J :: "'j jemalloc_api"
    and je_inv :: "'j je_world \<Rightarrow> bool"
    and je_live :: "'j \<Rightarrow> ptr \<rightharpoonup> u64"
    and je_extents :: "'j \<Rightarrow> (ptr \<times> u64) list"
  assumes mallocx_law:
      "je_inv w \<Longrightarrow> 0 < sz \<Longrightarrow> valid_alignment al \<Longrightarrow>
       je_mallocx J sz al arena tc w = (q, w') \<Longrightarrow>
       served je_inv je_extents w w' \<and>
       (if q = nullptr then je_live (je_state w') = je_live (je_state w)
        else unat al dvd unat q \<and> je_live (je_state w) q = None \<and>
          je_live (je_state w') = (je_live (je_state w))(q \<mapsto> sz))"
    and rallocx_law:
      "je_inv w \<Longrightarrow> je_live (je_state w) q = Some n \<Longrightarrow> 0 < sz \<Longrightarrow> valid_alignment al \<Longrightarrow>
       je_rallocx J q sz al arena tc w = (q', w') \<Longrightarrow>
       served je_inv je_extents w w' \<and>
       (if q' = nullptr then je_live (je_state w') = je_live (je_state w)
        else unat al dvd unat q' \<and> (q' = q \<or> je_live (je_state w) q' = None) \<and>
          je_live (je_state w') = ((je_live (je_state w))(q := None))(q' \<mapsto> sz))"
    and dallocx_law:
      "je_inv w \<Longrightarrow> je_live (je_state w) q = Some n \<Longrightarrow> je_dallocx J q arena tc w = w' \<Longrightarrow>
       served je_inv je_extents w w' \<and> je_live (je_state w') = (je_live (je_state w))(q := None)"
    and mallctl_law:
      "je_inv w \<Longrightarrow> name \<in> pool_controls \<Longrightarrow> je_mallctl J name v w = (r, w') \<Longrightarrow>
       served je_inv je_extents w w' \<and> je_live (je_state w') = je_live (je_state w)"
    and live_extents:
      "je_inv w \<Longrightarrow> je_live (je_state w) q = Some n \<Longrightarrow>
       0 < n \<and> range_of q n \<subseteq> (\<Union>(a, k) \<in> set (je_extents (je_state w)). range_of a k)"
    and live_apart:
      "je_inv w \<Longrightarrow> je_live (je_state w) a = Some n \<Longrightarrow> je_live (je_state w) b = Some m \<Longrightarrow> a \<noteq> b \<Longrightarrow>
       range_of a n \<inter> range_of b m = {}"

section \<open>The pool\<close>

record 'j HugePageMemoryPool =
  hp_world :: "'j je_world"
  hp_tcache_ids :: "(nat \<times> u32) list"
  hp_arena_index :: u32
  hp_initial_address :: ptr
  hp_total_capacity :: u64
  hp_total_bytes_allocated :: u64
  hp_bytes_allocated :: u64
  hp_num_allocs :: u64
  hp_ZeroSizePointer :: ptr

definition on_world :: "('j je_world, 'a) action \<Rightarrow> ('j HugePageMemoryPool, 'a) action" where
  "on_world = onE hp_world (\<lambda>w p. p\<lparr>hp_world := w\<rparr>)"

lemma wp_on_world [wp_simps]:
  "wp (on_world m) Q E p =
     wp m (\<lambda>x w. Q x (p\<lparr>hp_world := w\<rparr>)) (\<lambda>e w. E e (p\<lparr>hp_world := w\<rparr>)) (hp_world p)"
  by (simp add: on_world_def wp_simps)

text \<open>\<open>tid\<close> is the id of the calling thread.\<close>

definition get_tcache_id_for_calling_thread ::
  "'j jemalloc_api \<Rightarrow> nat \<Rightarrow> ('j HugePageMemoryPool, u32) action" where
  "get_tcache_id_for_calling_thread J tid =
     seqE (readE hp_tcache_ids) (\<lambda>ids.
     case map_of ids tid of
       Some tcache_id \<Rightarrow> ret tcache_id
     | None \<Rightarrow>
         seqE (on_world (je_mallctl_read J ''tcache.create'')) (\<lambda>v.
         let tcache_id = ucast v in
         seqE (modifyE (\<lambda>p. p\<lparr>hp_tcache_ids := hp_tcache_ids p @ [(tid, tcache_id)]\<rparr>)) (\<lambda>_.
         ret tcache_id)))"

definition is_in_bounds :: "'j HugePageMemoryPool \<Rightarrow> ptr \<Rightarrow> u64 \<Rightarrow> bool" where
  "is_in_bounds p q sz = is_buffer_within_bounds (hp_initial_address p, hp_total_capacity p) (q, sz)"

definition HugePageMemoryPool_get_page_boundaries ::
  "ptr \<Rightarrow> 'j HugePageMemoryPool \<Rightarrow> cpp_error + (ptr \<times> u64)" where
  "HugePageMemoryPool_get_page_boundaries q p =
     (if \<not> is_buffer_within_bounds (hp_initial_address p, hp_total_capacity p) (q, 1)
      then Inl (RuntimeError (''The provided address '' @ show_ptr q @
        '' is not within the bounds of the HugePageMemoryPool''))
      else
        let n_th_page = (q - hp_initial_address p) div PAGE_SIZE
        in Inr (hp_initial_address p + n_th_page * PAGE_SIZE, PAGE_SIZE))"

definition HugePageMemoryPool_allocate ::
  "'j jemalloc_api \<Rightarrow> nat \<Rightarrow> u64 \<Rightarrow> u64 \<Rightarrow> ptr \<Rightarrow> ('j HugePageMemoryPool, Status \<times> ptr) action" where
  "HugePageMemoryPool_allocate J tid sz alignment out =
     (if sz = 0 then seqE (readE hp_ZeroSizePointer) (\<lambda>z. ret (Status_OK, z))
      else
        seqE (assertE (alignment AND (alignment - 1) = 0)) (\<lambda>_.
        seqE (get_tcache_id_for_calling_thread J tid) (\<lambda>tc.
        seqE (readE hp_arena_index) (\<lambda>arena_index.
        seqE (on_world (je_call (je_mallocx J sz alignment arena_index tc))) (\<lambda>q.
        if q = nullptr
        then ret (Status_of OutOfMemory ''HugePageMemoryPool is unable to allocate memory!'', q)
        else
          seqE (modifyE (\<lambda>p. p\<lparr>
              hp_total_bytes_allocated := hp_total_bytes_allocated p + sz,
              hp_bytes_allocated := hp_bytes_allocated p + sz,
              hp_num_allocs := hp_num_allocs p + 1\<rparr>)) (\<lambda>_.
          ret (Status_OK, q)))))))"

definition HugePageMemoryPool_free ::
  "'j jemalloc_api \<Rightarrow> nat \<Rightarrow> ptr \<Rightarrow> u64 \<Rightarrow> u64 \<Rightarrow> ('j HugePageMemoryPool, unit) action" where
  "HugePageMemoryPool_free J tid q sz alignment =
     seqE (readE hp_ZeroSizePointer) (\<lambda>z.
     if q = z then assertE (sz = 0)
     else
       seqE (modifyE (\<lambda>p. p\<lparr>hp_bytes_allocated := hp_bytes_allocated p - sz,
                           hp_num_allocs := hp_num_allocs p - 1\<rparr>)) (\<lambda>_.
       seqE (get_tcache_id_for_calling_thread J tid) (\<lambda>tc.
       seqE (readE hp_arena_index) (\<lambda>arena_index.
       on_world (modifyE (je_dallocx J q arena_index tc))))))"

definition HugePageMemoryPool_reallocate ::
  "'j jemalloc_api \<Rightarrow> nat \<Rightarrow> u64 \<Rightarrow> u64 \<Rightarrow> u64 \<Rightarrow> ptr \<Rightarrow> ('j HugePageMemoryPool, Status \<times> ptr) action" where
  "HugePageMemoryPool_reallocate J tid old_size new_size alignment q =
     seqE (readE hp_ZeroSizePointer) (\<lambda>z.
     if q = z then
       seqE (assertE (old_size = 0)) (\<lambda>_. HugePageMemoryPool_allocate J tid new_size alignment q)
     else if new_size = 0 then
       seqE (HugePageMemoryPool_free J tid q old_size alignment) (\<lambda>_. ret (Status_OK, z))
     else
       seqE (assertE (alignment AND (alignment - 1) = 0)) (\<lambda>_.
       seqE (get_tcache_id_for_calling_thread J tid) (\<lambda>tc.
       seqE (readE hp_arena_index) (\<lambda>arena_index.
       seqE (on_world (je_call (je_rallocx J q new_size alignment arena_index tc))) (\<lambda>new_ptr.
       if new_ptr = nullptr
       then ret (Status_of OutOfMemory ''HugePageMemoryPool could not Reallocate as requested!'', q)
       else
         seqE (modifyE (\<lambda>p.
             if old_size < new_size then p\<lparr>
               hp_total_bytes_allocated := hp_total_bytes_allocated p + (new_size - old_size),
               hp_bytes_allocated := hp_bytes_allocated p + (new_size - old_size)\<rparr>
             else p\<lparr>hp_bytes_allocated := hp_bytes_allocated p - (old_size - new_size)\<rparr>)) (\<lambda>_.
         ret (Status_OK, new_ptr)))))))"

text \<open>The methods as called by the thread \<open>tid\<close>.\<close>

definition HugePageMemoryPool_ops :: "'j jemalloc_api \<Rightarrow> nat \<Rightarrow> 'j HugePageMemoryPool MemoryPool" where
  "HugePageMemoryPool_ops J tid =
     \<lparr>pool_allocate = HugePageMemoryPool_allocate J tid,
      pool_reallocate = HugePageMemoryPool_reallocate J tid,
      pool_free = HugePageMemoryPool_free J tid,
      pool_get_page_boundaries = HugePageMemoryPool_get_page_boundaries,
      pool_bytes_allocated = hp_bytes_allocated,
      pool_total_bytes_allocated = hp_total_bytes_allocated,
      pool_num_allocations = hp_num_allocs,
      pool_max_memory = (\<lambda>_. - 1),
      pool_backend_name = (\<lambda>_. ''HugePageMemoryPool'')\<rparr>"

section \<open>The invariant\<close>

text \<open>
  The pages are mapped below the end of the user's address space and are whole pages; what
  jemalloc was given lies in the part that has been handed out; the address of the object that
  stands for empty allocations is not in the pages.
\<close>

definition hp_inv ::
  "('j je_world \<Rightarrow> bool) \<Rightarrow> ('j \<Rightarrow> (ptr \<times> u64) list) \<Rightarrow> 'j HugePageMemoryPool \<Rightarrow> bool" where
  "hp_inv je_inv je_extents p \<longleftrightarrow> je_inv (hp_world p) \<and>
     hm_wf (hp_initial_address p) (hp_total_capacity p) (je_hooks (hp_world p)) \<and>
     (\<forall>(a, n) \<in> set (je_extents (je_state (hp_world p))).
        unat (hp_initial_address p) \<le> unat a \<and>
        unat a + unat n \<le> unat (hm_next_free_addr (je_hooks (hp_world p)))) \<and>
     unat PAGE_SIZE dvd unat (hp_total_capacity p) \<and> hp_ZeroSizePointer p \<noteq> nullptr \<and>
     unat (hp_ZeroSizePointer p) \<notin> range_of (hp_initial_address p) (hp_total_capacity p)"

definition hp_live :: "('j \<Rightarrow> ptr \<rightharpoonup> u64) \<Rightarrow> 'j HugePageMemoryPool \<Rightarrow> ptr \<rightharpoonup> u64" where
  "hp_live je_live p = je_live (je_state (hp_world p))"

text \<open>What no method changes.\<close>

definition hp_fixed :: "'j HugePageMemoryPool \<Rightarrow> ptr \<times> u64 \<times> ptr \<times> u32" where
  "hp_fixed p = (hp_initial_address p, hp_total_capacity p, hp_ZeroSizePointer p, hp_arena_index p)"

lemma hp_inv_bookkeeping [simp]:
  "hp_inv i e (p\<lparr>hp_tcache_ids := x\<rparr>) = hp_inv i e p"
  "hp_inv i e (p\<lparr>hp_bytes_allocated := y\<rparr>) = hp_inv i e p"
  "hp_inv i e (p\<lparr>hp_total_bytes_allocated := y\<rparr>) = hp_inv i e p"
  "hp_inv i e (p\<lparr>hp_num_allocs := y\<rparr>) = hp_inv i e p"
  "hp_live l (p\<lparr>hp_tcache_ids := x\<rparr>) = hp_live l p"
  "hp_live l (p\<lparr>hp_bytes_allocated := y\<rparr>) = hp_live l p"
  "hp_live l (p\<lparr>hp_total_bytes_allocated := y\<rparr>) = hp_live l p"
  "hp_live l (p\<lparr>hp_num_allocs := y\<rparr>) = hp_live l p"
  "hp_live l (p\<lparr>hp_world := w\<rparr>) = l (je_state w)"
  by (simp_all add: hp_inv_def hp_live_def)

lemma hp_fixed_bookkeeping [simp]:
  "hp_fixed (p\<lparr>hp_tcache_ids := x\<rparr>) = hp_fixed p"
  "hp_fixed (p\<lparr>hp_bytes_allocated := y\<rparr>) = hp_fixed p"
  "hp_fixed (p\<lparr>hp_total_bytes_allocated := y\<rparr>) = hp_fixed p"
  "hp_fixed (p\<lparr>hp_num_allocs := y\<rparr>) = hp_fixed p"
  "hp_fixed (p\<lparr>hp_world := w\<rparr>) = hp_fixed p"
  by (simp_all add: hp_fixed_def)

lemma served_inv:
  assumes inv: "hp_inv i e p" and served: "served i e (hp_world p) w"
  shows "hp_inv i e (p\<lparr>hp_world := w\<rparr>)"
proof -
  obtain xs where xs: "hook_calls (je_hooks (hp_world p)) xs (je_hooks w)"
    "e (je_state w) = e (je_state (hp_world p)) @ xs" and je: "i w"
    using served by (auto simp: served_def)
  have wf: "hm_wf (hp_initial_address p) (hp_total_capacity p) (je_hooks (hp_world p))"
    using inv by (simp add: hp_inv_def)
  note hooks = hook_calls_wf [OF xs(1) wf]
  then have asc: "ascending (unat (hm_next_free_addr (je_hooks (hp_world p)))) xs (unat (hm_next_free_addr (je_hooks w)))"
    and wf': "hm_wf (hp_initial_address p) (hp_total_capacity p) (je_hooks w)" by blast+
  have base: "unat (hp_initial_address p) \<le> unat (hm_next_free_addr (je_hooks (hp_world p)))"
    using wf by (simp add: hm_wf_def word_le_nat_alt)
  have "unat (hp_initial_address p) \<le> unat a \<and> unat a + unat n \<le> unat (hm_next_free_addr (je_hooks w))"
    if "(a, n) \<in> set (e (je_state w))" for a n
  proof (cases "(a, n) \<in> set xs")
    case True
    with ascending_bounds [OF asc] base show ?thesis by fastforce
  next
    case False
    with that inv have "unat (hp_initial_address p) \<le> unat a"
      "unat a + unat n \<le> unat (hm_next_free_addr (je_hooks (hp_world p)))"
      by (auto simp: hp_inv_def xs(2))
    with ascending_le [OF asc] show ?thesis by simp
  qed
  with inv je wf' show ?thesis by (auto simp: hp_inv_def)
qed

text \<open>What a step of the pool keeps that neither allocates nor frees.\<close>

definition hp_same ::
  "('j je_world \<Rightarrow> bool) \<Rightarrow> ('j \<Rightarrow> (ptr \<times> u64) list) \<Rightarrow> ('j \<Rightarrow> ptr \<rightharpoonup> u64) \<Rightarrow>
   'j HugePageMemoryPool \<Rightarrow> 'j HugePageMemoryPool \<Rightarrow> bool" where
  "hp_same i e l p p' \<longleftrightarrow> hp_inv i e p' \<and> hp_live l p' = hp_live l p \<and>
     hp_fixed p' = hp_fixed p \<and> hp_bytes_allocated p' = hp_bytes_allocated p \<and>
     hp_total_bytes_allocated p' = hp_total_bytes_allocated p \<and> hp_num_allocs p' = hp_num_allocs p"

lemma hp_same_refl: "hp_inv i e p \<Longrightarrow> hp_same i e l p p"
  by (simp add: hp_same_def)

text \<open>The blocks of the pool lie in its pages.\<close>

context jemalloc
begin

lemma hp_live_block:
  assumes inv: "hp_inv je_inv je_extents p" and live: "hp_live je_live p q = Some n"
  shows "0 < n" and "range_of q n \<subseteq> range_of (hp_initial_address p) (hp_total_capacity p)"
    and "q \<noteq> nullptr" and "no_wrap q n" and "q \<noteq> hp_ZeroSizePointer p"
proof -
  let ?j = "je_state (hp_world p)" and ?b = "hp_initial_address p" and ?c = "hp_total_capacity p"
  have "je_inv (hp_world p)" "je_live ?j q = Some n" using inv live by (simp_all add: hp_inv_def hp_live_def)
  note ext = live_extents [OF this]
  have wf: "hm_wf ?b ?c (je_hooks (hp_world p))" using inv by (simp add: hp_inv_def)
  show n: "0 < n" using ext by simp
  have "range_of a k \<subseteq> range_of ?b ?c" if "(a, k) \<in> set (je_extents ?j)" for a k
  proof -
    have "unat ?b \<le> unat a" "unat a + unat k \<le> unat (hm_next_free_addr (je_hooks (hp_world p)))"
      using inv that by (auto simp: hp_inv_def)
    with wf show ?thesis by (auto simp: hm_wf_def range_of_def)
  qed
  with ext show sub: "range_of q n \<subseteq> range_of ?b ?c" by blast
  have "0 < unat n" using n by (simp add: word_pos_nat)
  then have q: "unat q \<in> range_of q n" and last: "unat q + unat n - 1 \<in> range_of q n"
    by (auto simp: range_of_def)
  show "q \<noteq> nullptr" using sub q wf by (auto simp: range_of_def hm_wf_def unsigned_eq_0_iff)
  have "unat q + unat n - 1 < unat ?b + unat ?c" using sub last by (auto simp: range_of_def)
  moreover have "unat ?b + unat ?c \<le> 2 ^ 48" using wf by (simp add: hm_wf_def)
  ultimately show "no_wrap q n" using \<open>0 < unat n\<close> unfolding no_wrap_def by simp
  show "q \<noteq> hp_ZeroSizePointer p" using sub q inv by (auto simp: hp_inv_def)
qed

text \<open>A call of jemalloc that is covered by a law, seen from the pool.\<close>

lemma world_inv:
  "hp_inv je_inv je_extents p \<Longrightarrow> je_inv (hp_world p)"
  by (simp add: hp_inv_def)

lemma pool_control_step:
  assumes "hp_inv je_inv je_extents p" and "name \<in> pool_controls"
  shows "hp_inv je_inv je_extents (p\<lparr>hp_world := snd (je_mallctl J name v (hp_world p))\<rparr>)"
    and "je_live (je_state (snd (je_mallctl J name v (hp_world p)))) = hp_live je_live p"
proof -
  obtain r w' where r: "je_mallctl J name v (hp_world p) = (r, w')" by fastforce
  with mallctl_law [OF world_inv [OF assms(1)] assms(2) r] served_inv [OF assms(1)]
  show "hp_inv je_inv je_extents (p\<lparr>hp_world := snd (je_mallctl J name v (hp_world p))\<rparr>)"
    "je_live (je_state (snd (je_mallctl J name v (hp_world p)))) = hp_live je_live p"
    by (auto simp: hp_live_def)
qed

text \<open>The id of a thread's cache: the one it was given before, or a new one that is remembered.\<close>

lemma get_tcache_wp:
  assumes "hp_inv je_inv je_extents p"
  shows "wp (get_tcache_id_for_calling_thread J tid)
    (\<lambda>id p'. hp_same je_inv je_extents je_live p p' \<and> map_of (hp_tcache_ids p') tid = Some id \<and>
       (\<exists>new. hp_tcache_ids p' = hp_tcache_ids p @ new \<and>
          new = (if map_of (hp_tcache_ids p) tid = None then [(tid, id)] else [])))
    (\<lambda>_ p'. hp_same je_inv je_extents je_live p p' \<and> hp_tcache_ids p' = hp_tcache_ids p) p"
proof (cases "map_of (hp_tcache_ids p) tid")
  case None
  have ctl: "''tcache.create'' \<in> pool_controls" by (simp add: pool_controls_def)
  note step = pool_control_step [OF assms ctl, where v = None]
  have same: "hp_same je_inv je_extents je_live p (p\<lparr>hp_world := snd (je_mallctl J ''tcache.create'' None (hp_world p))\<rparr>)"
    using step by (simp add: hp_same_def)
  then have upd: "hp_same je_inv je_extents je_live p (p\<lparr>hp_world := snd (je_mallctl J ''tcache.create'' None (hp_world p)), hp_tcache_ids := x\<rparr>)" for x
    by (simp add: hp_same_def)
  show ?thesis
    using None upd same
    by (simp add: get_tcache_id_for_calling_thread_def wp_simps mallctl_defs Let_def map_add_def
        split: prod.splits sum.splits)
next
  case (Some id)
  then show ?thesis
    using hp_same_refl [OF assms] by (simp add: get_tcache_id_for_calling_thread_def wp_simps)
qed

lemma hp_same_tcache:
  assumes "hp_inv je_inv je_extents p"
  shows "wp (get_tcache_id_for_calling_thread J tid) (\<lambda>_ p'. hp_same je_inv je_extents je_live p p') (\<lambda>_ p'. hp_same je_inv je_extents je_live p p') p"
  by (rule wp_mono [OF get_tcache_wp [OF assms]]) auto

lemma HugePageMemoryPool_allocate_wp:
  assumes inv: "hp_inv je_inv je_extents p" and sz: "0 < sz" and al: "valid_alignment al"
  shows "wp (HugePageMemoryPool_allocate J tid sz al out)
    (\<lambda>(st, q) p'. hp_inv je_inv je_extents p' \<and> hp_fixed p' = hp_fixed p \<and>
       (if status_ok st
        then unat al dvd unat q \<and> hp_live je_live p q = None \<and>
          hp_live je_live p' = (hp_live je_live p)(q \<mapsto> sz) \<and>
          hp_bytes_allocated p' = hp_bytes_allocated p + sz \<and>
          hp_total_bytes_allocated p' = hp_total_bytes_allocated p + sz \<and>
          hp_num_allocs p' = hp_num_allocs p + 1
        else q = nullptr \<and> hp_same je_inv je_extents je_live p p'))
    (\<lambda>_ p'. hp_same je_inv je_extents je_live p p') p"
proof -
  have [simp]: "al AND (al - 1) = 0" by (rule valid_alignment_assert) (rule al)
  have call: "wp (on_world (je_call (je_mallocx J sz al arena tc)))
      (\<lambda>q p'. hp_inv je_inv je_extents p' \<and> hp_fixed p' = hp_fixed p \<and>
         hp_bytes_allocated p' = hp_bytes_allocated p \<and>
         hp_total_bytes_allocated p' = hp_total_bytes_allocated p \<and> hp_num_allocs p' = hp_num_allocs p \<and>
         (if q = nullptr then hp_live je_live p' = hp_live je_live p
          else unat al dvd unat q \<and> hp_live je_live p q = None \<and>
            hp_live je_live p' = (hp_live je_live p)(q \<mapsto> sz)))
      (\<lambda>_ _. False) p1"
    if same: "hp_same je_inv je_extents je_live p p1" for arena tc p1
  proof -
    have inv1: "hp_inv je_inv je_extents p1" using same by (simp add: hp_same_def)
    obtain q w where q: "je_mallocx J sz al arena tc (hp_world p1) = (q, w)" by fastforce
    from mallocx_law [OF world_inv [OF inv1] sz al q] served_inv [OF inv1] same
    show ?thesis by (auto simp: wp_simps q hp_same_def hp_live_def)
  qed
  show ?thesis
    unfolding HugePageMemoryPool_allocate_def using sz
    apply (simp only: less_imp_neq [THEN not_sym] if_False wp_seqE [where m = "assertE b" for b] wp_assertE)
    apply (simp only: \<open>al AND (al - 1) = 0\<close> simp_thms if_True)
    apply (rule wp_seqI [OF hp_same_tcache [OF inv]])
    apply (simp only: wp_seqE wp_readE)
    apply (rule wp_mono [OF call], assumption)
     apply (auto simp: wp_simps hp_same_def split: if_splits)
    done
qed

text \<open>Two steps of the pool that leave the bounds and the address of the empty block alone.\<close>

lemma hp_fixed_eq:
  assumes "hp_fixed p' = hp_fixed p"
  shows "hp_initial_address p' = hp_initial_address p" "hp_total_capacity p' = hp_total_capacity p"
    "hp_ZeroSizePointer p' = hp_ZeroSizePointer p" "hp_arena_index p' = hp_arena_index p"
  using assms by (simp_all add: hp_fixed_def)

lemma HugePageMemoryPool_free_wp:
  assumes inv: "hp_inv je_inv je_extents p" and live: "hp_live je_live p q = Some n"
  shows "wp (HugePageMemoryPool_free J tid q sz al)
    (\<lambda>_ p'. hp_inv je_inv je_extents p' \<and> hp_fixed p' = hp_fixed p \<and>
       hp_live je_live p' = (hp_live je_live p)(q := None) \<and>
       hp_bytes_allocated p' = hp_bytes_allocated p - sz \<and>
       hp_total_bytes_allocated p' = hp_total_bytes_allocated p \<and>
       hp_num_allocs p' = hp_num_allocs p - 1)
    (\<lambda>_ p'. hp_inv je_inv je_extents p' \<and> hp_live je_live p' = hp_live je_live p \<and> hp_fixed p' = hp_fixed p) p"
proof -
  let ?p1 = "p\<lparr>hp_bytes_allocated := hp_bytes_allocated p - sz, hp_num_allocs := hp_num_allocs p - 1\<rparr>"
  have z: "q \<noteq> hp_ZeroSizePointer p" by (rule hp_live_block(5) [OF inv live])
  have inv1: "hp_inv je_inv je_extents ?p1" using inv by simp
  have call: "wp (on_world (modifyE (je_dallocx J q arena tc)))
      (\<lambda>_ p'. hp_inv je_inv je_extents p' \<and> hp_fixed p' = hp_fixed t \<and>
         hp_live je_live p' = (hp_live je_live t)(q := None) \<and>
         hp_bytes_allocated p' = hp_bytes_allocated t \<and>
         hp_total_bytes_allocated p' = hp_total_bytes_allocated t \<and> hp_num_allocs p' = hp_num_allocs t)
      (\<lambda>_ _. False) t"
    if same: "hp_same je_inv je_extents je_live ?p1 t" for arena tc t
  proof -
    have inv2: "hp_inv je_inv je_extents t" and "hp_live je_live t q = Some n"
      using same live by (simp_all add: hp_same_def)
    then have "je_live (je_state (hp_world t)) q = Some n" by (simp add: hp_live_def)
    from dallocx_law [OF world_inv [OF inv2] this refl] served_inv [OF inv2]
    show ?thesis by (simp add: wp_simps) (simp add: hp_live_def)
  qed
  show ?thesis
    unfolding HugePageMemoryPool_free_def
    apply (simp only: wp_seqE [where m = "readE f" for f] wp_readE z if_False
        wp_seqE [where m = "modifyE f" for f] wp_modifyE)
    apply (rule wp_seqI)
     apply (rule wp_mono [OF hp_same_tcache [OF inv1]])
      apply assumption
     apply (simp add: hp_same_def)
    apply (simp only: wp_seqE wp_readE)
    apply (rule wp_mono [OF call], assumption)
     apply (auto simp: hp_same_def)
    done
qed

lemma HugePageMemoryPool_reallocate_wp:
  assumes inv: "hp_inv je_inv je_extents p" and live: "hp_live je_live p q = Some n"
    and sz: "0 < new_size" and al: "valid_alignment al"
  shows "wp (HugePageMemoryPool_reallocate J tid n new_size al q)
    (\<lambda>(st, q') p'. hp_inv je_inv je_extents p' \<and> hp_fixed p' = hp_fixed p \<and>
       hp_num_allocs p' = hp_num_allocs p \<and>
       (if status_ok st
        then unat al dvd unat q' \<and> (q' = q \<or> hp_live je_live p q' = None) \<and>
          hp_live je_live p' = ((hp_live je_live p)(q := None))(q' \<mapsto> new_size) \<and>
          hp_bytes_allocated p' = hp_bytes_allocated p + new_size - n
        else q' = q \<and> hp_same je_inv je_extents je_live p p'))
    (\<lambda>_ p'. hp_same je_inv je_extents je_live p p') p"
proof -
  have asrt: "al AND (al - 1) = 0" by (rule valid_alignment_assert) (rule al)
  have z: "q \<noteq> hp_ZeroSizePointer p" by (rule hp_live_block(5) [OF inv live])
  have call: "wp (on_world (je_call (je_rallocx J q new_size al arena tc)))
      (\<lambda>q' p'. hp_inv je_inv je_extents p' \<and> hp_fixed p' = hp_fixed p \<and>
         hp_bytes_allocated p' = hp_bytes_allocated p \<and>
         hp_total_bytes_allocated p' = hp_total_bytes_allocated p \<and> hp_num_allocs p' = hp_num_allocs p \<and>
         (if q' = nullptr then hp_live je_live p' = hp_live je_live p
          else unat al dvd unat q' \<and> (q' = q \<or> hp_live je_live p q' = None) \<and>
            hp_live je_live p' = ((hp_live je_live p)(q := None))(q' \<mapsto> new_size)))
      (\<lambda>_ _. False) t"
    if same: "hp_same je_inv je_extents je_live p t" for arena tc t
  proof -
    have inv1: "hp_inv je_inv je_extents t" and live1: "je_live (je_state (hp_world t)) q = Some n"
      using same live by (simp_all add: hp_same_def hp_live_def)
    obtain q' w where q': "je_rallocx J q new_size al arena tc (hp_world t) = (q', w)" by fastforce
    from rallocx_law [OF world_inv [OF inv1] live1 sz al q'] served_inv [OF inv1] same
    show ?thesis by (auto simp: wp_simps q' hp_same_def hp_live_def)
  qed
  show ?thesis
    unfolding HugePageMemoryPool_reallocate_def using sz
    apply (simp only: wp_seqE [where m = "readE f" for f] wp_readE z if_False
        less_imp_neq [THEN not_sym] wp_seqE [where m = "assertE b" for b] wp_assertE)
    apply (simp only: asrt simp_thms if_True)
    apply (rule wp_seqI [OF hp_same_tcache [OF inv]])
    apply (simp only: wp_seqE wp_readE)
    apply (rule wp_mono [OF call], assumption)
     apply (auto simp: wp_simps hp_same_def split: if_splits)
    done
qed

text \<open>The page of an address of the pool is the huge page that contains it.\<close>

lemma huge_page_of:
  assumes inv: "hp_inv je_inv je_extents p"
    and x: "unat x \<in> range_of (hp_initial_address p) (hp_total_capacity p)"
  shows "\<exists>a. HugePageMemoryPool_get_page_boundaries x p = Inr (a, PAGE_SIZE) \<and>
    unat a = unat (hp_initial_address p) +
      (unat x - unat (hp_initial_address p)) div unat PAGE_SIZE * unat PAGE_SIZE \<and>
    unat x \<in> range_of a PAGE_SIZE \<and>
    range_of a PAGE_SIZE \<subseteq> range_of (hp_initial_address p) (hp_total_capacity p)"
proof -
  let ?b = "hp_initial_address p" and ?c = "hp_total_capacity p"
  have lim: "unat ?b + unat ?c \<le> 2 ^ 48" and dvd: "unat PAGE_SIZE dvd unat ?c"
    using inv by (simp_all add: hp_inv_def hm_wf_def)
  define k where "k = (unat x - unat ?b) div unat PAGE_SIZE"
  have ps: "unat PAGE_SIZE = 1073741824" by (simp add: PAGE_SIZE_simp)
  have le: "unat ?b \<le> unat x" "unat x < unat ?b + unat ?c" using x by (auto simp: range_of_def)
  have within: "is_buffer_within_bounds (?b, ?c) (x, 1)"
    using lim le x by (subst within_bounds_byte) (simp_all add: no_wrap_def)
  have n: "unat ((x - ?b) div PAGE_SIZE) = k"
    using le by (simp add: unat_div unat_diff_le word_le_nat_alt k_def)
  have low: "k * unat PAGE_SIZE \<le> unat x - unat ?b"
    unfolding k_def by (rule div_times_less_eq_dividend)
  have high: "unat x - unat ?b < k * unat PAGE_SIZE + unat PAGE_SIZE"
  proof -
    have "unat x - unat ?b = k * unat PAGE_SIZE + (unat x - unat ?b) mod unat PAGE_SIZE"
      unfolding k_def by simp
    moreover have "(unat x - unat ?b) mod unat PAGE_SIZE < unat PAGE_SIZE" by (simp add: ps)
    ultimately show ?thesis by linarith
  qed
  obtain m where m: "unat ?c = m * unat PAGE_SIZE" using dvd by (metis dvdE mult.commute)
  have "k * unat PAGE_SIZE < m * unat PAGE_SIZE" using low le unfolding m by linarith
  then have "Suc k \<le> m" by simp
  then have "Suc k * unat PAGE_SIZE \<le> m * unat PAGE_SIZE" by (rule mult_le_mono1)
  then have top: "k * unat PAGE_SIZE + unat PAGE_SIZE \<le> unat ?c" by (simp add: m)
  have mul: "unat ((x - ?b) div PAGE_SIZE * PAGE_SIZE) = k * unat PAGE_SIZE"
    unfolding unat_word_ariths(2) n using lim top by simp
  have a: "unat (?b + (x - ?b) div PAGE_SIZE * PAGE_SIZE) = unat ?b + k * unat PAGE_SIZE"
    using lim top mul by (subst unat_add_no_wrap) simp_all
  have "unat ?b + k * unat PAGE_SIZE \<le> unat x" "unat x < unat ?b + k * unat PAGE_SIZE + unat PAGE_SIZE"
    using low high le by linarith+
  then have "unat x \<in> range_of (?b + (x - ?b) div PAGE_SIZE * PAGE_SIZE) PAGE_SIZE"
    "range_of (?b + (x - ?b) div PAGE_SIZE * PAGE_SIZE) PAGE_SIZE \<subseteq> range_of ?b ?c"
    using top unfolding range_of_def a by auto
  then show ?thesis
    using within a unfolding k_def [symmetric]
    by (intro exI [of _ "?b + (x - ?b) div PAGE_SIZE * PAGE_SIZE"])
      (simp add: HugePageMemoryPool_get_page_boundaries_def)
qed

end

sublocale jemalloc \<subseteq> huge_pool: memory_pool "HugePageMemoryPool_ops J tid" "hp_inv je_inv je_extents" "hp_live je_live"
  for tid
proof (unfold_locales, unfold HugePageMemoryPool_ops_def MemoryPool.simps, goal_cases)
  case (1 p sz al out)
  show ?case
    by (rule wp_mono [OF HugePageMemoryPool_allocate_wp [OF 1(1,2,4)]])
      (auto simp: hp_same_def split: if_splits)
next
  case (2 p q n new_size al)
  show ?case
    by (rule wp_mono [OF HugePageMemoryPool_reallocate_wp [OF 2(1,2,3,5)]])
      (auto simp: hp_same_def split: if_splits)
next
  case (3 p q n sz al)
  show ?case by (rule wp_mono [OF HugePageMemoryPool_free_wp [OF 3]]) auto
next
  case (4 p q n)
  then show ?case using hp_live_block by blast
next
  case (5 p a n b m)
  then show ?case
    by (intro live_apart [of "hp_world p"]) (simp_all add: hp_inv_def hp_live_def)
next
  case (6 p q n x)
  have "unat x \<in> range_of (hp_initial_address p) (hp_total_capacity p)"
    using hp_live_block(2) [OF 6(1,2)] 6(3) by blast
  from huge_page_of [OF 6(1) this] obtain a where a:
    "HugePageMemoryPool_get_page_boundaries x p = Inr (a, PAGE_SIZE)" "unat x \<in> range_of a PAGE_SIZE"
    "range_of a PAGE_SIZE \<subseteq> range_of (hp_initial_address p) (hp_total_capacity p)" by blast
  have "unat a + unat PAGE_SIZE - 1 \<in> range_of a PAGE_SIZE" by (simp add: range_of_def PAGE_SIZE_simp)
  then have "unat a + unat PAGE_SIZE - 1 < unat (hp_initial_address p) + unat (hp_total_capacity p)"
    using a(3) by (auto simp: range_of_def)
  moreover have "unat (hp_initial_address p) + unat (hp_total_capacity p) \<le> 2 ^ 48"
    using 6(1) by (simp add: hp_inv_def hm_wf_def)
  ultimately have "no_wrap a PAGE_SIZE" by (simp add: no_wrap_def)
  with a show ?case by blast
qed


text \<open>
  Once a thread has its cache, the pool does not throw when this thread frees a block: what can throw
  is the creation of the cache. The cache stays, so the thread may go on.
\<close>

definition has_tcache :: "nat \<Rightarrow> 'j HugePageMemoryPool \<Rightarrow> bool" where
  "has_tcache tid p \<longleftrightarrow> map_of (hp_tcache_ids p) tid \<noteq> None"

lemma wp_known_tcache:
  "map_of (hp_tcache_ids p) tid = Some tc \<Longrightarrow> wp (get_tcache_id_for_calling_thread J tid) Q E p = Q tc p"
  by (simp add: get_tcache_id_for_calling_thread_def wp_simps)

lemma HugePageMemoryPool_keeps_tcaches:
  assumes "has_tcache tid p"
  shows "wp (HugePageMemoryPool_allocate J tid sz al out) (\<lambda>_. has_tcache tid) (\<lambda>_. has_tcache tid) p"
    and "wp (HugePageMemoryPool_free J tid q sz al) (\<lambda>_. has_tcache tid) (\<lambda>_. has_tcache tid) p"
    and "wp (HugePageMemoryPool_reallocate J tid old sz al q) (\<lambda>_. has_tcache tid) (\<lambda>_. has_tcache tid) p"
proof -
  obtain tc where tc: "map_of (hp_tcache_ids p) tid = Some tc" using assms by (auto simp: has_tcache_def)
  show alloc: "wp (HugePageMemoryPool_allocate J tid sz al out) (\<lambda>_. has_tcache tid) (\<lambda>_. has_tcache tid) p" for out
    using tc by (simp add: HugePageMemoryPool_allocate_def wp_simps wp_known_tcache has_tcache_def)
  show free: "wp (HugePageMemoryPool_free J tid q sz al) (\<lambda>_. has_tcache tid) (\<lambda>_. has_tcache tid) p" for sz
    using tc by (simp add: HugePageMemoryPool_free_def wp_simps wp_known_tcache has_tcache_def)
  show "wp (HugePageMemoryPool_reallocate J tid old sz al q) (\<lambda>_. has_tcache tid) (\<lambda>_. has_tcache tid) p"
    using tc alloc wp_mono [OF free] unfolding HugePageMemoryPool_reallocate_def
    by (auto simp: wp_simps wp_known_tcache has_tcache_def)
qed

lemma HugePageMemoryPool_free_returns:
  assumes "has_tcache tid p" and "q \<noteq> hp_ZeroSizePointer p"
  shows "fst (HugePageMemoryPool_free J tid q sz al p) = Inr ()"
proof -
  obtain tc where "map_of (hp_tcache_ids p) tid = Some tc" using assms(1) by (auto simp: has_tcache_def)
  then have "wp (HugePageMemoryPool_free J tid q sz al) (\<lambda>_ _. True) (\<lambda>_ _. False) p"
    using assms(2) by (simp add: HugePageMemoryPool_free_def wp_simps wp_known_tcache)
  then show ?thesis by (auto simp: wp_def split: prod.splits sum.splits)
qed

context jemalloc
begin

lemma huge_pool_settled:
  "settled_pool (HugePageMemoryPool_ops J tid) (\<lambda>p. hp_inv je_inv je_extents p \<and> has_tcache tid p) (hp_live je_live)"
proof (unfold_locales, unfold HugePageMemoryPool_ops_def MemoryPool.simps, goal_cases)
  case (1 p sz al out)
  then show ?case
    by (intro wp_mono [OF wp_conj [OF huge_pool.allocate_law [unfolded HugePageMemoryPool_ops_def MemoryPool.simps, of p sz al tid out]
          HugePageMemoryPool_keeps_tcaches(1) [of tid p J sz al out]]])
      (auto split: if_splits)
next
  case (2 p q n new_size al)
  then show ?case
    by (intro wp_mono [OF wp_conj [OF huge_pool.reallocate_law [unfolded HugePageMemoryPool_ops_def MemoryPool.simps, of p q n new_size al tid]
          HugePageMemoryPool_keeps_tcaches(3) [of tid p J n new_size al q]]])
      (auto split: if_splits)
next
  case (3 p q n sz al)
  then show ?case
    by (intro wp_mono [OF wp_conj [OF huge_pool.free_law [unfolded HugePageMemoryPool_ops_def MemoryPool.simps, of p q n tid sz al]
          HugePageMemoryPool_keeps_tcaches(2) [of tid p J q sz al]]])
      (auto split: if_splits)
next
  case (4 p q n)
  then show ?case using huge_pool.live_block by blast
next
  case (5 p a n b m)
  then show ?case using huge_pool.live_disjoint by blast
next
  case (6 p q n x)
  then show ?case using huge_pool.live_page [unfolded HugePageMemoryPool_ops_def MemoryPool.simps] by blast
next
  case (7 p q n sz al)
  then show ?case
    using hp_live_block(5) by (auto intro: HugePageMemoryPool_free_returns)
qed

end

end
