(* ===== verification/Extent_Allocator.thy ===== *)
theory Extent_Allocator
  imports Huge_Page_Pool
begin

text \<open>
  An allocator that fulfils what the pool of huge pages relies on, built on the pool's own callback:
  every allocation is an extent of its own, requested from \<open>huge_page_alloc\<close>, a freed block is not
  used again, and a reallocation stays in place when it shrinks a block that is aligned well enough.
  It shows that the documented behaviour of jemalloc can be met with the callbacks as they are.
\<close>

section \<open>The allocator\<close>

record extent_heap =
  xh_live :: "(ptr \<times> u64) list"
  xh_extents :: "(ptr \<times> u64) list"
  xh_next_id :: u64

definition extent_request :: "u64 \<Rightarrow> u64 \<Rightarrow> huge_memory \<Rightarrow> ptr \<times> huge_memory" where
  "extent_request sz al m =
     (case huge_page_alloc nullptr sz al False False m of
        (Inr (q, _, _), m') \<Rightarrow> (q, m')
      | (Inl _, m') \<Rightarrow> (nullptr, m'))"

definition xh_mallocx :: "u64 \<Rightarrow> u64 \<Rightarrow> u32 \<Rightarrow> u32 \<Rightarrow> extent_heap je_world \<Rightarrow> ptr \<times> extent_heap je_world" where
  "xh_mallocx sz al arena tc w =
     (let (q, m) = extent_request sz al (je_hooks w); h = je_state w
      in (q, \<lparr>je_hooks = m,
              je_state = (if q = nullptr then h
                else h\<lparr>xh_live := (q, sz) # xh_live h, xh_extents := xh_extents h @ [(q, sz)]\<rparr>)\<rparr>))"

definition xh_free :: "ptr \<Rightarrow> extent_heap \<Rightarrow> extent_heap" where
  "xh_free q h = h\<lparr>xh_live := AList.delete q (xh_live h)\<rparr>"

definition xh_dallocx :: "ptr \<Rightarrow> u32 \<Rightarrow> u32 \<Rightarrow> extent_heap je_world \<Rightarrow> extent_heap je_world" where
  "xh_dallocx q arena tc w = w\<lparr>je_state := xh_free q (je_state w)\<rparr>"

definition xh_rallocx ::
  "ptr \<Rightarrow> u64 \<Rightarrow> u64 \<Rightarrow> u32 \<Rightarrow> u32 \<Rightarrow> extent_heap je_world \<Rightarrow> ptr \<times> extent_heap je_world" where
  "xh_rallocx q sz al arena tc w =
     (case map_of (xh_live (je_state w)) q of
        Some n \<Rightarrow>
          if sz \<le> n \<and> q AND (al - 1) = 0
          then (q, w\<lparr>je_state := (xh_free q (je_state w))
                 \<lparr>xh_live := (q, sz) # AList.delete q (xh_live (je_state w))\<rparr>\<rparr>)
          else
            let (q', w') = xh_mallocx sz al arena tc w
            in (q', if q' = nullptr then w' else w'\<lparr>je_state := xh_free q (je_state w')\<rparr>)
      | None \<Rightarrow> (nullptr, w))"

text \<open>Thread caches and arenas are numbered; every control the pool uses succeeds.\<close>

definition xh_mallctl :: "string \<Rightarrow> u64 option \<Rightarrow> extent_heap je_world \<Rightarrow> (int \<times> u64) \<times> extent_heap je_world" where
  "xh_mallctl name v w =
     (if name \<in> {''tcache.create'', ''arenas.create''}
      then ((0, xh_next_id (je_state w)),
            w\<lparr>je_state := (je_state w)\<lparr>xh_next_id := xh_next_id (je_state w) + 1\<rparr>\<rparr>)
      else ((0, 0), w))"

definition extent_jemalloc :: "extent_heap jemalloc_api" where
  "extent_jemalloc = \<lparr>je_mallocx = xh_mallocx, je_rallocx = xh_rallocx, je_dallocx = xh_dallocx,
     je_mallctl = xh_mallctl\<rparr>"

section \<open>It keeps its blocks apart\<close>

definition xh_map :: "extent_heap \<Rightarrow> ptr \<rightharpoonup> u64" where
  "xh_map h = map_of (xh_live h)"

text \<open>Every live block is the beginning of an extent, and the extents are in ascending order.\<close>

definition xh_inv :: "extent_heap je_world \<Rightarrow> bool" where
  "xh_inv w \<longleftrightarrow> (\<exists>b c. hm_wf b c (je_hooks w) \<and>
     ascending (unat b) (xh_extents (je_state w)) (unat (hm_next_free_addr (je_hooks w)))) \<and>
     (\<forall>q n. xh_map (je_state w) q = Some n \<longrightarrow>
        0 < n \<and> (\<exists>k. (q, k) \<in> set (xh_extents (je_state w)) \<and> n \<le> k))"

lemma xh_inv_layout:
  assumes "xh_inv w"
  obtains b c where "hm_wf b c (je_hooks w)"
    "ascending (unat b) (xh_extents (je_state w)) (unat (hm_next_free_addr (je_hooks w)))"
  using assms unfolding xh_inv_def by blast

lemma xh_inv_live:
  assumes "xh_inv w" and "xh_map (je_state w) q = Some n"
  obtains k where "0 < n" "(q, k) \<in> set (xh_extents (je_state w))" "n \<le> k"
  using assms unfolding xh_inv_def by blast

lemma xh_map_delete [simp]: "xh_map (xh_free q h) = (xh_map h)(q := None)"
  by (simp add: xh_map_def xh_free_def delete_conv')

lemma ascending_apart:
  "ascending lo xs hi \<Longrightarrow> (a, n) \<in> set xs \<Longrightarrow> (b, m) \<in> set xs \<Longrightarrow> a \<noteq> b \<Longrightarrow>
   range_of a n \<inter> range_of b m = {}"
proof -
  assume asc: "ascending lo xs hi" and mem: "(a, n) \<in> set xs" "(b, m) \<in> set xs" and "a \<noteq> b"
  then obtain i j where ij: "i < length xs" "xs ! i = (a, n)" "j < length xs" "xs ! j = (b, m)"
    by (metis in_set_conv_nth)
  with \<open>a \<noteq> b\<close> have "i < j \<or> j < i" by (metis nat_neq_iff prod.inject)
  then show ?thesis
    using ascending_disjoint [OF asc, of i j] ascending_disjoint [OF asc, of j i] ij by auto
qed

lemma extent_request_cases:
  assumes wf: "hm_wf b c m" and sz: "0 < sz" and al: "valid_alignment al"
  obtains q m' z co where "extent_request sz al m = (q, m')"
    "huge_page_alloc nullptr sz al False False m = (Inr (q, z, co), m')"
proof -
  have "\<exists>r m'. huge_page_alloc nullptr sz al False False m = (Inr r, m')"
    unfolding huge_page_alloc_cases [OF wf sz al] by (auto split: if_split)
  then obtain q z co m' where "huge_page_alloc nullptr sz al False False m = (Inr (q, z, co), m')"
    by (metis prod_cases3)
  then show ?thesis by (intro that [of q m' z co]) (simp_all add: extent_request_def)
qed

text \<open>A new extent behind the others.\<close>

lemma xh_inv_new_extent:
  assumes inv: "xh_inv w" and wf: "hm_wf b c m'"
    and asc: "ascending (unat b) (xh_extents (je_state w)) (unat (hm_next_free_addr (je_hooks w)))"
    and asc': "ascending (unat b) (xh_extents (je_state w) @ [(q, sz)]) (unat (hm_next_free_addr m'))"
    and above: "unat (hm_next_free_addr (je_hooks w)) \<le> unat q" and sz: "0 < sz"
    and w': "w' = \<lparr>je_hooks = m', je_state = (je_state w)\<lparr>xh_live := (q, sz) # xh_live (je_state w),
        xh_extents := xh_extents (je_state w) @ [(q, sz)]\<rparr>\<rparr>"
  shows "xh_inv w'" and "xh_map (je_state w) q = None"
proof -
  show "xh_map (je_state w) q = None"
  proof (rule ccontr)
    assume "\<not> ?thesis"
    then obtain m where "xh_map (je_state w) q = Some m" by auto
    then obtain k where "(q, k) \<in> set (xh_extents (je_state w))"
      by (rule xh_inv_live [OF inv])
    from ascending_bounds [OF asc this] have "unat q + unat k \<le> unat q" "0 < unat k"
      using above by (auto simp: word_pos_nat)
    then show False by simp
  qed
  have "0 < m \<and> (\<exists>k. (r, k) \<in> set (xh_extents (je_state w')) \<and> m \<le> k)"
    if "xh_map (je_state w') r = Some m" for r m
  proof (cases "r = q")
    case True
    with that sz show ?thesis by (auto simp: w' xh_map_def)
  next
    case r: False
    then have "xh_map (je_state w) r = Some m" using that by (simp add: w' xh_map_def)
    then show ?thesis using inv by (auto simp: xh_inv_def w')
  qed
  moreover have "hm_wf b c (je_hooks w') \<and>
      ascending (unat b) (xh_extents (je_state w')) (unat (hm_next_free_addr (je_hooks w')))"
    using asc' wf by (simp add: w')
  ultimately show "xh_inv w'" unfolding xh_inv_def by blast
qed

lemma xh_mallocx_law:
  assumes inv: "xh_inv w" and sz: "0 < sz" and al: "valid_alignment al"
    and res: "xh_mallocx sz al arena tc w = (q, w')"
  shows "served xh_inv xh_extents w w' \<and>
    (if q = nullptr then xh_map (je_state w') = xh_map (je_state w)
     else unat al dvd unat q \<and> xh_map (je_state w) q = None \<and>
       xh_map (je_state w') = (xh_map (je_state w))(q \<mapsto> sz))"
proof -
  obtain b c where wf: "hm_wf b c (je_hooks w)"
    and asc: "ascending (unat b) (xh_extents (je_state w)) (unat (hm_next_free_addr (je_hooks w)))"
    by (rule xh_inv_layout [OF inv])
  obtain q1 m' z co where req: "extent_request sz al (je_hooks w) = (q1, m')"
    "huge_page_alloc nullptr sz al False False (je_hooks w) = (Inr (q1, z, co), m')"
    by (rule extent_request_cases [OF wf sz al])
  have q1: "q1 = q" and w': "w' = \<lparr>je_hooks = m', je_state = (if q = nullptr then je_state w
      else (je_state w)\<lparr>xh_live := (q, sz) # xh_live (je_state w),
        xh_extents := xh_extents (je_state w) @ [(q, sz)]\<rparr>)\<rparr>"
    using res by (auto simp: xh_mallocx_def req Let_def)
  note hook = huge_page_alloc_wf [OF wf sz al req(2)]
  have calls: "hook_calls (je_hooks w) (if q = nullptr then [] else [(q, sz)]) m'"
    using hook_call [OF hook_none sz al req(2)] by (simp add: q1 split: if_splits)
  show ?thesis
  proof (cases "q = nullptr")
    case True
    with hook(2) q1 w' have "w' = w" by simp
    with True inv show ?thesis using calls hook_none by (auto simp: served_def)
  next
    case False
    note new = hook(3) [unfolded q1, OF False]
    have asc': "ascending (unat b) (xh_extents (je_state w) @ [(q, sz)]) (unat (hm_next_free_addr m'))"
      unfolding ascending_append using asc new sz by (auto simp: w' False)
    have "unat (hm_next_free_addr (je_hooks w)) \<le> unat q" using new by auto
    note added = xh_inv_new_extent [OF inv hook(1) asc asc' this sz, of w']
    have "xh_inv w'" "xh_map (je_state w) q = None" using added w' False by simp_all
    with False new calls show ?thesis
      by (auto simp: served_def w' xh_map_def)
  qed
qed

lemma xh_free_inv:
  assumes "xh_inv w" shows "xh_inv (w\<lparr>je_state := xh_free q (je_state w)\<rparr>)"
  using assms by (auto simp: xh_inv_def) (auto simp: xh_free_def)

lemma served_refl: "xh_inv w' \<Longrightarrow> je_hooks w' = je_hooks w \<Longrightarrow> xh_extents (je_state w') = xh_extents (je_state w) \<Longrightarrow>
   served xh_inv xh_extents w w'"
  using hook_none by (auto simp: served_def)

lemma aligned_dvd:
  assumes "valid_alignment al" and "(q :: u64) AND (al - 1) = 0" shows "unat al dvd unat q"
proof -
  obtain k where k: "k \<le> 48" "al = 2 ^ k" using assms(1) by (auto simp: valid_alignment_def)
  have "take_bit k q = 0" using assms(2) by (simp add: k(2) take_bit_eq_mask mask_eq_exp_minus_1)
  then have "unat q mod 2 ^ k = 0" by (simp flip: take_bit_eq_mod unsigned_take_bit_eq)
  then show ?thesis using unat_two_power [of k, where 'a = 64] k by (simp add: mod_eq_0_iff_dvd)
qed

text \<open>A block that shrinks stays where it is.\<close>

lemma xh_shrink_law:
  assumes inv: "xh_inv w" and live: "xh_map (je_state w) q = Some n" and sz: "0 < sz" "sz \<le> n"
    and w': "w' = w\<lparr>je_state := (xh_free q (je_state w))\<lparr>xh_live := (q, sz) # AList.delete q (xh_live (je_state w))\<rparr>\<rparr>"
  shows "served xh_inv xh_extents w w'" and "q \<noteq> nullptr"
    and "xh_map (je_state w') = ((xh_map (je_state w))(q := None))(q \<mapsto> sz)"
proof -
  show map': "xh_map (je_state w') = ((xh_map (je_state w))(q := None))(q \<mapsto> sz)"
    by (simp add: w' xh_map_def delete_conv')
  have same: "je_hooks w' = je_hooks w" "xh_extents (je_state w') = xh_extents (je_state w)"
    by (simp_all add: w' xh_free_def)
  obtain k where k: "(q, k) \<in> set (xh_extents (je_state w))" "n \<le> k"
    by (rule xh_inv_live [OF inv live])
  have "0 < m \<and> (\<exists>k. (r, k) \<in> set (xh_extents (je_state w)) \<and> m \<le> k)"
    if "xh_map (je_state w') r = Some m" for r m
    using that inv k sz by (cases "r = q") (auto simp: map' xh_inv_def intro: order_trans)
  then have "xh_inv w'" using inv unfolding xh_inv_def same by blast
  then show "served xh_inv xh_extents w w'" using same by (rule served_refl)
  obtain b c where "hm_wf b c (je_hooks w)"
    "ascending (unat b) (xh_extents (je_state w)) (unat (hm_next_free_addr (je_hooks w)))"
    by (rule xh_inv_layout [OF inv])
  then show "q \<noteq> nullptr"
    using k(1) ascending_bounds [of "unat b" "xh_extents (je_state w)" _ q k]
    by (auto simp: hm_wf_def unsigned_eq_0_iff)
qed

lemma xh_rallocx_law:
  assumes inv: "xh_inv w" and live: "xh_map (je_state w) q = Some n" and sz: "0 < sz"
    and al: "valid_alignment al" and res: "xh_rallocx q sz al arena tc w = (q', w')"
  shows "served xh_inv xh_extents w w' \<and>
    (if q' = nullptr then xh_map (je_state w') = xh_map (je_state w)
     else unat al dvd unat q' \<and> (q' = q \<or> xh_map (je_state w) q' = None) \<and>
       xh_map (je_state w') = ((xh_map (je_state w))(q := None))(q' \<mapsto> sz))"
proof (cases "sz \<le> n \<and> q AND (al - 1) = 0")
  case True
  with res live have eq: "q' = q" "w' = w\<lparr>je_state := (xh_free q (je_state w))
      \<lparr>xh_live := (q, sz) # AList.delete q (xh_live (je_state w))\<rparr>\<rparr>"
    by (auto simp: xh_rallocx_def xh_map_def)
  from True have "sz \<le> n" by simp
  from xh_shrink_law [OF inv live sz this eq(2)] show ?thesis
    using aligned_dvd [OF al] True by (simp add: eq(1))
next
  case False
  obtain w1 where w1: "xh_mallocx sz al arena tc w = (q', w1)"
    "w' = (if q' = nullptr then w1 else w1\<lparr>je_state := xh_free q (je_state w1)\<rparr>)"
    using res live False by (auto simp: xh_rallocx_def xh_map_def Let_def split: prod.splits)
  note m = xh_mallocx_law [OF inv sz al w1(1)]
  show ?thesis
  proof (cases "q' = nullptr")
    case True
    then show ?thesis using m w1 by simp
  next
    case False
    have "q' \<noteq> q" using m False live by auto
    then have "((xh_map (je_state w))(q' \<mapsto> sz))(q := None) = ((xh_map (je_state w))(q := None))(q' \<mapsto> sz)"
      by (auto simp: fun_upd_twist)
    moreover have "served xh_inv xh_extents w w'"
      using m False xh_free_inv [of w1 q] by (auto simp: served_def w1(2)) (simp add: xh_free_def)
    ultimately show ?thesis using m False by (simp add: w1(2))
  qed
qed

interpretation extent_pool: jemalloc extent_jemalloc xh_inv xh_map xh_extents
proof (unfold_locales, unfold extent_jemalloc_def jemalloc_api.simps, goal_cases)
  case (1 w sz al arena tc q w')
  then show ?case by (rule xh_mallocx_law)
next
  case (2 w q n sz al arena tc q' w')
  then show ?case by (rule xh_rallocx_law)
next
  case (3 w q n arena tc w')
  then show ?case
    using xh_free_inv [of w q] by (auto simp: xh_dallocx_def xh_free_def intro!: served_refl)
      (simp add: xh_map_def delete_conv')
next
  case (4 w name v r w')
  have "xh_inv (w\<lparr>je_state := (je_state w)\<lparr>xh_next_id := x\<rparr>\<rparr>)" for x
    using 4(1) by (simp add: xh_inv_def xh_map_def)
  with 4 show ?case
    by (auto simp: xh_mallctl_def xh_map_def intro!: served_refl split: if_splits)
next
  case (5 w q n)
  obtain k where k: "0 < n" "(q, k) \<in> set (xh_extents (je_state w))" "n \<le> k"
    by (rule xh_inv_live [OF 5])
  then have "range_of q n \<subseteq> range_of q k" by (auto simp: range_of_def word_le_nat_alt)
  with k show ?case by blast
next
  case (6 w a n b m)
  obtain k where k: "(a, k) \<in> set (xh_extents (je_state w))" "n \<le> k"
    by (rule xh_inv_live [OF 6(1,2)])
  obtain l where l: "(b, l) \<in> set (xh_extents (je_state w))" "m \<le> l"
    by (rule xh_inv_live [OF 6(1,3)])
  obtain lo hi where "ascending lo (xh_extents (je_state w)) hi"
    by (rule xh_inv_layout [OF 6(1)])
  from ascending_apart [OF this k(1) l(1) 6(4)] k(2) l(2) show ?case
    by (auto simp: range_of_def word_le_nat_alt)
qed

end
