(* ===== verification/Huge_Page_Lifetime.thy ===== *)
theory Huge_Page_Lifetime
  imports Extent_Allocator Text
begin

text \<open>
  Making and destroying a pool of huge pages (\<open>HugePageMemoryPool\<close> in \<open>software/libstf/memory_pool.cpp\<close>),
  and the states clients can bring it to. The operating system is the record \<open>hp_env\<close>: the contents
  of a file and the result of \<open>mmap\<close>. The properties are about the callback that hands out the
  pages, the constructor, the blocks of the pool and its statistics, with jemalloc as a parameter
  that behaves as documented; their witnesses use the allocator of \<open>Extent_Allocator\<close>.
\<close>

section \<open>The constructor\<close>

record hp_env =
  env_file :: "string \<Rightarrow> string option"
  env_mmap :: "u64 \<Rightarrow> ptr"
  env_zero_size_data :: ptr
  env_hugepage_hooks :: u64

definition MAP_FAILED :: ptr where "MAP_FAILED = - 1"

definition get_number_of_available_huge_pages :: "hp_env \<Rightarrow> cpp_error + int" where
  "get_number_of_available_huge_pages env =
     (case env_file env (''/sys/kernel/mm/hugepages/hugepages-'' @ show_nat (unat PAGE_SIZE_KB) @
             ''kB/free_hugepages'') of
        None \<Rightarrow> Inl (RuntimeError (''It seems the target system does not have 1GiB huge pages enabled, which are required '' @
            ''for FPGA support. Please enable 1GiB huge pages in your system.''))
      | Some file \<Rightarrow>
          let free_pages = read_int file
          in if free_pages = 0 then Inl (RuntimeError (''Your system has 0 free 1GiB huge pages. The FPGA support requires 1GiB huge pages. '' @
               ''Please enable additional 1GiB huge pages as described in the Maximus readme.''))
             else Inr free_pages)"

text \<open>
  The write of the decay time passes the null pointer: the literal \<open>0\<close> is the pointer argument.
\<close>

definition HugePageMemoryPool_init ::
  "'j jemalloc_api \<Rightarrow> hp_env \<Rightarrow> ('j je_world, 'j HugePageMemoryPool) action" where
  "HugePageMemoryPool_init J env =
     seqE (je_mallctl_write J ''arenas.dirty_decay_ms'' None) (\<lambda>_.
     seqE (liftE (get_number_of_available_huge_pages env)) (\<lambda>num_huge_pages.
     let bytes = of_int num_huge_pages * PAGE_SIZE; addr = env_mmap env bytes in
     seqE (modifyE (\<lambda>w. w\<lparr>je_hooks := (je_hooks w)\<lparr>hm_next_free_addr := addr\<rparr>\<rparr>)) (\<lambda>_.
     if addr = MAP_FAILED
     then throw (RuntimeError ''Could not allocated the expected number of 1GiB huge pages for HugePageMemoryPool.'')
     else
       seqE (modifyE (\<lambda>w. w\<lparr>je_hooks := (je_hooks w)\<lparr>hm_remaining_capacity := bytes\<rparr>\<rparr>)) (\<lambda>_.
       seqE (je_mallctl_read_write J ''arenas.create'' (Some (env_hugepage_hooks env))) (\<lambda>arena.
       seqE (readE id) (\<lambda>w.
       ret \<lparr>hp_world = w, hp_tcache_ids = [], hp_arena_index = ucast arena,
            hp_initial_address = addr, hp_total_capacity = bytes, hp_total_bytes_allocated = 0,
            hp_bytes_allocated = 0, hp_num_allocs = 0,
            hp_ZeroSizePointer = env_zero_size_data env\<rparr>))))))"

section \<open>The destructor\<close>

fun destroy_tcaches :: "'j jemalloc_api \<Rightarrow> u32 list \<Rightarrow> ('j je_world, unit) action" where
  "destroy_tcaches J [] = ret ()"
| "destroy_tcaches J (tc # tcs) =
     seqE (je_mallctl_write J ''tcache.destroy'' (Some (ucast tc))) (\<lambda>_. destroy_tcaches J tcs)"

text \<open>The result is the range that is given back with \<open>munmap\<close>.\<close>

definition HugePageMemoryPool_destroy ::
  "'j jemalloc_api \<Rightarrow> ('j HugePageMemoryPool, ptr \<times> u64) action" where
  "HugePageMemoryPool_destroy J =
     seqE (readE hp_tcache_ids) (\<lambda>ids.
     seqE (on_world (destroy_tcaches J (map snd ids))) (\<lambda>_.
     seqE (readE hp_arena_index) (\<lambda>i.
     seqE (on_world (je_mallctl_do J (''arena.'' @ show_nat (unat i) @ ''.destroy''))) (\<lambda>_.
     readE (\<lambda>p. (hp_initial_address p, hp_total_capacity p))))))"

section \<open>What the constructor leaves\<close>

text \<open>
  What the system guarantees of \<open>mmap\<close>: unless it fails, a range that is not null and lies in the
  lower half of the address space, apart from the static data of the program.
\<close>

definition env_ok :: "hp_env \<Rightarrow> bool" where
  "env_ok env \<longleftrightarrow> env_zero_size_data env \<noteq> nullptr \<and>
     (\<forall>len. env_mmap env len \<noteq> MAP_FAILED \<longrightarrow> env_mmap env len \<noteq> nullptr \<and>
        unat (env_mmap env len) + unat len \<le> 2 ^ 47 \<and>
        unat (env_zero_size_data env) \<notin> range_of (env_mmap env len) len)"

text \<open>A jemalloc that does not know the pool yet: no extent, no block, ready to be given memory.\<close>

definition je_fresh ::
  "('j je_world \<Rightarrow> bool) \<Rightarrow> ('j \<Rightarrow> ptr \<rightharpoonup> u64) \<Rightarrow> ('j \<Rightarrow> (ptr \<times> u64) list) \<Rightarrow> 'j \<Rightarrow> bool" where
  "je_fresh je_inv je_live je_extents j \<longleftrightarrow> je_live j = Map.empty \<and> je_extents j = [] \<and>
     (\<forall>b c m. hm_wf b c m \<longrightarrow> je_inv \<lparr>je_hooks = m, je_state = j\<rparr>)"

text \<open>The default decay time concerns no arena of the pool, so it can be set before there is one.\<close>

locale jemalloc_start = jemalloc +
  assumes decay_law:
      "je_fresh je_inv je_live je_extents (je_state w) \<Longrightarrow>
       je_mallctl J ''arenas.dirty_decay_ms'' v w = (r, w') \<Longrightarrow>
       je_hooks w' = je_hooks w \<and> je_fresh je_inv je_live je_extents (je_state w')"

lemma page_multiple: "unat PAGE_SIZE dvd unat (x * PAGE_SIZE)"
proof -
  have "unat (x * PAGE_SIZE) = unat x * 2 ^ 30 mod 2 ^ 64"
    unfolding unat_word_ariths(2) by (simp add: PAGE_SIZE_simp)
  moreover have "(2 :: nat) ^ 30 dvd unat x * 2 ^ 30 mod 2 ^ 64"
    by (rule dvd_mod) (simp_all add: le_imp_power_dvd)
  ultimately show ?thesis by (simp add: PAGE_SIZE_simp)
qed

context jemalloc_start
begin

lemma HugePageMemoryPool_init_wp:
  assumes fresh: "je_fresh je_inv je_live je_extents (je_state w)" and env: "env_ok env"
  shows "wp (HugePageMemoryPool_init J env)
    (\<lambda>p w'. hp_inv je_inv je_extents p \<and> hp_live je_live p = Map.empty \<and> hp_world p = w' \<and>
       (\<exists>n. get_number_of_available_huge_pages env = Inr n \<and>
          hp_total_capacity p = of_int n * PAGE_SIZE) \<and>
       hp_initial_address p = env_mmap env (hp_total_capacity p) \<and> hp_tcache_ids p = [] \<and>
       hp_bytes_allocated p = 0 \<and> hp_total_bytes_allocated p = 0 \<and> hp_num_allocs p = 0)
    (\<lambda>_ _. True) w"
proof (cases "get_number_of_available_huge_pages env")
  case (Inl e)
  then show ?thesis
    by (simp add: HugePageMemoryPool_init_def mallctl_defs wp_simps split: prod.splits sum.splits)
next
  case (Inr n)
  define bytes where "bytes = of_int n * PAGE_SIZE"
  define addr where "addr = env_mmap env bytes"
  obtain r w1 where w1: "je_mallctl J ''arenas.dirty_decay_ms'' None w = (r, w1)" by fastforce
  have fresh1: "je_fresh je_inv je_live je_extents (je_state w1)" using decay_law [OF fresh w1] by simp
  define m where "m = \<lparr>hm_next_free_addr = addr, hm_remaining_capacity = bytes\<rparr>"
  define w2 where "w2 = \<lparr>je_hooks = m, je_state = je_state w1\<rparr>"
  have w2_eq: "w1\<lparr>je_hooks := (je_hooks w1)\<lparr>hm_next_free_addr := addr, hm_remaining_capacity := bytes\<rparr>\<rparr> = w2"
    unfolding w2_def m_def by (cases w1) (simp add: huge_memory_upd)
  obtain s w3 where w3: "je_mallctl J ''arenas.create'' (Some (env_hugepage_hooks env)) w2 = (s, w3)"
    by fastforce
  define p where "p = (\<lambda>(v :: 'a je_world) arena. \<lparr>hp_world = v, hp_tcache_ids = [], hp_arena_index = arena,
      hp_initial_address = addr, hp_total_capacity = bytes, hp_total_bytes_allocated = 0,
      hp_bytes_allocated = 0, hp_num_allocs = 0, hp_ZeroSizePointer = env_zero_size_data env\<rparr>)"
  have made: "hp_inv je_inv je_extents (p w3 arena) \<and> hp_live je_live (p w3 arena) = Map.empty"
    if "addr \<noteq> MAP_FAILED" for arena
  proof -
    have mm: "addr \<noteq> nullptr" "unat addr + unat bytes \<le> 2 ^ 47"
      "env_zero_size_data env \<noteq> nullptr" "unat (env_zero_size_data env) \<notin> range_of addr bytes"
      using env that unfolding env_ok_def addr_def by blast+
    then have wf: "hm_wf addr bytes m" by (simp add: hm_wf_def m_def)
    have fresh2: "je_inv w2" "je_live (je_state w2) = Map.empty" "je_extents (je_state w2) = []"
      using fresh1 wf by (auto simp: je_fresh_def w2_def)
    have "hp_inv je_inv je_extents (p w2 arena)"
      using fresh2 wf mm page_multiple [of "of_int n"] by (simp add: hp_inv_def p_def w2_def bytes_def)
    moreover have "''arenas.create'' \<in> pool_controls" by (simp add: pool_controls_def)
    note create = mallctl_law [OF fresh2(1) this w3]
    then have "served je_inv je_extents (hp_world (p w2 arena)) w3" by (simp add: p_def)
    ultimately have "hp_inv je_inv je_extents ((p w2 arena)\<lparr>hp_world := w3\<rparr>)" by (rule served_inv)
    then show ?thesis using create fresh2(2) by (simp add: p_def hp_live_def)
  qed
  show ?thesis
    using made Inr
    by (simp add: HugePageMemoryPool_init_def mallctl_defs wp_simps w1 w2_eq w3 Let_def
        bytes_def [symmetric] addr_def [symmetric] p_def split: prod.splits sum.splits)
qed

end

interpretation extent_start: jemalloc_start extent_jemalloc xh_inv xh_map xh_extents
  by unfold_locales (auto simp: extent_jemalloc_def xh_mallctl_def)

end
