(* ===== verification/Huge_Page_Properties.thy ===== *)
theory Huge_Page_Properties
  imports Huge_Page_Lifetime
begin

text \<open>
  The states clients bring a pool of huge pages to, its statistics, and the properties of the pool
  with their witnesses. jemalloc is a parameter that behaves as the locales \<open>jemalloc\<close> and
  \<open>jemalloc_start\<close> say; the witnesses use the allocator of \<open>Extent_Allocator\<close>.
\<close>

section \<open>Histories of a pool\<close>

text \<open>
  What any number of threads do with a pool that starts as \<open>p0\<close>, as long as they name the recorded
  size of a block they give back. A call that throws ends the history when it is a \<open>free\<close>, which
  has counted the block already; the other calls leave the pool as it was.
\<close>

inductive hp_history ::
  "'j jemalloc_api \<Rightarrow> ('j \<Rightarrow> ptr \<rightharpoonup> u64) \<Rightarrow> 'j HugePageMemoryPool \<Rightarrow> 'j HugePageMemoryPool \<Rightarrow> bool"
  for J :: "'j jemalloc_api" and l :: "'j \<Rightarrow> ptr \<rightharpoonup> u64" and p0 :: "'j HugePageMemoryPool" where
  hp_start: "hp_history J l p0 p0"
| hp_allocate: "hp_history J l p0 p \<Longrightarrow> sz = 0 \<or> valid_alignment al \<Longrightarrow>
    hp_history J l p0 (snd (HugePageMemoryPool_allocate J tid sz al out p))"
| hp_reallocate: "hp_history J l p0 p \<Longrightarrow> hp_live l p q = Some n \<Longrightarrow> 0 < sz \<Longrightarrow> valid_alignment al \<Longrightarrow>
    hp_history J l p0 (snd (HugePageMemoryPool_reallocate J tid n sz al q p))"
| hp_free: "hp_history J l p0 p \<Longrightarrow> hp_live l p q = Some n \<Longrightarrow>
    HugePageMemoryPool_free J tid q n al p = (Inr (), p') \<Longrightarrow> hp_history J l p0 p'"

text \<open>What the statistics of a pool with these blocks should be: their sizes and their number.\<close>

definition books :: "(ptr \<rightharpoonup> u64) \<Rightarrow> u64 \<times> u64" where
  "books m = (live_bytes m, of_nat (card (dom m)))"

definition hp_accounting :: "('j \<Rightarrow> ptr \<rightharpoonup> u64) \<Rightarrow> 'j HugePageMemoryPool \<Rightarrow> bool" where
  "hp_accounting l p \<longleftrightarrow> (hp_bytes_allocated p, hp_num_allocs p) = books (hp_live l p)"

lemma books_empty [simp]: "books Map.empty = (0, 0)"
  by (simp add: books_def live_bytes_def)

lemma books_insert: "m q = None \<Longrightarrow> books (m(q \<mapsto> n)) = (fst (books m) + n, snd (books m) + 1)"
  by (simp add: books_def live_bytes_insert domIff)

lemma books_delete:
  assumes "m q = Some n"
  shows "books (m(q := None)) = (fst (books m) - n, snd (books m) - 1)"
proof -
  have "m = (m(q := None))(q \<mapsto> n)" using assms by auto
  then have "books m = (fst (books (m(q := None))) + n, snd (books (m(q := None))) + 1)"
    using books_insert [of "m(q := None)" q n] by simp
  then show ?thesis by (simp add: prod_eq_iff)
qed

context jemalloc
begin

lemma accounting_same: "hp_accounting je_live p \<Longrightarrow> hp_same je_inv je_extents je_live p p' \<Longrightarrow> hp_accounting je_live p'"
  by (simp add: hp_accounting_def hp_same_def)

lemma accounting_allocate:
  assumes inv: "hp_inv je_inv je_extents p" and acc: "hp_accounting je_live p"
    and al: "sz = 0 \<or> valid_alignment al"
  shows "wp (HugePageMemoryPool_allocate J tid sz al out)
    (\<lambda>_ p'. hp_inv je_inv je_extents p' \<and> hp_accounting je_live p' \<and> hp_fixed p' = hp_fixed p)
    (\<lambda>_ p'. hp_inv je_inv je_extents p' \<and> hp_accounting je_live p' \<and> hp_fixed p' = hp_fixed p) p"
proof (cases "sz = 0")
  case True
  then show ?thesis using inv acc by (simp add: HugePageMemoryPool_allocate_def wp_simps)
next
  case False
  then have "0 < sz" "valid_alignment al" using al by (simp_all add: word_gt_0)
  show ?thesis
  proof (rule wp_mono [OF HugePageMemoryPool_allocate_wp [OF inv \<open>0 < sz\<close> \<open>valid_alignment al\<close>]], goal_cases)
    case (1 x p')
    obtain st q where x: "x = (st, q)" by fastforce
    show ?case
    proof (cases "status_ok st")
      case True
      then have "hp_live je_live p q = None" "hp_live je_live p' = (hp_live je_live p)(q \<mapsto> sz)"
        "hp_bytes_allocated p' = hp_bytes_allocated p + sz" "hp_num_allocs p' = hp_num_allocs p + 1"
        "hp_inv je_inv je_extents p'" "hp_fixed p' = hp_fixed p"
        using 1 by (simp_all add: x)
      with acc show ?thesis unfolding hp_accounting_def by (simp only: books_insert) (simp add: prod_eq_iff)
    next
      case False
      then show ?thesis using 1 accounting_same [OF acc] by (auto simp: x)
    qed
  next
    case (2 e p')
    then show ?case using acc accounting_same by (auto simp: hp_same_def)
  qed
qed

lemma accounting_free:
  assumes inv: "hp_inv je_inv je_extents p" and acc: "hp_accounting je_live p"
    and live: "hp_live je_live p q = Some n"
    and res: "HugePageMemoryPool_free J tid q n al p = (Inr (), p')"
  shows "hp_inv je_inv je_extents p' \<and> hp_accounting je_live p' \<and> hp_fixed p' = hp_fixed p"
proof -
  from wpD_Inr [OF HugePageMemoryPool_free_wp [OF inv live] res]
  have "hp_inv je_inv je_extents p'" "hp_fixed p' = hp_fixed p"
    "hp_live je_live p' = (hp_live je_live p)(q := None)"
    "hp_bytes_allocated p' = hp_bytes_allocated p - n" "hp_num_allocs p' = hp_num_allocs p - 1" by blast+
  with acc show ?thesis
    unfolding hp_accounting_def by (simp only: books_delete [where m = "hp_live je_live p", OF live]) (simp add: prod_eq_iff)
qed

lemma accounting_reallocate:
  assumes inv: "hp_inv je_inv je_extents p" and acc: "hp_accounting je_live p"
    and live: "hp_live je_live p q = Some n" and sz: "0 < sz" and al: "valid_alignment al"
  shows "wp (HugePageMemoryPool_reallocate J tid n sz al q)
    (\<lambda>_ p'. hp_inv je_inv je_extents p' \<and> hp_accounting je_live p' \<and> hp_fixed p' = hp_fixed p)
    (\<lambda>_ p'. hp_inv je_inv je_extents p' \<and> hp_accounting je_live p' \<and> hp_fixed p' = hp_fixed p) p"
proof (rule wp_mono [OF HugePageMemoryPool_reallocate_wp [OF inv live sz al]], goal_cases)
  case (1 x p')
  obtain st q' where x: "x = (st, q')" by fastforce
  show ?case
  proof (cases "status_ok st")
    case True
    let ?m = "(hp_live je_live p)(q := None)"
    have q': "?m q' = None" using 1 True by (auto simp: x)
    have "hp_inv je_inv je_extents p'" "hp_fixed p' = hp_fixed p" "hp_live je_live p' = ?m(q' \<mapsto> sz)"
      "hp_bytes_allocated p' = hp_bytes_allocated p + sz - n" "hp_num_allocs p' = hp_num_allocs p"
      using 1 True by (simp_all add: x)
    with acc show ?thesis
      unfolding hp_accounting_def
      by (simp only: books_insert [of ?m, OF q'] books_delete [where m = "hp_live je_live p", OF live]) (simp add: prod_eq_iff)
  next
    case False
    then show ?thesis using 1 accounting_same [OF acc] by (auto simp: x)
  qed
next
  case (2 e p')
  then show ?case using acc accounting_same by (auto simp: hp_same_def)
qed

lemma hp_history_inv:
  assumes "hp_history J je_live p0 p" and "hp_inv je_inv je_extents p0" and "hp_accounting je_live p0"
  shows "hp_inv je_inv je_extents p \<and> hp_accounting je_live p \<and> hp_fixed p = hp_fixed p0"
  using assms
proof (induction rule: hp_history.induct)
  case (hp_allocate p sz al tid out)
  then have ih: "hp_inv je_inv je_extents p" "hp_accounting je_live p" "hp_fixed p = hp_fixed p0" by simp_all
  show ?case
    by (rule wp_snd [OF accounting_allocate [OF ih(1,2) hp_allocate.hyps(2)]]) (use ih(3) in simp_all)
next
  case (hp_reallocate p q n sz al tid)
  then have ih: "hp_inv je_inv je_extents p" "hp_accounting je_live p" "hp_fixed p = hp_fixed p0" by simp_all
  show ?case
    by (rule wp_snd [OF accounting_reallocate [OF ih(1,2) hp_reallocate.hyps(2-4)]]) (use ih(3) in simp_all)
next
  case (hp_free p q n tid al p')
  then have ih: "hp_inv je_inv je_extents p" "hp_accounting je_live p" "hp_fixed p = hp_fixed p0" by simp_all
  from accounting_free [OF ih(1,2) hp_free.hyps(2,3)] ih(3) show ?case by simp
qed simp

end

section \<open>A pool of two pages\<close>

definition example_env :: hp_env where
  "example_env = \<lparr>env_file = (\<lambda>name. if name = ''/sys/kernel/mm/hugepages/hugepages-1048576kB/free_hugepages''
        then Some ''2'' else None),
     env_mmap = (\<lambda>len. if len = 2147483648 then 1099511627776 else MAP_FAILED),
     env_zero_size_data = 4096, env_hugepage_hooks = 8192\<rparr>"

definition example_world :: "extent_heap je_world" where
  "example_world = \<lparr>je_hooks = \<lparr>hm_next_free_addr = nullptr, hm_remaining_capacity = 0\<rparr>,
     je_state = \<lparr>xh_live = [], xh_extents = [], xh_next_id = 7\<rparr>\<rparr>"

definition example_huge :: "extent_heap HugePageMemoryPool" where
  "example_huge = \<lparr>hp_world = \<lparr>je_hooks = \<lparr>hm_next_free_addr = 1099511627776, hm_remaining_capacity = 2147483648\<rparr>,
       je_state = \<lparr>xh_live = [], xh_extents = [], xh_next_id = 8\<rparr>\<rparr>,
     hp_tcache_ids = [], hp_arena_index = 7, hp_initial_address = 1099511627776,
     hp_total_capacity = 2147483648, hp_total_bytes_allocated = 0, hp_bytes_allocated = 0,
     hp_num_allocs = 0, hp_ZeroSizePointer = 4096\<rparr>"

lemma example_file: "''/sys/kernel/mm/hugepages/hugepages-'' @ show_nat (unat PAGE_SIZE_KB) @ ''kB/free_hugepages'' =
    ''/sys/kernel/mm/hugepages/hugepages-1048576kB/free_hugepages''"
  by (simp add: PAGE_SIZE_KB_simp show_nat_def show_base.simps digit_char_def) code_simp

lemma example_made: "HugePageMemoryPool_init extent_jemalloc example_env example_world =
    (Inr example_huge, hp_world example_huge)"
proof -
  have "read_int ''2'' = 2" by code_simp
  then have n: "get_number_of_available_huge_pages example_env = Inr 2"
    unfolding get_number_of_available_huge_pages_def example_file by (simp add: example_env_def)
  have env: "env_mmap example_env 2147483648 = 1099511627776" "env_zero_size_data example_env = 4096"
    "env_hugepage_hooks example_env = 8192"
    by (simp_all add: example_env_def)
  show ?thesis
    by (simp add: HugePageMemoryPool_init_def n mallctl_defs method_defs je_call_def extent_jemalloc_def
        xh_mallctl_def example_world_def example_huge_def env PAGE_SIZE_simp
        check_mallctl_success_def MAP_FAILED_def Let_def)
qed

lemma example_fresh: "je_fresh xh_inv xh_map xh_extents (je_state example_world)"
proof -
  have "xh_inv \<lparr>je_hooks = m, je_state = \<lparr>xh_live = [], xh_extents = [], xh_next_id = 7\<rparr>\<rparr>"
    if "hm_wf b c m" for b c m
    using that by (auto simp: xh_inv_def xh_map_def hm_wf_def word_le_nat_alt)
  then show ?thesis by (auto simp: je_fresh_def example_world_def xh_map_def)
qed

lemma example_env_ok: "env_ok example_env"
  by (simp add: env_ok_def example_env_def MAP_FAILED_def range_of_def)

section \<open>Properties\<close>

text \<open>The allocation callback of the huge pages answers a request of jemalloc exactly when the next block
  at the alignment still ends inside the mapped pages: it is then the first aligned block behind all
  that was handed out before, the bookkeeping moves to its end and it is reported as zeroed and
  committed; otherwise the answer is null and nothing changes.\<close>

theorem huge_page_alloc_places_extents:
  assumes "hm_wf b c m" and "0 < sz" and "valid_alignment al"
  shows "let start = round_up (unat (hm_next_free_addr m)) (unat al);
      r = huge_page_alloc nullptr sz al zero commit m; m' = snd r
    in hm_wf b c m' \<and>
      (if start + unat sz \<le> unat b + unat c
       then fst r = Inr (of_nat start, True, True) \<and> unat (of_nat start :: ptr) = start \<and>
         unat (hm_next_free_addr m') = start + unat sz \<and>
         unat (hm_remaining_capacity m') = unat b + unat c - (start + unat sz)
       else r = (Inr (nullptr, zero, commit), m))"
proof -
  let ?start = "round_up (unat (hm_next_free_addr m)) (unat al)"
  let ?r = "huge_page_alloc nullptr sz al zero commit m"
  note cases = huge_page_alloc_cases [OF assms, of zero commit]
  obtain q z co where "?r = (Inr (q, z, co), snd ?r)"
    by (cases "?start + unat sz \<le> unat b + unat c") (auto simp: cases)
  note wf = huge_page_alloc_wf(1) [OF assms this]
  have lim: "unat b + unat c < 2 ^ 64" using assms(1) by (simp add: hm_wf_def)
  show ?thesis
  proof (cases "?start + unat sz \<le> unat b + unat c")
    case True
    then have "?start < 2 ^ 64" "?start + unat sz < 2 ^ 64" "unat b + unat c - (?start + unat sz) < 2 ^ 64"
      using lim by simp_all
    note u = this [THEN unat_of_nat_64]
    from True wf u show ?thesis by (simp add: Let_def cases del: of_nat_add of_nat_diff)
  next
    case False
    then show ?thesis using wf by (simp add: Let_def cases)
  qed
qed

theorem huge_page_alloc_places_extents_witness:
  "huge_page_alloc nullptr 100 64 False False \<lparr>hm_next_free_addr = 1073741825, hm_remaining_capacity = 1000\<rparr> =
    (Inr (1073741888, True, True), \<lparr>hm_next_free_addr = 1073741988, hm_remaining_capacity = 837\<rparr>)"
proof -
  have "hm_wf 1073741824 1001 \<lparr>hm_next_free_addr = 1073741825, hm_remaining_capacity = 1000\<rparr>"
    by (simp add: hm_wf_def)
  from huge_page_alloc_places_extents [OF this _ valid_alignment_64, of 100 False False]
  show ?thesis
    by (auto simp: Let_def round_up_def prod_eq_iff word_unat_eq_iff intro!: huge_memory.equality)
qed

text \<open>C17. The extents jemalloc is given never overlap: whatever sequence of requests is served, and whether
  they are answered or refused, the extents that were handed out follow each other in the part of
  the mapped pages that was free before, so no byte is handed out twice.\<close>

theorem extents_never_overlap:
  assumes "hm_wf b c m" and "hook_calls m xs m'"
  shows "hm_wf b c m' \<and>
    (\<forall>i j. i < j \<longrightarrow> j < length xs \<longrightarrow>
       range_of (fst (xs ! i)) (snd (xs ! i)) \<inter> range_of (fst (xs ! j)) (snd (xs ! j)) = {}) \<and>
    (\<forall>(a, n) \<in> set xs. 0 < n \<and> unat (hm_next_free_addr m) \<le> unat a \<and>
       unat a + unat n \<le> unat (hm_next_free_addr m') \<and> unat a + unat n \<le> unat b + unat c)"
proof -
  from hook_calls_wf [OF assms(2,1)]
  have wf: "hm_wf b c m'" and asc: "ascending (unat (hm_next_free_addr m)) xs (unat (hm_next_free_addr m'))"
    by blast+
  have "unat (hm_next_free_addr m') \<le> unat b + unat c" using wf by (simp add: hm_wf_def)
  then show ?thesis
    using wf ascending_disjoint [OF asc] by (auto dest!: ascending_bounds [OF asc])
qed

theorem extents_never_overlap_witness:
  "\<exists>q r m'. hook_calls \<lparr>hm_next_free_addr = 4096, hm_remaining_capacity = 4096\<rparr> [(q, 100), (r, 300)] m' \<and>
    range_of q 100 \<inter> range_of r 300 = {}"
proof -
  let ?m = "\<lparr>hm_next_free_addr = 4096, hm_remaining_capacity = 4096\<rparr> :: huge_memory"
  have 1: "huge_page_alloc nullptr 100 64 False False ?m = (Inr (4096, True, True),
      \<lparr>hm_next_free_addr = 4196, hm_remaining_capacity = 3996\<rparr>)"
    and 2: "huge_page_alloc nullptr 300 64 False False \<lparr>hm_next_free_addr = 4196, hm_remaining_capacity = 3996\<rparr> =
      (Inr (4224, True, True), \<lparr>hm_next_free_addr = 4524, hm_remaining_capacity = 3668\<rparr>)"
    by (simp_all add: huge_page_alloc_def std_align_def method_defs Let_def)
  have "hook_calls ?m ([] @ [(4096, 100)]) \<lparr>hm_next_free_addr = 4196, hm_remaining_capacity = 3996\<rparr>"
    using hook_call [OF hook_none _ valid_alignment_64 1] by simp
  from hook_call [OF this _ valid_alignment_64 2]
  have calls: "hook_calls ?m [(4096, 100), (4224, 300)] \<lparr>hm_next_free_addr = 4524, hm_remaining_capacity = 3668\<rparr>"
    by simp
  have "hm_wf 4096 4096 ?m" by (simp add: hm_wf_def)
  note never = extents_never_overlap [OF this calls, THEN conjunct2, THEN conjunct1, rule_format, of 0 1]
  have "range_of (4096 :: ptr) 100 \<inter> range_of 4224 300 = {}" using never by simp
  with calls show ?thesis by blast
qed

text \<open>C40. Making a pool: when the constructor returns, the pool owns whole huge pages, as many as the system
  reported free, at the address \<open>mmap\<close> returned; nothing is allocated, the statistics are 0, no thread
  has a cache, and the invariant of the pool holds.\<close>

theorem huge_pool_constructor:
  assumes "jemalloc_start J je_inv je_live je_extents"
    and "je_fresh je_inv je_live je_extents (je_state w)" and "env_ok env"
    and "HugePageMemoryPool_init J env w = (Inr p, w')"
  shows "hp_inv je_inv je_extents p \<and> hp_live je_live p = Map.empty \<and> hp_world p = w' \<and>
    (\<exists>n. get_number_of_available_huge_pages env = Inr n \<and> hp_total_capacity p = of_int n * PAGE_SIZE) \<and>
    hp_initial_address p = env_mmap env (hp_total_capacity p) \<and> hp_tcache_ids p = [] \<and>
    hp_bytes_allocated p = 0 \<and> hp_total_bytes_allocated p = 0 \<and> hp_num_allocs p = 0"
  using wpD_Inr [OF jemalloc_start.HugePageMemoryPool_init_wp [OF assms(1-3)] assms(4)] .

theorem huge_pool_constructor_witness:
  "hp_inv xh_inv xh_extents example_huge \<and> hp_live xh_map example_huge = Map.empty \<and>
    get_number_of_available_huge_pages example_env = Inr 2 \<and> hp_total_capacity example_huge = of_int 2 * PAGE_SIZE"
proof -
  have pages: "get_number_of_available_huge_pages example_env = Inr 2"
    unfolding get_number_of_available_huge_pages_def example_file
    by (simp add: example_env_def) code_simp
  show ?thesis
    using huge_pool_constructor [OF extent_start.jemalloc_start_axioms example_fresh example_env_ok example_made] pages
    by simp
qed

lemma example_huge_inv: "hp_inv xh_inv xh_extents example_huge" "hp_accounting xh_map example_huge"
proof -
  have "hp_inv xh_inv xh_extents example_huge \<and> hp_live xh_map example_huge = Map.empty"
    using wpD_Inr [OF extent_start.HugePageMemoryPool_init_wp [OF example_fresh example_env_ok] example_made]
    by blast
  then show "hp_inv xh_inv xh_extents example_huge" "hp_accounting xh_map example_huge"
    by (simp_all add: hp_accounting_def) (simp add: example_huge_def)
qed

text \<open>After thread 3 has allocated 100 bytes.\<close>

definition example_huge_2 :: "extent_heap HugePageMemoryPool" where
  "example_huge_2 = snd (HugePageMemoryPool_allocate extent_jemalloc 3 100 64 nullptr example_huge)"

lemma example_history: "hp_history extent_jemalloc xh_map example_huge example_huge_2"
  unfolding example_huge_2_def using hp_allocate [OF hp_start] valid_alignment_64 by blast

lemma example_huge_2: "hp_live xh_map example_huge_2 1099511627776 = Some 100"
    "hp_tcache_ids example_huge_2 = [(3, 8)]" "hp_bytes_allocated example_huge_2 = 100"
  by (simp_all add: example_huge_2_def HugePageMemoryPool_allocate_def method_defs example_huge_def
      get_tcache_id_for_calling_thread_def on_world_def je_call_def extent_jemalloc_def mallctl_defs
      xh_mallctl_def check_mallctl_success_def xh_mallocx_def extent_request_def huge_page_alloc_def
      std_align_def hp_live_def xh_map_def Let_def)

text \<open>C16. The blocks of the pool lie in its pages: whatever the threads did with a pool since it was made,
  every block it has handed out and not got back is inside its huge pages (which is what
  \<open>is_in_bounds\<close> says), no two of them overlap, and the lookup for any byte of it returns the huge page
  that contains the byte, at a multiple of the page size behind the start of the pool and inside the
  pool.\<close>

theorem huge_pool_blocks_in_pages:
  assumes "jemalloc J je_inv je_live je_extents" and "hp_history J je_live p0 p"
    and "hp_inv je_inv je_extents p0" and "hp_accounting je_live p0" and "hp_live je_live p q = Some n"
  shows "is_in_bounds p q n \<and> q \<noteq> hp_ZeroSizePointer p \<and>
    (\<forall>r m. hp_live je_live p r = Some m \<longrightarrow> r \<noteq> q \<longrightarrow> range_of q n \<inter> range_of r m = {}) \<and>
    (\<forall>x. unat x \<in> range_of q n \<longrightarrow>
       (\<exists>a. HugePageMemoryPool_get_page_boundaries x p = Inr (a, PAGE_SIZE) \<and>
          unat x \<in> range_of a PAGE_SIZE \<and> unat PAGE_SIZE dvd unat a - unat (hp_initial_address p) \<and>
          range_of a PAGE_SIZE \<subseteq> range_of (hp_initial_address p) (hp_total_capacity p)))"
proof -
  have inv: "hp_inv je_inv je_extents p" using jemalloc.hp_history_inv [OF assms(1-4)] by simp
  note block = jemalloc.hp_live_block [OF assms(1) inv assms(5)]
  let ?b = "hp_initial_address p" and ?c = "hp_total_capacity p"
  have lim: "unat ?b + unat ?c \<le> 2 ^ 48" using inv by (simp add: hp_inv_def hm_wf_def)
  have "0 < unat n" using block(1) by (simp add: word_pos_nat)
  then have "unat q \<in> range_of q n" "unat q + unat n - 1 \<in> range_of q n" by (auto simp: range_of_def)
  then have "unat q \<in> range_of ?b ?c" "unat q + unat n - 1 \<in> range_of ?b ?c" using block(2) by blast+
  then have "is_in_bounds p q n"
    using lim block(4) \<open>0 < unat n\<close>
    by (auto simp: is_in_bounds_def within_bounds_iff no_wrap_def range_of_def)
  moreover have "range_of q n \<inter> range_of r m = {}" if "hp_live je_live p r = Some m" "r \<noteq> q" for r m
  proof -
    have "je_inv (hp_world p)" using inv by (simp add: hp_inv_def)
    from jemalloc.live_apart [OF assms(1) this, of q n r m] show ?thesis
      using assms(5) that by (simp add: hp_live_def)
  qed
  moreover have "\<exists>a. HugePageMemoryPool_get_page_boundaries x p = Inr (a, PAGE_SIZE) \<and>
      unat x \<in> range_of a PAGE_SIZE \<and> unat PAGE_SIZE dvd unat a - unat ?b \<and>
      range_of a PAGE_SIZE \<subseteq> range_of ?b ?c" if "unat x \<in> range_of q n" for x
  proof -
    have "unat x \<in> range_of ?b ?c" using block(2) that by blast
    from jemalloc.huge_page_of [OF assms(1) inv this] obtain a where
      "HugePageMemoryPool_get_page_boundaries x p = Inr (a, PAGE_SIZE)"
      "unat a = unat ?b + (unat x - unat ?b) div unat PAGE_SIZE * unat PAGE_SIZE"
      "unat x \<in> range_of a PAGE_SIZE" "range_of a PAGE_SIZE \<subseteq> range_of ?b ?c" by blast
    then show ?thesis by (intro exI [of _ a]) simp
  qed
  ultimately show ?thesis using block(5) by blast
qed

theorem huge_pool_blocks_in_pages_witness:
  "is_in_bounds example_huge_2 1099511627776 100 \<and>
    (\<exists>a. HugePageMemoryPool_get_page_boundaries 1099511627800 example_huge_2 = Inr (a, PAGE_SIZE) \<and>
       unat (1099511627800 :: ptr) \<in> range_of a PAGE_SIZE)"
proof -
  have "unat (1099511627800 :: ptr) \<in> range_of 1099511627776 100" by (simp add: range_of_def)
  then show ?thesis
    using huge_pool_blocks_in_pages [OF extent_pool.jemalloc_axioms example_history example_huge_inv example_huge_2(1)]
    by blast
qed

text \<open>Statistics of the pool of huge pages: after any history of allocations, reallocations and frees by any
  threads, the allocated bytes are the sum of the sizes of the blocks not yet given back and the
  number of allocations is their number (both modulo 2^64), and the pool still has the pages, the arena and the
  empty block it was made with.\<close>

theorem huge_pool_statistics:
  assumes "jemalloc J je_inv je_live je_extents" and "hp_history J je_live p0 p"
    and "hp_inv je_inv je_extents p0" and "hp_accounting je_live p0"
  shows "hp_bytes_allocated p = live_bytes (hp_live je_live p) \<and>
    hp_num_allocs p = of_nat (card (dom (hp_live je_live p))) \<and> hp_fixed p = hp_fixed p0"
  using jemalloc.hp_history_inv [OF assms] by (simp add: hp_accounting_def books_def)

theorem huge_pool_statistics_witness:
  "100 = live_bytes (hp_live xh_map example_huge_2)"
  using huge_pool_statistics [OF extent_pool.jemalloc_axioms example_history example_huge_inv] example_huge_2(3)
  by simp

end
