(* ===== verification/Huge_Page_Transfers.thy ===== *)
theory Huge_Page_Transfers
  imports Huge_Page_Properties Transfers
begin

text \<open>
  The pool of huge pages, the TLB manager and the transfers together: what a program gains when it
  maps the whole pool once after its start, as the examples do, and what \<open>offload_to_card\<close> asks of
  the driver.
\<close>

section \<open>The pages of a pool\<close>

definition hp_page :: "'j HugePageMemoryPool \<Rightarrow> nat \<Rightarrow> ptr" where
  "hp_page p k = hp_initial_address p + of_nat k * PAGE_SIZE"

definition hp_num_pages :: "'j HugePageMemoryPool \<Rightarrow> nat" where
  "hp_num_pages p = unat (hp_total_capacity p) div unat PAGE_SIZE"

definition hp_pages :: "'j HugePageMemoryPool \<Rightarrow> ptr set" where
  "hp_pages p = hp_page p ` {..< hp_num_pages p}"

lemma hp_fixed_pages: "hp_fixed p = hp_fixed p0 \<Longrightarrow> hp_pages p = hp_pages p0"
  by (simp add: hp_fixed_def hp_pages_def hp_page_def hp_num_pages_def)

lemma PAGE_SIZE_pos: "0 < unat PAGE_SIZE"
  by (simp add: PAGE_SIZE_simp)

lemma less_pages: "(k :: nat) < m div d \<Longrightarrow> k * d + d \<le> m"
proof -
  assume "k < m div d"
  then have "Suc k * d \<le> m div d * d" by (intro mult_le_mono1) simp
  also have "\<dots> \<le> m" by (rule div_times_less_eq_dividend)
  finally show ?thesis by simp
qed

definition page_moves :: "'j HugePageMemoryPool \<Rightarrow> nat \<Rightarrow> u64 \<Rightarrow> u64 \<Rightarrow> (ptr \<times> u64) list" where
  "page_moves p i n mx = map (\<lambda>k. (hp_page p (i + k), min (min PAGE_SIZE (n - of_nat k * PAGE_SIZE)) mx))
     [0 ..< num_chunks (unat n) (unat PAGE_SIZE)]"

context jemalloc
begin

lemma hp_page_start:
  assumes inv: "hp_inv je_inv je_extents p" and k: "k \<le> hp_num_pages p"
  shows "unat (hp_page p k) = unat (hp_initial_address p) + k * unat PAGE_SIZE"
    "unat (hp_initial_address p) + k * unat PAGE_SIZE \<le> unat (hp_initial_address p) + unat (hp_total_capacity p)"
proof -
  have lim: "unat (hp_initial_address p) + unat (hp_total_capacity p) \<le> 2 ^ 48"
    using inv by (simp add: hp_inv_def hm_wf_def)
  have top: "k * unat PAGE_SIZE \<le> unat (hp_total_capacity p)"
    using order_trans [OF mult_le_mono1 [OF k [unfolded hp_num_pages_def]] div_times_less_eq_dividend] .
  have "unat (of_nat k * PAGE_SIZE) = k * unat PAGE_SIZE"
    using lim top by (intro unat_of_nat_mult) simp
  then show "unat (hp_page p k) = unat (hp_initial_address p) + k * unat PAGE_SIZE"
    unfolding hp_page_def using lim top by (subst unat_add_no_wrap) simp_all
  show "unat (hp_initial_address p) + k * unat PAGE_SIZE \<le> unat (hp_initial_address p) + unat (hp_total_capacity p)"
    using top by simp
qed

lemma hp_page_unat:
  assumes inv: "hp_inv je_inv je_extents p" and k: "k < hp_num_pages p"
  shows "unat (hp_page p k) = unat (hp_initial_address p) + k * unat PAGE_SIZE"
    "range_of (hp_page p k) PAGE_SIZE \<subseteq> range_of (hp_initial_address p) (hp_total_capacity p)"
proof -
  show *: "unat (hp_page p k) = unat (hp_initial_address p) + k * unat PAGE_SIZE"
    using hp_page_start(1) [OF inv] k by simp
  show "range_of (hp_page p k) PAGE_SIZE \<subseteq> range_of (hp_initial_address p) (hp_total_capacity p)"
    using less_pages [OF k [unfolded hp_num_pages_def]] unfolding range_of_def * by auto
qed

text \<open>The lookup for an address of the pool gives the page with this number.\<close>

definition page_number :: "'j HugePageMemoryPool \<Rightarrow> ptr \<Rightarrow> nat" where
  "page_number p x = (unat x - unat (hp_initial_address p)) div unat PAGE_SIZE"

lemma page_of:
  assumes inv: "hp_inv je_inv je_extents p"
    and x: "unat x \<in> range_of (hp_initial_address p) (hp_total_capacity p)"
  shows "HugePageMemoryPool_get_page_boundaries x p = Inr (hp_page p (page_number p x), PAGE_SIZE)"
    "page_number p x < hp_num_pages p" "unat x \<in> range_of (hp_page p (page_number p x)) PAGE_SIZE"
proof -
  obtain a where a: "HugePageMemoryPool_get_page_boundaries x p = Inr (a, PAGE_SIZE)"
    "unat a = unat (hp_initial_address p) + page_number p x * unat PAGE_SIZE"
    "unat x \<in> range_of a PAGE_SIZE"
    using huge_page_of [OF inv x] unfolding page_number_def by blast
  have "unat (hp_total_capacity p) = hp_num_pages p * unat PAGE_SIZE"
    using inv by (simp add: hp_inv_def hp_num_pages_def)
  then have "page_number p x * unat PAGE_SIZE < hp_num_pages p * unat PAGE_SIZE"
  proof -
    have "unat a \<le> unat x" "unat x < unat (hp_initial_address p) + unat (hp_total_capacity p)"
      using x a(3) by (auto simp: range_of_def)
    with a(2) \<open>unat (hp_total_capacity p) = _\<close> show ?thesis by linarith
  qed
  then show n: "page_number p x < hp_num_pages p" by simp
  have "a = hp_page p (page_number p x)"
    using a(2) hp_page_unat(1) [OF inv n] by (simp add: word_unat_eq_iff)
  with a show "HugePageMemoryPool_get_page_boundaries x p = Inr (hp_page p (page_number p x), PAGE_SIZE)"
    "unat x \<in> range_of (hp_page p (page_number p x)) PAGE_SIZE" by simp_all
qed

lemma page_number_page:
  assumes inv: "hp_inv je_inv je_extents p" and k: "k < hp_num_pages p"
  shows "page_number p (hp_page p k) = k" "unat (hp_page p k) \<in> range_of (hp_initial_address p) (hp_total_capacity p)"
proof -
  have "unat (hp_page p k) \<in> range_of (hp_page p k) PAGE_SIZE"
    using PAGE_SIZE_pos by (simp add: range_of_def)
  then show "unat (hp_page p k) \<in> range_of (hp_initial_address p) (hp_total_capacity p)"
    using hp_page_unat(2) [OF inv k] by blast
  show "page_number p (hp_page p k) = k"
    using hp_page_unat(1) [OF inv k] PAGE_SIZE_pos by (simp add: page_number_def)
qed

lemma page_number_unique:
  assumes inv: "hp_inv je_inv je_extents p" and "i < hp_num_pages p" "k < hp_num_pages p"
    and "unat (hp_page p k) \<in> range_of (hp_page p i) PAGE_SIZE"
  shows "i = k"
proof -
  have "i * unat PAGE_SIZE \<le> k * unat PAGE_SIZE" "k * unat PAGE_SIZE < Suc i * unat PAGE_SIZE"
    using assms(4) hp_page_unat(1) [OF inv assms(2)] hp_page_unat(1) [OF inv assms(3)]
    by (auto simp: range_of_def)
  then have "i \<le> k" "k < Suc i" using PAGE_SIZE_pos by (simp_all only: mult_le_cancel2 mult_less_cancel2)
  then show ?thesis by simp
qed

lemma hp_paged:
  assumes inv: "hp_inv je_inv je_extents p" and sub: "range_of a sz \<subseteq> range_of (hp_initial_address p) (hp_total_capacity p)"
    and pos: "0 < sz"
  shows "paged (HugePageMemoryPool_ops J tid) p a sz"
proof -
  have lim: "unat (hp_initial_address p) + unat (hp_total_capacity p) \<le> 2 ^ 48"
    using inv by (simp add: hp_inv_def hm_wf_def)
  have nw: "no_wrap b n" if "range_of b n \<subseteq> range_of (hp_initial_address p) (hp_total_capacity p)" "0 < n" for b n
  proof -
    have "unat b + unat n - 1 \<in> range_of b n" using that(2) by (auto simp: range_of_def word_pos_nat)
    then show ?thesis using that(1) lim by (auto simp: range_of_def no_wrap_def)
  qed
  show ?thesis
    unfolding paged_def
  proof (intro conjI allI impI)
    show "no_wrap a sz" by (rule nw [OF sub pos])
    fix x :: ptr
    assume "unat x \<in> range_of a sz"
    then have x: "unat x \<in> range_of (hp_initial_address p) (hp_total_capacity p)" using sub by blast
    have "no_wrap (hp_page p (page_number p x)) PAGE_SIZE"
      by (rule nw [OF hp_page_unat(2) [OF inv page_of(2) [OF inv x]]]) (simp add: PAGE_SIZE_simp)
    then show "\<exists>pa pn. pool_get_page_boundaries (HugePageMemoryPool_ops J tid) x p = Inr (pa, pn) \<and>
        no_wrap pa pn \<and> unat x \<in> range_of pa pn"
      using page_of(1,3) [OF inv x] by (simp add: HugePageMemoryPool_ops_def)
  qed
qed

lemma pages_mapped_no_call:
  assumes inv: "hp_inv je_inv je_extents (host_pool h)" and maps: "hp_pages (host_pool h) \<subseteq> existing_tlb_mappings h"
    and sub: "range_of a sz \<subseteq> range_of (hp_initial_address (host_pool h)) (hp_total_capacity (host_pool h))"
    and pos: "0 < sz"
  shows "ensure_tlb_mapping (HugePageMemoryPool_ops J tid) a sz h = (Inr (), h)"
proof (rule ensure_tlb_mapping_mapped [OF hp_paged [OF inv sub pos] pos])
  fix x pa pn
  assume "unat x \<in> range_of a sz"
    and eq: "pool_get_page_boundaries (HugePageMemoryPool_ops J tid) x (host_pool h) = Inr (pa, pn)"
  then have x: "unat x \<in> range_of (hp_initial_address (host_pool h)) (hp_total_capacity (host_pool h))"
    using sub by blast
  show "pa \<in> existing_tlb_mappings h"
    using page_of(1,2) [OF inv x] eq maps by (auto simp: HugePageMemoryPool_ops_def hp_pages_def)
qed

lemma premapping:
  fixes h :: "('j HugePageMemoryPool, 'm) host_scheme"
  defines "p \<equiv> host_pool h"
  assumes inv: "hp_inv je_inv je_extents p" and cap: "0 < hp_total_capacity p"
  obtains new where
    "ensure_tlb_mapping (HugePageMemoryPool_ops J tid) (hp_initial_address p) (hp_total_capacity p) h =
       (Inr (), after_maps new h)"
    "distinct (map fst new)" "fst ` set new \<inter> existing_tlb_mappings h = {}"
    "set new = (\<lambda>a. (a, PAGE_SIZE)) ` (hp_pages p - existing_tlb_mappings h)"
proof -
  let ?ops = "HugePageMemoryPool_ops J tid" and ?b = "hp_initial_address p" and ?c = "hp_total_capacity p"
  obtain new where new: "ensure_tlb_mapping ?ops ?b ?c h = (Inr (), after_maps new h)"
    "distinct (map fst new)" "fst ` set new \<inter> existing_tlb_mappings h = {}"
    "covered ?ops (after_maps new h) ?b ?c"
    "\<And>pa pn. (pa, pn) \<in> set new \<Longrightarrow>
       \<exists>x. unat x \<in> range_of ?b ?c \<and> pool_get_page_boundaries ?ops x (host_pool h) = Inr (pa, pn)"
    using ensure_tlb_mapping_maps [OF hp_paged [OF inv order_refl cap, of tid, unfolded p_def], folded p_def] cap
    by (metis p_def)
  have sub: "pa \<in> hp_pages p \<and> pn = PAGE_SIZE" if mem: "(pa, pn) \<in> set new" for pa pn
  proof -
    obtain x where x: "unat x \<in> range_of ?b ?c" "pool_get_page_boundaries ?ops x p = Inr (pa, pn)"
      using new(5) [OF mem] unfolding p_def by blast
    then show ?thesis using page_of(1,2) [OF inv x(1)] by (auto simp: HugePageMemoryPool_ops_def hp_pages_def)
  qed
  have sup: "hp_page p k \<in> existing_tlb_mappings (after_maps new h)" if k: "k < hp_num_pages p" for k
  proof -
    obtain y pa pn where y: "unat y \<in> range_of ?b ?c" "pool_get_page_boundaries ?ops y p = Inr (pa, pn)"
      "pa \<in> existing_tlb_mappings (after_maps new h)" "unat (hp_page p k) \<in> range_of pa pn"
      using new(4) [unfolded covered_def, rule_format, of "hp_page p k"] page_number_page(2) [OF inv k]
      unfolding p_def after_maps_simps by metis
    note py = page_of [OF inv y(1)]
    have "pa = hp_page p (page_number p y)" "pn = PAGE_SIZE"
      using py(1) y(2) by (simp_all add: HugePageMemoryPool_ops_def)
    then show ?thesis using y(3,4) page_number_unique [OF inv py(2) k] by simp
  qed
  have "set new = (\<lambda>a. (a, PAGE_SIZE)) ` (hp_pages p - existing_tlb_mappings h)"
  proof
    show "set new \<subseteq> (\<lambda>a. (a, PAGE_SIZE)) ` (hp_pages p - existing_tlb_mappings h)"
      using sub new(3) by force
    show "(\<lambda>a. (a, PAGE_SIZE)) ` (hp_pages p - existing_tlb_mappings h) \<subseteq> set new"
    proof
      fix e
      assume "e \<in> (\<lambda>a. (a, PAGE_SIZE)) ` (hp_pages p - existing_tlb_mappings h)"
      then obtain k where k: "k < hp_num_pages p" "e = (hp_page p k, PAGE_SIZE)"
        "hp_page p k \<notin> existing_tlb_mappings h" by (auto simp: hp_pages_def)
      then have "hp_page p k \<in> fst ` set new" using sup by auto
      then show "e \<in> set new" using sub k(2) by force
    qed
  qed
  with new show thesis by (intro that [of new])
qed

lemma offload_step_len:
  assumes "unat a + unat sz \<le> 2 ^ 48" and "k * unat PAGE_SIZE < unat sz"
    and "unat b = unat a + k * unat PAGE_SIZE"
  shows "min (b + PAGE_SIZE) (a + sz) - b = min PAGE_SIZE (sz - of_nat k * PAGE_SIZE)"
proof -
  have P: "unat PAGE_SIZE = 1073741824" by (simp add: PAGE_SIZE_simp)
  have s: "unat (a + sz) = unat a + unat sz" using assms(1) by (subst unat_add_no_wrap) simp_all
  have e: "unat (b + PAGE_SIZE) = unat b + unat PAGE_SIZE"
    using assms P by (subst unat_add_no_wrap) simp_all
  have "unat (of_nat k * PAGE_SIZE) = k * unat PAGE_SIZE"
    using assms(1,2) by (intro unat_of_nat_mult) simp
  moreover from this have "of_nat k * PAGE_SIZE \<le> sz" using assms(2) by (simp add: word_le_nat_alt)
  ultimately have d: "unat (sz - of_nat k * PAGE_SIZE) = unat sz - k * unat PAGE_SIZE"
    by (simp add: unat_diff_le)
  have "unat (min (b + PAGE_SIZE) (a + sz)) = min (unat b + unat PAGE_SIZE) (unat a + unat sz)"
    by (simp add: min_def word_le_nat_alt s e)
  moreover from this have "b \<le> min (b + PAGE_SIZE) (a + sz)"
    using assms(2,3) by (simp add: word_le_nat_alt)
  ultimately have "unat (min (b + PAGE_SIZE) (a + sz) - b) =
      min (unat b + unat PAGE_SIZE) (unat a + unat sz) - unat b" by (simp add: unat_diff_le)
  also have "\<dots> = unat (min PAGE_SIZE (sz - of_nat k * PAGE_SIZE))"
    using assms(2,3) by (auto simp: min_def word_le_nat_alt d)
  finally show ?thesis by (simp add: word_unat_eq_iff)
qed

lemma offload_page_bounds:
  assumes inv: "hp_inv je_inv je_extents p"
    and fits: "i * unat PAGE_SIZE + unat sz \<le> unat (hp_total_capacity p)"
    and k: "k \<le> num_chunks (unat sz) (unat PAGE_SIZE)"
  shows "unat (hp_page p (i + k)) = unat (hp_page p i) + k * unat PAGE_SIZE"
    "unat (hp_page p i + sz) = unat (hp_page p i) + unat sz"
    "unat (hp_page p i) + unat sz \<le> 2 ^ 48"
    "i + k \<le> hp_num_pages p"
proof -
  let ?P = "unat PAGE_SIZE"
  have lim: "unat (hp_initial_address p) + unat (hp_total_capacity p) \<le> 2 ^ 48"
    and cap: "unat (hp_total_capacity p) = hp_num_pages p * ?P"
    using inv by (simp_all add: hp_inv_def hm_wf_def hp_num_pages_def)
  show le: "i + k \<le> hp_num_pages p"
  proof (cases k)
    case 0
    have "i * ?P \<le> hp_num_pages p * ?P" using fits cap by linarith
    then show ?thesis using 0 PAGE_SIZE_pos by simp
  next
    case (Suc m)
    then have "m * ?P < unat sz" using k num_chunks_iff [OF PAGE_SIZE_pos, of m "unat sz"] by simp
    then have "(i + m) * ?P < hp_num_pages p * ?P" using fits cap by (simp add: algebra_simps)
    then show ?thesis using Suc by simp
  qed
  note start = hp_page_start [OF inv le] hp_page_start [OF inv, of i]
  have i: "unat (hp_page p i) = unat (hp_initial_address p) + i * ?P" using start(3) le by simp
  show "unat (hp_page p (i + k)) = unat (hp_page p i) + k * ?P"
    using start(1) i by (simp add: algebra_simps)
  show *: "unat (hp_page p i) + unat sz \<le> 2 ^ 48" using i fits lim by linarith
  show "unat (hp_page p i + sz) = unat (hp_page p i) + unat sz"
    using * by (subst unat_add_no_wrap) simp_all
qed

lemma offload_pages:
  fixes h :: "('j HugePageMemoryPool, 'm) host_scheme"
  assumes inv: "hp_inv je_inv je_extents (host_pool h)"
    and fits: "i * unat PAGE_SIZE + unat sz \<le> unat (hp_total_capacity (host_pool h))"
    and k: "k \<le> num_chunks (unat sz) (unat PAGE_SIZE)"
  shows "offload_loop mx (HugePageMemoryPool_ops J tid) (hp_page (host_pool h) i + sz)
      (hp_page (host_pool h) (i + k)) h =
    Some (Inr (), h\<lparr>host_cthread := host_cthread h @
      map (\<lambda>k. LocalOffload (hp_page (host_pool h) (i + k)) (min (min PAGE_SIZE (sz - of_nat k * PAGE_SIZE)) mx))
        [k ..< num_chunks (unat sz) (unat PAGE_SIZE)]\<rparr>)"
  using inv fits k
proof (induction "num_chunks (unat sz) (unat PAGE_SIZE) - k" arbitrary: k h)
  case 0
  let ?n = "num_chunks (unat sz) (unat PAGE_SIZE)" and ?p = "host_pool h"
  have "k = ?n" using 0 by simp
  note offload_page_bounds [OF 0(2,3) 0(4)]
  then have "\<not> hp_page ?p (i + k) < hp_page ?p i + sz"
    using num_chunks_iff [OF PAGE_SIZE_pos, of k "unat sz"] \<open>k = ?n\<close> by (simp add: word_less_nat_alt)
  then show ?case using \<open>k = ?n\<close> by (subst offload_loop.simps) simp
next
  case (Suc d)
  let ?n = "num_chunks (unat sz) (unat PAGE_SIZE)" and ?p = "host_pool h"
  let ?b = "hp_page ?p (i + k)" and ?stop = "hp_page ?p i + sz"
  have k: "k < ?n" using Suc.hyps(2) by simp
  then have lt: "k * unat PAGE_SIZE < unat sz" using num_chunks_iff [OF PAGE_SIZE_pos] by simp
  note bounds = offload_page_bounds [OF Suc.prems(1,2) Suc.prems(3)]
  have "?b < ?stop" using bounds lt by (simp add: word_less_nat_alt)
  moreover have ik: "i + k < hp_num_pages ?p"
    using offload_page_bounds(4) [OF Suc.prems(1,2) Suc_leI [OF k]] by simp
  have "HugePageMemoryPool_get_page_boundaries ?b ?p = Inr (?b, PAGE_SIZE)"
    using page_of(1) [OF Suc.prems(1) page_number_page(2) [OF Suc.prems(1) ik]]
      page_number_page(1) [OF Suc.prems(1) ik] by simp
  then have "pool_get_page_boundaries (HugePageMemoryPool_ops J tid) ?b ?p = Inr (?b, PAGE_SIZE)"
    by (simp add: HugePageMemoryPool_ops_def)
  moreover have "min (?b + PAGE_SIZE) ?stop - ?b = min PAGE_SIZE (sz - of_nat k * PAGE_SIZE)"
    using bounds lt by (intro offload_step_len) simp_all
  moreover have "?b + PAGE_SIZE = hp_page ?p (i + Suc k)"
    by (simp add: hp_page_def algebra_simps)
  moreover have "d = ?n - Suc k" "Suc k \<le> ?n" using Suc.hyps(2) k by simp_all
  ultimately show ?case
    using Suc.hyps(1) [of "Suc k" "h\<lparr>host_cthread := host_cthread h @
        [LocalOffload ?b (min (min PAGE_SIZE (sz - of_nat k * PAGE_SIZE)) mx)]\<rparr>"] Suc.prems k
    by (subst offload_loop.simps) (simp add: upt_conv_Cons)
qed

text \<open>The pages of a block and what is moved of each.\<close>

lemma page_moves_each:
  assumes inv: "hp_inv je_inv je_extents p"
    and fits: "i * unat PAGE_SIZE + unat n \<le> unat (hp_total_capacity p)" and "0 < mx"
    and mem: "(a, m) \<in> set (page_moves p i n mx)"
  shows "HugePageMemoryPool_get_page_boundaries a p = Inr (a, PAGE_SIZE) \<and> 0 < m \<and> m \<le> mx"
proof -
  obtain k where k: "k < num_chunks (unat n) (unat PAGE_SIZE)" "a = hp_page p (i + k)"
    "m = min (min PAGE_SIZE (n - of_nat k * PAGE_SIZE)) mx"
    using mem unfolding page_moves_def by auto
  have "i + k < hp_num_pages p" using offload_page_bounds(4) [OF inv fits Suc_leI [OF k(1)]] by simp
  note pk = page_number_page [OF inv this]
  have lt: "k * unat PAGE_SIZE < unat n" using k(1) num_chunks_iff [OF PAGE_SIZE_pos] by simp
  then have "unat (of_nat k * PAGE_SIZE) = k * unat PAGE_SIZE"
    using unat_64_bound [of n] by (intro unat_of_nat_mult) simp
  then have "of_nat k * PAGE_SIZE < n" using lt by (simp add: word_less_nat_alt)
  then have "0 < m" using k(3) assms(3) PAGE_SIZE_pos by (simp add: word_pos_nat [symmetric] word_gt_0)
  moreover have "m \<le> mx" by (simp add: k(3))
  ultimately show ?thesis
    using page_of(1) [OF inv pk(2)] pk(1) k(2) by simp
qed

lemma page_moves_cover:
  assumes inv: "hp_inv je_inv je_extents p"
    and fits: "i * unat PAGE_SIZE + unat n \<le> unat (hp_total_capacity p)"
  shows "distinct (map fst (page_moves p i n mx))"
    "range_of (hp_page p i) n \<subseteq> (\<Union>(a, m) \<in> set (page_moves p i n mx). range_of a PAGE_SIZE)"
proof -
  let ?N = "num_chunks (unat n) (unat PAGE_SIZE)" and ?P = "unat PAGE_SIZE" and ?q = "hp_page p i"
  have at: "unat (hp_page p (i + k)) = unat ?q + k * ?P" if "k < ?N" for k
    using offload_page_bounds(1) [OF inv fits, of k] that by simp
  have "inj_on (\<lambda>k. hp_page p (i + k)) {0 ..< ?N}"
  proof (rule inj_onI)
    fix j k
    assume "j \<in> {0 ..< ?N}" "k \<in> {0 ..< ?N}" "hp_page p (i + j) = hp_page p (i + k)"
    then have "j * ?P = k * ?P" using at [of j] at [of k] by auto
    then show "j = k" using PAGE_SIZE_pos by auto
  qed
  then show "distinct (map fst (page_moves p i n mx))" by (simp add: page_moves_def distinct_map comp_def)
  show "range_of ?q n \<subseteq> (\<Union>(a, m) \<in> set (page_moves p i n mx). range_of a PAGE_SIZE)"
  proof
    fix x
    assume x: "x \<in> range_of ?q n"
    define k where "k = (x - unat ?q) div ?P"
    have "k * ?P \<le> x - unat ?q" by (simp add: k_def)
    moreover have "x - unat ?q < k * ?P + ?P"
      using PAGE_SIZE_pos by (simp add: k_def) (metis add.commute dividend_less_div_times)
    ultimately have "k * ?P < unat n" "unat ?q + k * ?P \<le> x" "x < unat ?q + k * ?P + ?P"
      using x by (auto simp: range_of_def)
    moreover from this have "k < ?N" using num_chunks_iff [OF PAGE_SIZE_pos] by simp
    ultimately have "x \<in> range_of (hp_page p (i + k)) PAGE_SIZE" using at by (simp add: range_of_def)
    then show "x \<in> (\<Union>(a, m) \<in> set (page_moves p i n mx). range_of a PAGE_SIZE)"
      using \<open>k < ?N\<close> by (auto simp: page_moves_def intro!: bexI [of _ k])
  qed
qed

text \<open>A block that begins at a page.\<close>

lemma block_at_page:
  assumes inv: "hp_inv je_inv je_extents p" and lv: "hp_live je_live p q = Some n"
    and dvd: "unat PAGE_SIZE dvd unat q - unat (hp_initial_address p)"
  obtains i where "q = hp_page p i" "i * unat PAGE_SIZE + unat n \<le> unat (hp_total_capacity p)"
proof -
  let ?P = "unat PAGE_SIZE" and ?b = "hp_initial_address p"
  note block = hp_live_block [OF inv lv]
  have pos: "0 < unat n" using block(1) by (simp add: word_pos_nat)
  then have "unat q \<in> range_of q n" "unat q + unat n - 1 \<in> range_of q n" by (auto simp: range_of_def)
  then have "unat q \<in> range_of ?b (hp_total_capacity p)" "unat q + unat n - 1 \<in> range_of ?b (hp_total_capacity p)"
    using block(2) by blast+
  then have qn: "unat ?b \<le> unat q" "unat q + unat n \<le> unat ?b + unat (hp_total_capacity p)"
    using pos by (auto simp: range_of_def)
  obtain i where i: "unat q - unat ?b = i * ?P" using dvd by (metis dvdE mult.commute)
  have fits: "i * ?P + unat n \<le> unat (hp_total_capacity p)" using i qn by linarith
  have "unat (hp_page p i) = unat ?b + i * ?P"
    using hp_page_start(1) [OF inv, of i] offload_page_bounds(4) [OF inv fits, of 0] by simp
  then have "q = hp_page p i" using i qn(1) by (simp add: word_unat_eq_iff)
  with fits show thesis by (rule that [rotated])
qed

end

section \<open>Properties\<close>

text \<open>Mapping the pool in advance: \<open>ensure_tlb_mapping\<close> over the whole pool of huge pages asks the driver for
  each page that was not mapped exactly once and for nothing else. From then on, whatever the
  threads do with the pool, mapping any part of any of its blocks makes no call at all, so a
  transfer never waits for the driver to map a page.\<close>

theorem premapped_pool_needs_no_calls:
  fixes h :: "('j HugePageMemoryPool, 'm) host_scheme"
  assumes "jemalloc J je_inv je_live je_extents" and "hp_inv je_inv je_extents (host_pool h)"
    and "hp_accounting je_live (host_pool h)" and "tlb_inv h" and "0 < hp_total_capacity (host_pool h)"
  shows "\<exists>new h1.
    ensure_tlb_mapping (HugePageMemoryPool_ops J tid) (hp_initial_address (host_pool h))
      (hp_total_capacity (host_pool h)) h = (Inr (), h1) \<and>
    host_cthread h1 = host_cthread h @ user_maps new \<and> distinct (map fst new) \<and>
    set new = (\<lambda>a. (a, PAGE_SIZE)) ` (hp_pages (host_pool h) - existing_tlb_mappings h) \<and>
    tlb_inv h1 \<and> host_pool h1 = host_pool h \<and>
    (\<forall>(h2 :: ('j HugePageMemoryPool, 'm) host_scheme) tid2 q n a sz.
       hp_history J je_live (host_pool h) (host_pool h2) \<longrightarrow>
       existing_tlb_mappings h1 \<subseteq> existing_tlb_mappings h2 \<longrightarrow>
       hp_live je_live (host_pool h2) q = Some n \<longrightarrow> range_of a sz \<subseteq> range_of q n \<longrightarrow> 0 < sz \<longrightarrow>
       ensure_tlb_mapping (HugePageMemoryPool_ops J tid2) a sz h2 = (Inr (), h2))"
proof -
  obtain new where new: "ensure_tlb_mapping (HugePageMemoryPool_ops J tid) (hp_initial_address (host_pool h))
      (hp_total_capacity (host_pool h)) h = (Inr (), after_maps new h)"
    "distinct (map fst new)" "fst ` set new \<inter> existing_tlb_mappings h = {}"
    "set new = (\<lambda>a. (a, PAGE_SIZE)) ` (hp_pages (host_pool h) - existing_tlb_mappings h)"
    by (rule jemalloc.premapping [OF assms(1,2,5)])
  have all: "hp_pages (host_pool h) \<subseteq> existing_tlb_mappings (after_maps new h)"
    using new(4) by (auto simp: image_image)
  have later: "ensure_tlb_mapping (HugePageMemoryPool_ops J tid2) a sz h2 = (Inr (), h2)"
    if maps: "existing_tlb_mappings (after_maps new h) \<subseteq> existing_tlb_mappings h2"
      and hist: "hp_history J je_live (host_pool h) (host_pool h2)"
      and block: "hp_live je_live (host_pool h2) q = Some n" "range_of a sz \<subseteq> range_of q n" and pos: "0 < sz"
    for h2 :: "('j HugePageMemoryPool, 'm) host_scheme" and tid2 q n a sz
  proof -
    have inv: "hp_inv je_inv je_extents (host_pool h2)" and fx: "hp_fixed (host_pool h2) = hp_fixed (host_pool h)"
      using jemalloc.hp_history_inv [OF assms(1) hist assms(2,3)] by simp_all
    have "range_of a sz \<subseteq> range_of (hp_initial_address (host_pool h2)) (hp_total_capacity (host_pool h2))"
      using block(2) jemalloc.hp_live_block(2) [OF assms(1) inv block(1)] by blast
    then show ?thesis
      using jemalloc.pages_mapped_no_call [OF assms(1) inv _ _ pos] subset_trans [OF all maps] hp_fixed_pages [OF fx]
      by simp
  qed
  have "tlb_inv (after_maps new h)" by (rule tlb_inv_maps [OF assms(4) new(2,3)]) simp_all
  then show ?thesis
    using new(1,2,4) by (intro exI [of _ new] exI [of _ "after_maps new h"] conjI allI impI later) simp_all
qed

definition example_huge_host :: "extent_heap HugePageMemoryPool host" where
  "example_huge_host = \<lparr>host_pool = example_huge, existing_tlb_mappings = {}, host_cthread = []\<rparr>"

lemma example_huge_host: "host_pool example_huge_host = example_huge" "tlb_inv example_huge_host"
  by (simp_all add: example_huge_host_def tlb_inv_def mapped_after_def)

theorem premapped_pool_needs_no_calls_witness:
  "\<exists>h1. ensure_tlb_mapping (HugePageMemoryPool_ops extent_jemalloc 1) 1099511627776 2147483648 example_huge_host =
      (Inr (), h1) \<and>
    ensure_tlb_mapping (HugePageMemoryPool_ops extent_jemalloc 2) 1099511627780 16 (h1\<lparr>host_pool := example_huge_2\<rparr>) =
      (Inr (), h1\<lparr>host_pool := example_huge_2\<rparr>)"
proof -
  let ?h = example_huge_host
  have hyps: "hp_inv xh_inv xh_extents (host_pool ?h)" "hp_accounting xh_map (host_pool ?h)"
    "0 < hp_total_capacity (host_pool ?h)" "hp_initial_address (host_pool ?h) = 1099511627776"
    "hp_total_capacity (host_pool ?h) = 2147483648"
    using example_huge_inv by (simp_all add: example_huge_host, simp_all add: example_huge_def)
  obtain h1 where h1: "ensure_tlb_mapping (HugePageMemoryPool_ops extent_jemalloc 1) 1099511627776 2147483648 ?h =
      (Inr (), h1)"
    "\<forall>(h2 :: extent_heap HugePageMemoryPool host) tid2 q n a sz. hp_history extent_jemalloc xh_map (host_pool ?h) (host_pool h2) \<longrightarrow>
       existing_tlb_mappings h1 \<subseteq> existing_tlb_mappings h2 \<longrightarrow> hp_live xh_map (host_pool h2) q = Some n \<longrightarrow>
       range_of a sz \<subseteq> range_of q n \<longrightarrow> 0 < sz \<longrightarrow>
       ensure_tlb_mapping (HugePageMemoryPool_ops extent_jemalloc tid2) a sz h2 = (Inr (), h2)"
    using premapped_pool_needs_no_calls [OF extent_pool.jemalloc_axioms hyps(1,2) example_huge_host(2) hyps(3), of 1]
    unfolding hyps(4,5) by (elim exE conjE) (rule that, assumption+)
  have "range_of 1099511627780 16 \<subseteq> range_of 1099511627776 100" by (auto simp: range_of_def)
  then show ?thesis
    using h1(1) h1(2) [rule_format, of "h1\<lparr>host_pool := example_huge_2\<rparr>"] example_history example_huge_2(1)
    by (intro exI [of _ h1]) (simp add: example_huge_host)
qed

text \<open>C23. Moving memory to the card: for a block of the pool of huge pages that begins at a page, \<open>offload_to_card\<close>
  returns after it has asked the driver for exactly one off-load for each page of the block, each
  at the start of its page and of a length the driver allows, and the pages together contain the
  block. The driver finds a page only by its start and moves it completely.\<close>

theorem offload_moves_each_page_once:
  fixes h :: "('j HugePageMemoryPool, 'm) host_scheme"
  defines "p \<equiv> host_pool h"
  assumes "jemalloc J je_inv je_live je_extents" and "hp_inv je_inv je_extents p"
    and "hp_live je_live p q = Some n" and "unat PAGE_SIZE dvd unat q - unat (hp_initial_address p)" and "0 < mx"
  shows "\<exists>os. offload_to_card mx (HugePageMemoryPool_ops J tid) q n h =
      (Inr (), h\<lparr>host_cthread := host_cthread h @ offload_calls os\<rparr>) \<and>
    length os = num_chunks (unat n) (unat PAGE_SIZE) \<and> distinct (map fst os) \<and>
    (\<forall>(a, m) \<in> set os. HugePageMemoryPool_get_page_boundaries a p = Inr (a, PAGE_SIZE) \<and> 0 < m \<and> m \<le> mx) \<and>
    range_of q n \<subseteq> (\<Union>(a, m) \<in> set os. range_of a PAGE_SIZE)"
proof -
  obtain i where q: "q = hp_page p i" and fits: "i * unat PAGE_SIZE + unat n \<le> unat (hp_total_capacity p)"
    by (rule jemalloc.block_at_page [OF assms(2-5)])
  have run: "offload_to_card mx (HugePageMemoryPool_ops J tid) q n h =
      (Inr (), h\<lparr>host_cthread := host_cthread h @ offload_calls (page_moves p i n mx)\<rparr>)"
    using jemalloc.offload_pages [OF assms(2,3) [unfolded p_def] fits [unfolded p_def], of 0 mx tid]
    by (simp add: offload_to_card_def q page_moves_def p_def comp_def offload_calls_def)
  have len: "length (page_moves p i n mx) = num_chunks (unat n) (unat PAGE_SIZE)" by (simp add: page_moves_def)
  show ?thesis
    using run len jemalloc.page_moves_cover [OF assms(2,3) fits, of mx, folded q]
      jemalloc.page_moves_each [OF assms(2,3) fits assms(6)]
    by (intro exI [of _ "page_moves p i n mx"]) auto
qed

theorem offload_moves_each_page_once_witness:
  "\<exists>os. offload_to_card 64 (HugePageMemoryPool_ops extent_jemalloc 1) 1099511627776 100
      (example_huge_host\<lparr>host_pool := example_huge_2\<rparr>) =
      (Inr (), example_huge_host\<lparr>host_pool := example_huge_2, host_cthread := offload_calls os\<rparr>) \<and>
    length os = 1"
proof -
  let ?h = "example_huge_host\<lparr>host_pool := example_huge_2\<rparr>"
  have hist: "hp_inv xh_inv xh_extents example_huge_2 \<and> hp_fixed example_huge_2 = hp_fixed example_huge"
    using extent_pool.hp_history_inv [OF example_history example_huge_inv] by simp
  then have "hp_initial_address example_huge_2 = 1099511627776"
    by (simp add: hp_fixed_def) (simp add: example_huge_def)
  then have "\<exists>os. offload_to_card 64 (HugePageMemoryPool_ops extent_jemalloc 1) 1099511627776 100 ?h =
      (Inr (), ?h\<lparr>host_cthread := host_cthread ?h @ offload_calls os\<rparr>) \<and>
    length os = num_chunks (unat (100 :: u64)) (unat PAGE_SIZE)"
    using offload_moves_each_page_once [OF extent_pool.jemalloc_axioms, of ?h 1099511627776 100 64 1]
      hist example_huge_2(1) by simp blast
  then show ?thesis by (simp add: num_chunks_def PAGE_SIZE_simp example_huge_host_def)
qed

end
