(* ===== verification/Huge_Page_System.thy ===== *)
theory Huge_Page_System
  imports Output_System Huge_Page_Transfers
begin

text \<open>
  The output path over the pool of huge pages. Its operations depend on the calling thread, which
  has a jemalloc cache of its own, so every step of the system may be made by another thread: the
  driver's interrupt thread, a thread that acquires handles, a thread that drops a buffer.
\<close>

inductive huge_reachable ::
  "'j jemalloc_api \<Rightarrow> obm_params \<Rightarrow> 'j HugePageMemoryPool host \<Rightarrow> 'j HugePageMemoryPool system \<Rightarrow> bool"
  for J :: "'j jemalloc_api" and c :: obm_params and h :: "'j HugePageMemoryPool host" where
  huge_start: "huge_reachable J c h
     \<lparr>sys_host = obm_start c h, sys_fetched = (\<lambda>_. 0), sys_irqs = [], sys_client = []\<rparr>"
| huge_step: "huge_reachable J c h s \<Longrightarrow> sys_step c (HugePageMemoryPool_ops J tid) s s' \<Longrightarrow>
     huge_reachable J c h s'"

definition huge_host_ok ::
  "('j je_world \<Rightarrow> bool) \<Rightarrow> ('j \<Rightarrow> (ptr \<times> u64) list) \<Rightarrow> obm_params \<Rightarrow> 'j HugePageMemoryPool host \<Rightarrow> bool" where
  "huge_host_ok je_inv je_extents c h \<longleftrightarrow> hp_inv je_inv je_extents (host_pool h) \<and> tlb_inv h \<and>
     (\<forall>i < NUM_STREAMS c. csr_writes (stream_csr c i) (host_cthread h) = [])"

context jemalloc
begin

lemma huge_reachable_inv:
  assumes "huge_reachable J c h s" and "params_ok c" and "huge_host_ok je_inv je_extents c h"
  shows "sys_inv (hp_inv je_inv je_extents) (hp_live je_live) c (live_blocks (hp_live je_live (host_pool h))) s"
  using assms(1)
proof (induction rule: huge_reachable.induct)
  case huge_start
  show ?case using assms(3) by (intro huge_pool.sys_start_inv) (simp_all add: huge_host_ok_def)
next
  case (huge_step s tid s')
  show ?case by (rule huge_pool.sys_step_inv [OF huge_step.hyps(2) assms(2) huge_step.IH])
qed

lemmas huge_inv_ownership = huge_pool.sys_inv_ownership

end

section \<open>Properties\<close>

text \<open>C18. Single ownership over the huge pages: in every reachable state of a system whose steps are made by any
  threads, the blocks of the pool are exactly, as a multiset, the buffers enqueued for the device,
  the outputs waiting in handles, the buffers that clients hold and the blocks allocated before;
  no two of them share a byte, and every one of them lies inside the pool's huge pages.\<close>

theorem huge_pool_single_ownership:
  assumes "jemalloc J je_inv je_live je_extents" and "OutputBufferManager_init mc managed n cap = Inr c"
    and "huge_host_ok je_inv je_extents c h" and "huge_reachable J c h s"
  shows "let owned = held_blocks (sys_host s) + image_mset out_block (mset (sys_client s)) +
        live_blocks (hp_live je_live (host_pool h)); p = host_pool (sys_host s)
    in owned = live_blocks (hp_live je_live p) \<and> (\<forall>b. count owned b \<le> 1) \<and>
      (\<forall>q k r m. (q, k) \<in># owned \<longrightarrow> (r, m) \<in># owned \<longrightarrow> q \<noteq> r \<longrightarrow> range_of q k \<inter> range_of r m = {}) \<and>
      (\<forall>(q, k) \<in># owned. range_of q k \<subseteq> range_of (hp_initial_address p) (hp_total_capacity p))"
proof -
  have inv: "sys_inv (hp_inv je_inv je_extents) (hp_live je_live) c (live_blocks (hp_live je_live (host_pool h))) s"
    by (rule jemalloc.huge_reachable_inv [OF assms(1,4) params_ok_init [OF assms(2)] assms(3)])
  have "hp_inv je_inv je_extents (host_pool (sys_host s))" using inv by (simp add: sys_inv_def obm_inv_def)
  then have inside: "range_of q k \<subseteq> range_of (hp_initial_address (host_pool (sys_host s))) (hp_total_capacity (host_pool (sys_host s)))"
    if "(q, k) \<in># live_blocks (hp_live je_live (host_pool (sys_host s)))" for q k
    using jemalloc.hp_live_block(2) [OF assms(1) _ live_blocks_some [OF that]] by blast
  note own = jemalloc.huge_inv_ownership [OF assms(1) inv, unfolded Let_def]
  then have "\<forall>(q, k) \<in># held_blocks (sys_host s) + image_mset out_block (mset (sys_client s)) +
        live_blocks (hp_live je_live (host_pool h)).
      range_of q k \<subseteq> range_of (hp_initial_address (host_pool (sys_host s))) (hp_total_capacity (host_pool (sys_host s)))"
    using inside by (metis (no_types, lifting) case_prodI2)
  with own show ?thesis unfolding Let_def by (elim conjE) (intro conjI)
qed

text \<open>A manager over a pool of two pages, and the state after thread 3 has acquired a handle for stream 0.\<close>

definition huge_params :: obm_params where
  "huge_params = \<lparr>obm_mem_config = \<lparr>addr_offset = 5, num_regs = 5, num_streams = 2,
       maximum_num_enqueued_buffers = 256, empty_stream_consumes_buffer = False\<rparr>,
     NUM_STREAMS = 2, MANAGED_STREAMS = 1, NUM_BUFFERS_TO_ENQUEUE = 1, BUFFER_CAPACITY = 65536\<rparr>"

definition huge_acquired :: "extent_heap HugePageMemoryPool obm" where
  "huge_acquired = snd (acquire_output_handle huge_params (HugePageMemoryPool_ops extent_jemalloc 3) 1
     (obm_start huge_params example_huge_host))"

lemma huge_acquired: "acquire_output_handle huge_params (HugePageMemoryPool_ops extent_jemalloc 3) 1
    (obm_start huge_params example_huge_host) = (Inr 0, huge_acquired)"
proof -
  have "fst (acquire_output_handle huge_params (HugePageMemoryPool_ops extent_jemalloc 3) 1
    (obm_start huge_params example_huge_host)) = Inr 0" by code_simp
  then show ?thesis by (metis huge_acquired_def prod.collapse)
qed

definition huge_state :: "extent_heap HugePageMemoryPool system" where
  "huge_state = \<lparr>sys_host = huge_acquired, sys_fetched = (\<lambda>_. 0), sys_irqs = [], sys_client = []\<rparr>"

lemma huge_state_reachable: "huge_reachable extent_jemalloc huge_params example_huge_host huge_state"
proof -
  let ?s0 = "\<lparr>sys_host = obm_start huge_params example_huge_host, sys_fetched = (\<lambda>_. 0), sys_irqs = [],
    sys_client = []\<rparr>"
  have "sys_step huge_params (HugePageMemoryPool_ops extent_jemalloc 3) ?s0 (?s0\<lparr>sys_host := huge_acquired\<rparr>)"
    by (rule host_acquire) (use huge_acquired in simp)
  then show ?thesis using huge_reachable.huge_step [OF huge_start] by (fastforce simp: huge_state_def)
qed

theorem huge_pool_single_ownership_witness:
  "let owned = held_blocks (sys_host huge_state) + image_mset out_block (mset (sys_client huge_state)) +
        live_blocks (hp_live xh_map (host_pool example_huge_host)); p = host_pool (sys_host huge_state)
    in owned = live_blocks (hp_live xh_map p) \<and> (\<forall>b. count owned b \<le> 1)"
proof -
  have init: "OutputBufferManager_init (obm_mem_config huge_params) 1 1 65536 = Inr huge_params"
    by (simp add: OutputBufferManager_init_def huge_params_def stf_consts)
  have "huge_host_ok xh_inv xh_extents huge_params example_huge_host"
    using example_huge_inv example_huge_host by (simp add: huge_host_ok_def) (simp add: example_huge_host_def)
  from huge_pool_single_ownership [OF extent_pool.jemalloc_axioms init this huge_state_reachable]
  show ?thesis unfolding Let_def by (elim conjE) (intro conjI)
qed

end
