(* ===== verification/Stream_Spec.thy ===== *)
theory Stream_Spec
  imports Prelude
begin

text \<open>
  What the output path promises, without buffers, registers and memory: transfers that are opened for
  streams wait in the order in which they were opened; the device reports amounts of output, each
  stream by stream in order, some of them the last of their stream's transfer; a report that is
  delivered adds its amount to the first transfer that waits for the stream, and the last one ends
  it; clients take the amounts in order, and give up a transfer with what they did not take once nothing
  waits for it any more. The specification is a function on the events, and the
  lemmas determine everything a transfer receives from the events alone.
\<close>

section \<open>The specification\<close>

text \<open>
  \<open>Opened\<close> has the streams the new transfer waits for, with repetitions for a transfer in several parts;
  \<open>Dropped\<close> gives back what was taken, \<open>Released\<close> gives up a transfer, and \<open>Sent\<close> is input for the device.
\<close>

datatype pipe_event =
  Raised nat nat bool
| Delivered nat nat bool
| Opened "nat list"
| Took nat nat nat
| Dropped
| Released nat
| Sent

text \<open>
  \<open>in_flight\<close> are the reports under way, \<open>waiting\<close> the transfers that wait for each stream, \<open>arrived\<close> the
  amounts not taken yet of every transfer and stream, \<open>ended\<close> the streams that every transfer is done
  with.
\<close>

record pipe =
  in_flight :: "(nat \<times> nat \<times> bool) list"
  waiting :: "nat list list"
  arrived :: "nat list list list"
  ended :: "nat set list"

definition pipe_start :: "nat \<Rightarrow> pipe" where
  "pipe_start N = \<lparr>in_flight = [], waiting = replicate N [], arrived = [], ended = []\<rparr>"

definition amount :: "nat \<Rightarrow> nat list" where
  "amount n = (if n = 0 then [] else [n])"

fun pipe_apply :: "nat \<Rightarrow> pipe_event \<Rightarrow> pipe \<Rightarrow> pipe option" where
  "pipe_apply N (Raised i n l) p =
     (if i < N then Some (p\<lparr>in_flight := in_flight p @ [(i, n, l)]\<rparr>) else None)"
| "pipe_apply N (Delivered i n l) p =
     (case in_flight p of
        [] \<Rightarrow> None
      | report # rest \<Rightarrow>
          if report \<noteq> (i, n, l) \<or> \<not> i < N then None
          else
            (case waiting p ! i of
               [] \<Rightarrow> None
             | r # rs \<Rightarrow> Some (p\<lparr>in_flight := rest,
                 waiting := (waiting p)[i := if l then rs else r # rs],
                 arrived := (arrived p)[r := (arrived p ! r)[i := arrived p ! r ! i @ amount n]],
                 ended := if l then (ended p)[r := insert i (ended p ! r)] else ended p\<rparr>)))"
| "pipe_apply N (Opened is) p =
     (let r = length (arrived p) in
      Some (p\<lparr>waiting := map (\<lambda>i. waiting p ! i @ replicate (count_list is i) r) [0 ..< N],
              arrived := arrived p @ [replicate N []], ended := ended p @ [{}]\<rparr>))"
| "pipe_apply N (Took r i n) p =
     (if r < length (arrived p) \<and> i < N then
        (case arrived p ! r ! i of
           [] \<Rightarrow> None
         | m # ms \<Rightarrow> if m = n then Some (p\<lparr>arrived := (arrived p)[r := (arrived p ! r)[i := ms]]\<rparr>) else None)
      else None)"
| "pipe_apply N Dropped p = Some p"
| "pipe_apply N (Released r) p =
     (if r < length (arrived p) \<and> list_all (\<lambda>q. r \<notin> set q) (waiting p)
      then Some (p\<lparr>arrived := (arrived p)[r := map (\<lambda>_. []) (arrived p ! r)]\<rparr>) else None)"
| "pipe_apply N Sent p = Some p"

fun pipe_run :: "nat \<Rightarrow> pipe_event list \<Rightarrow> pipe \<Rightarrow> pipe option" where
  "pipe_run N [] p = Some p"
| "pipe_run N (e # evs) p = Option.bind (pipe_apply N e p) (pipe_run N evs)"

lemma pipe_run_append: "pipe_run N (xs @ ys) p = Option.bind (pipe_run N xs p) (pipe_run N ys)"
  by (induction xs arbitrary: p) (simp_all split: Option.bind_split)

section \<open>The history of the events\<close>

text \<open>The transfers that were opened for a stream, numbered from \<open>r\<close> on.\<close>

fun opened :: "nat \<Rightarrow> nat \<Rightarrow> pipe_event list \<Rightarrow> nat list" where
  "opened i r [] = []"
| "opened i r (Opened is # evs) = replicate (count_list is i) r @ opened i (Suc r) evs"
| "opened i r (_ # evs) = opened i r evs"

fun num_opened :: "pipe_event list \<Rightarrow> nat" where
  "num_opened [] = 0"
| "num_opened (Opened is # evs) = Suc (num_opened evs)"
| "num_opened (_ # evs) = num_opened evs"

text \<open>The reports that were delivered for a stream, those that were raised, and what was taken of a transfer.\<close>

fun delivered :: "nat \<Rightarrow> pipe_event list \<Rightarrow> (nat \<times> bool) list" where
  "delivered i [] = []"
| "delivered i (Delivered j n l # evs) = (if j = i then [(n, l)] else []) @ delivered i evs"
| "delivered i (_ # evs) = delivered i evs"

fun raised :: "nat \<Rightarrow> pipe_event list \<Rightarrow> (nat \<times> bool) list" where
  "raised i [] = []"
| "raised i (Raised j n l # evs) = (if j = i then [(n, l)] else []) @ raised i evs"
| "raised i (_ # evs) = raised i evs"

fun taken :: "nat \<Rightarrow> nat \<Rightarrow> pipe_event list \<Rightarrow> nat list" where
  "taken r i [] = []"
| "taken r i (Took s j n # evs) = (if s = r \<and> j = i then [n] else []) @ taken r i evs"
| "taken r i (_ # evs) = taken r i evs"

lemma opened_append: "opened i r (xs @ ys) = opened i r xs @ opened i (r + num_opened xs) ys"
  by (induction i r xs rule: opened.induct) simp_all

lemma history_append:
  "num_opened (xs @ ys) = num_opened xs + num_opened ys" "delivered i (xs @ ys) = delivered i xs @ delivered i ys"
  "raised i (xs @ ys) = raised i xs @ raised i ys" "taken r i (xs @ ys) = taken r i xs @ taken r i ys"
  by (induction xs rule: num_opened.induct) simp_all

text \<open>How many transfers some reports have ended, and what a transfer receives of the reports of a stream.\<close>

fun num_ended :: "(nat \<times> bool) list \<Rightarrow> nat" where
  "num_ended [] = 0"
| "num_ended ((n, l) # ds) = (if l then 1 else 0) + num_ended ds"

fun received :: "nat \<Rightarrow> nat list \<Rightarrow> (nat \<times> bool) list \<Rightarrow> nat list" where
  "received r as [] = []"
| "received r [] (d # ds) = []"
| "received r (a # as) ((n, l) # ds) =
     (if a = r then amount n else []) @ received r (if l then as else a # as) ds"

text \<open>There was a transfer that waited whenever a report was delivered.\<close>

fun served :: "nat list \<Rightarrow> (nat \<times> bool) list \<Rightarrow> bool" where
  "served as [] \<longleftrightarrow> True"
| "served [] (d # ds) \<longleftrightarrow> False"
| "served (a # as) ((n, l) # ds) \<longleftrightarrow> served (if l then as else a # as) ds"

lemma num_ended_append: "num_ended (xs @ ys) = num_ended xs + num_ended ys"
  by (induction xs rule: num_ended.induct) simp_all

lemma served_le: "served as ds \<Longrightarrow> num_ended ds \<le> length as"
  by (induction as ds rule: served.induct) (auto split: if_splits)

lemma served_more: "served as ds \<Longrightarrow> served (as @ bs) ds"
  by (induction as ds rule: served.induct) (auto split: if_splits)

lemma received_more: "served as ds \<Longrightarrow> received r (as @ bs) ds = received r as ds"
  by (induction r as ds rule: received.induct) (auto split: if_splits)

lemma served_snoc: "served as ds \<Longrightarrow> drop (num_ended ds) as \<noteq> [] \<Longrightarrow> served as (ds @ [(n, l)])"
  by (induction as ds rule: served.induct) (auto split: if_splits simp: neq_Nil_conv)

lemma received_snoc:
  "served as ds \<Longrightarrow> drop (num_ended ds) as = a # rest \<Longrightarrow>
    received r as (ds @ [(n, l)]) = received r as ds @ (if a = r then amount n else [])"
  by (induction r as ds rule: received.induct) (auto split: if_splits)

section \<open>Every state is determined by its history\<close>

lemma opened_bound: "a \<in> set (opened i r evs) \<Longrightarrow> a < r + num_opened evs"
  by (induction i r evs rule: opened.induct) auto

definition reports :: "nat \<Rightarrow> (nat \<times> nat \<times> bool) list \<Rightarrow> (nat \<times> bool) list" where
  "reports i xs = map snd (filter (\<lambda>x. fst x = i) xs)"

lemma reports_simps [simp]:
  "reports i [] = []" "reports i ((j, x) # xs) = (if j = i then [x] else []) @ reports i xs"
  "reports i (xs @ ys) = reports i xs @ reports i ys"
  by (simp_all add: reports_def)

text \<open>What the clients have of a transfer: all that was received, or the part that was taken before it was given up.\<close>

definition transfer_history :: "pipe_event list \<Rightarrow> pipe \<Rightarrow> nat list \<Rightarrow> nat \<Rightarrow> nat \<Rightarrow> bool" where
  "transfer_history evs p whole r i \<longleftrightarrow>
     (if Released r \<in> set evs
      then arrived p ! r ! i = [] \<and> r \<notin> set (waiting p ! i) \<and> (\<exists>lost. taken r i evs @ lost = whole)
      else taken r i evs @ arrived p ! r ! i = whole)"

definition stream_history :: "pipe_event list \<Rightarrow> pipe \<Rightarrow> nat \<Rightarrow> bool" where
  "stream_history evs p i \<longleftrightarrow>
     (let as = opened i 0 evs; ds = delivered i evs in
      served as ds \<and> waiting p ! i = drop (num_ended ds) as \<and> raised i evs = ds @ reports i (in_flight p) \<and>
      (\<forall>r < num_opened evs. transfer_history evs p (received r as ds) r i \<and>
         (i \<in> ended p ! r \<longleftrightarrow> r \<in> set (take (num_ended ds) as))))"

definition pipe_history :: "nat \<Rightarrow> pipe_event list \<Rightarrow> pipe \<Rightarrow> bool" where
  "pipe_history N evs p \<longleftrightarrow> length (waiting p) = N \<and> length (arrived p) = num_opened evs \<and>
     length (ended p) = num_opened evs \<and> (\<forall>x \<in> set (arrived p). length x = N) \<and> (\<forall>i < N. stream_history evs p i) \<and>
     (\<forall>r \<ge> num_opened evs. Released r \<notin> set evs \<and> (\<forall>i. taken r i evs = []))"

lemma history_start: "pipe_history N [] (pipe_start N)"
  by (simp add: pipe_history_def pipe_start_def stream_history_def)

lemma transfer_history_cong:
  "(Released r \<in> set evs' \<longleftrightarrow> Released r \<in> set evs) \<Longrightarrow> arrived p' ! r ! i = arrived p ! r ! i \<Longrightarrow>
   (r \<in> set (waiting p' ! i) \<longleftrightarrow> r \<in> set (waiting p ! i)) \<Longrightarrow> taken r i evs' = taken r i evs \<Longrightarrow>
   transfer_history evs' p' whole r i = transfer_history evs p whole r i"
  by (simp add: transfer_history_def)

lemma history_raised:
  assumes "pipe_history N evs p" and "pipe_apply N (Raised j n l) p = Some p'"
  shows "pipe_history N (evs @ [Raised j n l]) p'"
proof -
  have p': "p' = p\<lparr>in_flight := in_flight p @ [(j, n, l)]\<rparr>" using assms(2) by (simp split: if_splits)
  have "transfer_history (evs @ [Raised j n l]) p' whole r i = transfer_history evs p whole r i" for whole r i
    by (rule transfer_history_cong) (simp_all add: p' history_append)
  then show ?thesis
    using assms(1) by (simp add: pipe_history_def stream_history_def history_append opened_append Let_def p')
qed

lemma history_quiet:
  assumes "pipe_history N evs p" and "e = Dropped \<or> e = Sent"
  shows "pipe_history N (evs @ [e]) p"
proof -
  have e: "taken r i [e] = []" "delivered i [e] = []" "raised i [e] = []" "opened i r [e] = []" "num_opened [e] = 0"
    "Released r \<noteq> e" for r i
    using assms(2) by auto
  have "transfer_history (evs @ [e]) p whole r i = transfer_history evs p whole r i" for whole r i
    by (rule transfer_history_cong) (use e in \<open>auto simp: history_append\<close>)
  then show ?thesis
    using assms(1) e by (simp add: pipe_history_def stream_history_def history_append opened_append Let_def)
qed

lemma history_took:
  assumes h: "pipe_history N evs p" and "pipe_apply N (Took r j n) p = Some p'"
  shows "pipe_history N (evs @ [Took r j n]) p'"
proof -
  obtain ms where r: "r < length (arrived p)" "j < N" "arrived p ! r ! j = n # ms"
    and p': "p' = p\<lparr>arrived := (arrived p)[r := (arrived p ! r)[j := ms]]\<rparr>"
    using assms(2) by (auto split: if_splits list.splits)
  have len: "length (arrived p ! r) = N" using h r(1) by (simp add: pipe_history_def)
  have arr: "arrived p' ! s ! i = (if s = r \<and> i = j then ms else arrived p ! s ! i)" for s i
    using r(1,2) len by (cases "s = r") (simp_all add: p' nth_list_update)
  have "stream_history evs p j" and nr: "r < num_opened evs" using h r(1,2) by (simp_all add: pipe_history_def)
  then have "Released r \<notin> set evs"
    using r(3) by (auto simp: stream_history_def transfer_history_def Let_def split: if_splits)
  then have "transfer_history (evs @ [Took r j n]) p' whole s i = transfer_history evs p whole s i" for whole s i
    by (auto simp: transfer_history_def history_append arr r(3)) (simp_all add: p')
  then have "stream_history (evs @ [Took r j n]) p' i" if "i < N" for i
    using h that by (simp add: stream_history_def pipe_history_def history_append opened_append Let_def) (simp add: p')
  moreover have "\<forall>x \<in> set (arrived p'). length x = N"
    using h len by (auto simp: p' pipe_history_def dest!: set_update_subset_insert [THEN subsetD])
  ultimately show ?thesis
    using h nr by (auto simp: pipe_history_def history_append p')
qed

lemma history_released:
  assumes h: "pipe_history N evs p" and "pipe_apply N (Released r) p = Some p'"
  shows "pipe_history N (evs @ [Released r]) p'"
proof -
  have r: "r < length (arrived p)" "list_all (\<lambda>q. r \<notin> set q) (waiting p)"
    and p': "p' = p\<lparr>arrived := (arrived p)[r := map (\<lambda>_. []) (arrived p ! r)]\<rparr>"
    using assms(2) by (auto split: if_splits)
  have len: "length (arrived p ! r) = N" "length (waiting p) = N" and nr: "r < num_opened evs"
    using h r(1) by (simp_all add: pipe_history_def)
  have "transfer_history (evs @ [Released r]) p' whole s i"
    if "transfer_history evs p whole s i" "i < N" for whole s i
  proof (cases "s = r")
    case True
    moreover have "r \<notin> set (waiting p' ! i)" using r(2) that(2) len(2) by (simp add: p' list_all_length)
    moreover have "arrived p' ! r ! i = []" using r(1) that(2) len(1) by (simp add: p')
    ultimately show ?thesis
      using that(1) by (auto simp: transfer_history_def history_append split: if_splits)
  next
    case False
    have "transfer_history (evs @ [Released r]) p' whole s i = transfer_history evs p whole s i"
      by (rule transfer_history_cong) (use False in \<open>simp_all add: p' history_append\<close>)
    then show ?thesis using that(1) by simp
  qed
  then have "stream_history (evs @ [Released r]) p' i" if "i < N" for i
    using h that by (simp add: stream_history_def pipe_history_def history_append opened_append Let_def) (simp add: p')
  moreover have "\<forall>x \<in> set (arrived p'). length x = N"
    using h len by (auto simp: p' pipe_history_def dest!: set_update_subset_insert [THEN subsetD])
  ultimately show ?thesis
    using h nr by (auto simp: pipe_history_def history_append p')
qed

lemma history_opened:
  assumes h: "pipe_history N evs p" and p': "pipe_apply N (Opened is) p = Some p'"
  shows "pipe_history N (evs @ [Opened is]) p'"
proof -
  let ?r = "num_opened evs"
  have r: "length (arrived p) = ?r" "length (ended p) = ?r" using h by (simp_all add: pipe_history_def)
  have eq: "p' = p\<lparr>waiting := map (\<lambda>i. waiting p ! i @ replicate (count_list is i) ?r) [0 ..< N],
      arrived := arrived p @ [replicate N []], ended := ended p @ [{}]\<rparr>"
    using p' r by (simp add: Let_def)
  have "stream_history (evs @ [Opened is]) p' i" if i: "i < N" for i
  proof -
    let ?as = "opened i 0 evs" and ?ds = "delivered i evs" and ?new = "replicate (count_list is i) ?r"
    have sh: "stream_history evs p i" using h i by (simp add: pipe_history_def)
    then have s: "served ?as ?ds" by (simp add: stream_history_def Let_def)
    then have le: "num_ended ?ds \<le> length ?as" by (rule served_le)
    have "a < ?r" if "a \<in> set ?as" for a using opened_bound [OF that] by simp
    then have new: "?r \<notin> set ?as" by blast
    have none: "received r as ds = []" if "r \<notin> set as" for r as ds
      using that by (induction r as ds rule: received.induct) (auto split: if_splits)
    have "taken ?r i evs = []" "Released ?r \<notin> set evs" using h by (simp_all add: pipe_history_def)
    then have "transfer_history (evs @ [Opened is]) p' [] ?r i"
      using i by (simp add: transfer_history_def history_append eq nth_append r)
    moreover have "transfer_history (evs @ [Opened is]) p' whole t i = transfer_history evs p whole t i"
      if "t < ?r" for whole t
      by (rule transfer_history_cong) (use that i in \<open>simp_all add: history_append eq nth_append r\<close>)
    ultimately have "transfer_history (evs @ [Opened is]) p' (received t (?as @ ?new) ?ds) t i" if "t < Suc ?r" for t
      using that sh none [OF new] received_more [OF s]
      by (cases "t = ?r") (auto simp: stream_history_def Let_def)
    with sh s le new i show ?thesis
      unfolding stream_history_def
      by (auto simp: history_append opened_append Let_def served_more eq nth_append less_Suc_eq r dest: in_set_takeD)
  qed
  then show ?thesis using h by (auto simp: pipe_history_def history_append eq)
qed

text \<open>A report goes to the first transfer that waits for its stream.\<close>

lemma delivered_effect:
  assumes h: "pipe_history N evs p" and app: "pipe_apply N (Delivered j n l) p = Some p'"
  obtains r rs where "j < N" and "waiting p ! j = r # rs" and "served (opened j 0 evs) (delivered j evs)"
    and "drop (num_ended (delivered j evs)) (opened j 0 evs) = r # rs"
    and "in_flight p = (j, n, l) # in_flight p'"
    and "\<And>t i. arrived p' ! t ! i = (if t = r \<and> i = j then arrived p ! r ! j @ amount n else arrived p ! t ! i)"
    and "\<And>t i. i \<in> ended p' ! t \<longleftrightarrow> i \<in> ended p ! t \<or> l \<and> t = r \<and> i = j"
    and "\<And>i. waiting p' ! i = (if i = j then (if l then rs else r # rs) else waiting p ! i)"
    and "length (waiting p') = N" and "length (arrived p') = num_opened evs" and "length (ended p') = num_opened evs"
    and "\<forall>x \<in> set (arrived p'). length x = N"
proof -
  obtain rest r rs where f: "in_flight p = (j, n, l) # rest" "j < N" and w: "waiting p ! j = r # rs"
    and p': "p' = p\<lparr>in_flight := rest, waiting := (waiting p)[j := if l then rs else r # rs],
      arrived := (arrived p)[r := (arrived p ! r)[j := arrived p ! r ! j @ amount n]],
      ended := if l then (ended p)[r := insert j (ended p ! r)] else ended p\<rparr>"
    using app by (auto split: list.splits if_splits)
  have "stream_history evs p j" using h f(2) by (simp add: pipe_history_def)
  then have s: "served (opened j 0 evs) (delivered j evs)"
    and d: "drop (num_ended (delivered j evs)) (opened j 0 evs) = r # rs"
    using w by (simp_all add: stream_history_def Let_def)
  have "r \<in> set (opened j 0 evs)" using d by (metis in_set_dropD list.set_intros(1))
  then have r: "r < num_opened evs" using opened_bound [of r j 0 evs] by simp
  have len: "length (arrived p) = num_opened evs" "length (ended p) = num_opened evs" "length (waiting p) = N"
    "length (arrived p ! r) = N"
    using h r by (simp_all add: pipe_history_def)
  show thesis
  proof (rule that [OF f(2) w s d])
    show "arrived p' ! t ! i = (if t = r \<and> i = j then arrived p ! r ! j @ amount n else arrived p ! t ! i)" for t i
      using r f(2) len by (cases "t = r") (simp_all add: p' nth_list_update)
    show "i \<in> ended p' ! t \<longleftrightarrow> i \<in> ended p ! t \<or> l \<and> t = r \<and> i = j" for t i
      using r len by (cases "t = r") (auto simp: p' nth_list_update)
    show "waiting p' ! i = (if i = j then (if l then rs else r # rs) else waiting p ! i)" for i
      using f(2) len by (simp add: p' nth_list_update)
    show "\<forall>x \<in> set (arrived p'). length x = N"
      using h len by (auto simp: p' pipe_history_def dest!: set_update_subset_insert [THEN subsetD])
  qed (simp_all add: p' f(1) len)
qed

lemma transfer_delivered:
  assumes h: "pipe_history N evs p" and app: "pipe_apply N (Delivered j n l) p = Some p'"
    and t: "t < num_opened evs" and i: "i < N"
  shows "transfer_history (evs @ [Delivered j n l]) p'
    (received t (opened i 0 evs) (delivered i (evs @ [Delivered j n l]))) t i"
proof -
  obtain r rs where w: "waiting p ! j = r # rs" and s: "served (opened j 0 evs) (delivered j evs)"
    and d: "drop (num_ended (delivered j evs)) (opened j 0 evs) = r # rs"
    and arr: "\<And>t i. arrived p' ! t ! i = (if t = r \<and> i = j then arrived p ! r ! j @ amount n else arrived p ! t ! i)"
    and wt: "\<And>i. waiting p' ! i = (if i = j then (if l then rs else r # rs) else waiting p ! i)"
    by (rule delivered_effect [OF h app]) (rule that)
  have old: "transfer_history evs p (received t (opened i 0 evs) (delivered i evs)) t i"
    using h t i by (simp add: pipe_history_def stream_history_def Let_def)
  show ?thesis
  proof (cases "t = r \<and> i = j")
    case True
    with old w d show ?thesis
      by (auto simp: transfer_history_def history_append arr received_snoc [OF s d] split: if_splits)
  next
    case False
    have "received t (opened i 0 evs) (delivered i (evs @ [Delivered j n l])) = received t (opened i 0 evs) (delivered i evs)"
      using False received_snoc [OF s d] by (auto simp: history_append)
    moreover have "t \<in> set (waiting p' ! i) \<longleftrightarrow> t \<in> set (waiting p ! i)" if "Released t \<in> set evs"
      using old that w by (auto simp: transfer_history_def wt)
    ultimately show ?thesis
      using old False by (auto simp: transfer_history_def history_append arr)
  qed
qed

lemma history_delivered:
  assumes h: "pipe_history N evs p" and app: "pipe_apply N (Delivered j n l) p = Some p'"
  shows "pipe_history N (evs @ [Delivered j n l]) p'"
proof -
  let ?evs = "evs @ [Delivered j n l]" and ?as = "opened j 0 evs" and ?ds = "delivered j evs"
  obtain r rs where s: "served ?as ?ds" and d: "drop (num_ended ?ds) ?as = r # rs" and j: "j < N"
    and fl: "in_flight p = (j, n, l) # in_flight p'"
    and en: "\<And>t i. i \<in> ended p' ! t \<longleftrightarrow> i \<in> ended p ! t \<or> l \<and> t = r \<and> i = j"
    and wt: "\<And>i. waiting p' ! i = (if i = j then (if l then rs else r # rs) else waiting p ! i)"
    and len: "length (waiting p') = N" "length (arrived p') = num_opened evs" "length (ended p') = num_opened evs"
      "\<forall>x \<in> set (arrived p'). length x = N"
    by (rule delivered_effect [OF h app]) (rule that)
  note th = transfer_delivered [OF h app]
  have "stream_history ?evs p' i" if i: "i < N" for i
  proof (cases "i = j")
    case False
    have "stream_history evs p i" using h i by (simp add: pipe_history_def)
    with th [OF _ i] show ?thesis
      using False fl unfolding stream_history_def by (simp add: history_append opened_append en wt Let_def)
  next
    case True
    have "take (Suc (num_ended ?ds)) ?as = take (num_ended ?ds) ?as @ [r]"
      using d by (metis drop_eq_Nil hd_drop_conv_nth list.sel(1) list.distinct(1) not_le take_Suc_conv_app_nth)
    moreover have "drop (Suc (num_ended ?ds)) ?as = rs" using d by (metis drop_Suc list.sel(3) tl_drop)
    moreover have "served ?as (?ds @ [(n, l)])" using served_snoc [OF s] d by simp
    moreover have "stream_history evs p j" using h j by (simp add: pipe_history_def)
    ultimately show ?thesis
      using th [OF _ j] fl d unfolding stream_history_def True
      by (auto simp: history_append opened_append en wt num_ended_append Let_def)
  qed
  then show ?thesis
    using h len by (auto simp: pipe_history_def history_append)
qed

text \<open>The state of a run is determined by its events.\<close>

lemma history_run: "pipe_run N evs (pipe_start N) = Some p \<Longrightarrow> pipe_history N evs p"
proof (induction evs arbitrary: p rule: rev_induct)
  case Nil
  then show ?case using history_start by auto
next
  case (snoc e evs)
  then obtain q where q: "pipe_history N evs q" "pipe_apply N e q = Some p"
    by (auto simp: pipe_run_append split: Option.bind_splits)
  then show ?case
    by (cases e) (auto intro: history_raised history_delivered history_opened history_took history_released
        history_quiet simp del: pipe_apply.simps(1-4,6))
qed

end
