(* ===== verification/Stream_Refinement.thy ===== *)
theory Stream_Refinement
  imports Output_System Stream_Spec
begin

text \<open>
  The output path as a refinement of the specification of theory Stream_Spec: a step of host, device
  and clients is labelled with the event of the specification it amounts to, and the abstraction
  function forgets buffers, registers, memory and mappings. The simulation is functional: every
  step of the system is the specification's function on the abstract states.
\<close>

section \<open>Labelled steps\<close>

inductive sys_event :: "obm_params \<Rightarrow> 'p MemoryPool \<Rightarrow> pipe_event \<Rightarrow> 'p system \<Rightarrow> 'p system \<Rightarrow> bool"
  for c :: obm_params and ops :: "'p MemoryPool" where
  ev_uses_buffer:
    "uses_buffer c n \<Longrightarrow> ucast i < NUM_STREAMS c \<Longrightarrow>
     sys_fetched s (ucast i) < length (csr_writes (stream_csr c (ucast i)) (host_cthread (sys_host s))) \<Longrightarrow>
     v = csr_writes (stream_csr c (ucast i)) (host_cthread (sys_host s)) ! sys_fetched s (ucast i) \<Longrightarrow>
     unat n \<le> buffer_bytes v \<Longrightarrow>
     sys_event c ops (Raised (unat i) (unat n) is_last) s
       (s\<lparr>sys_fetched := (sys_fetched s)(ucast i := Suc (sys_fetched s (ucast i))),
       sys_irqs := sys_irqs s @ [(notify_value i n is_last, Some v)]\<rparr>)"
| ev_sees_no_data:
    "\<not> uses_buffer c 0 \<Longrightarrow> ucast i < NUM_STREAMS c \<Longrightarrow>
     sys_event c ops (Raised (unat i) 0 is_last) s (s\<lparr>sys_irqs := sys_irqs s @ [(notify_value i 0 is_last, None)]\<rparr>)"
| ev_interrupt:
    "sys_irqs s = (w, v) # rest \<Longrightarrow> handle_fpga_interrupt c ops w (sys_host s) = (Inr (), h') \<Longrightarrow>
     parse_interrupt_value w = Inr iv \<Longrightarrow>
     sys_event c ops (Delivered (unat (iv_stream_id iv)) (unat (iv_bytes_written iv)) (iv_last iv)) s
       (s\<lparr>sys_host := h', sys_irqs := rest\<rparr>)"
| ev_acquire:
    "acquire_output_handle c ops m (sys_host s) = (Inr r, h') \<Longrightarrow>
     sys_event c ops (Opened (filter (bit m) [0 ..< unat (NUM_STREAMS c)])) s (s\<lparr>sys_host := h'\<rparr>)"
| ev_acquire_sized:
    "acquire_output_handle_sized c ops i sz (sys_host s) = (Inr r, h') \<Longrightarrow>
     sys_event c ops (Opened (replicate ((unat sz + unat MAXIMUM_OUTPUT_WRITER_BUFFER_SIZE - 1) div unat MAXIMUM_OUTPUT_WRITER_BUFFER_SIZE) (unat i))) s (s\<lparr>sys_host := h'\<rparr>)"
| ev_takes:
    "on_handle r (get_next_stream_output i) (sys_host s) = (Inr (Returns (Some b)), h') \<Longrightarrow>
     sys_event c ops (Took r (unat i) (unat (buf_size b))) s (s\<lparr>sys_host := h', sys_client := b # sys_client s\<rparr>)"
| ev_drops:
    "b \<in> set (sys_client s) \<Longrightarrow> on_pool (BufferDeleter ops b) (sys_host s) = (Inr (), h') \<Longrightarrow>
     sys_event c ops Dropped s (s\<lparr>sys_host := h', sys_client := remove1 b (sys_client s)\<rparr>)"
| ev_releases:
    "handle_unused r (sys_host s) \<Longrightarrow> release_handle ops r (sys_host s) = (Inr (), h') \<Longrightarrow>
     sys_event c ops (Released r) s (s\<lparr>sys_host := h'\<rparr>)"
| ev_sends:
    "enqueue_stream_input mx ops p sz i l (sys_host s) = (Inr (), h') \<Longrightarrow>
     sys_event c ops Sent s (s\<lparr>sys_host := h'\<rparr>)"

text \<open>The labels do not restrict the steps.\<close>

lemma sys_event_step: "sys_event c ops e s s' \<Longrightarrow> sys_step c ops s s'"
  by (induction rule: sys_event.induct) (blast intro: sys_step.intros)+

lemma sys_step_event: "sys_step c ops s s' \<Longrightarrow> \<exists>e. sys_event c ops e s s'"
proof (induction rule: sys_step.induct)
  case (host_interrupt s w v rest h')
  then obtain iv where "parse_interrupt_value w = Inr iv"
    by (cases "parse_interrupt_value w") (auto simp: handle_fpga_interrupt_def method_defs)
  with host_interrupt show ?case by (blast intro: sys_event.intros)
qed (blast intro: sys_event.intros)+

inductive sys_trace :: "obm_params \<Rightarrow> 'p MemoryPool \<Rightarrow> 'p host \<Rightarrow> pipe_event list \<Rightarrow> 'p system \<Rightarrow> bool"
  for c :: obm_params and ops :: "'p MemoryPool" and h :: "'p host" where
  trace_start: "sys_trace c ops h []
     \<lparr>sys_host = obm_start c h, sys_fetched = (\<lambda>_. 0), sys_irqs = [], sys_client = []\<rparr>"
| trace_next: "sys_trace c ops h evs s \<Longrightarrow> sys_event c ops e s s' \<Longrightarrow> sys_trace c ops h (evs @ [e]) s'"

lemma sys_trace_reachable: "sys_trace c ops h evs s \<Longrightarrow> sys_reachable c ops h s"
  by (induction rule: sys_trace.induct) (auto intro: sys_reachable.intros sys_event_step)

lemma sys_reachable_trace: "sys_reachable c ops h s \<Longrightarrow> \<exists>evs. sys_trace c ops h evs s"
  by (induction rule: sys_reachable.induct) (blast intro: sys_trace.intros dest: sys_step_event)+

section \<open>The abstraction\<close>

definition report_of :: "u32 \<Rightarrow> nat \<times> nat \<times> bool" where
  "report_of w =
     (case parse_interrupt_value w of
        Inl e \<Rightarrow> (0, 0, False)
      | Inr iv \<Rightarrow> (unat (iv_stream_id iv), unat (iv_bytes_written iv), iv_last iv))"

definition ended_streams :: "obm_params \<Rightarrow> OutputHandle \<Rightarrow> nat set" where
  "ended_streams c h = {i. i < unat (NUM_STREAMS c) \<and> bit (oh_finished_streams h) i}"

definition pipe_of :: "obm_params \<Rightarrow> 'p system \<Rightarrow> pipe" where
  "pipe_of c s =
     \<lparr>in_flight = map (report_of \<circ> fst) (sys_irqs s), waiting = enqueued_handles (sys_host s),
      arrived = map (\<lambda>h. map (map (unat \<circ> buf_size)) (oh_output_buffers h)) (handles (sys_host s)),
      ended = map (ended_streams c) (handles (sys_host s))\<rparr>"

lemma pipe_of_simps [simp]:
  "in_flight (pipe_of c s) = map (report_of \<circ> fst) (sys_irqs s)" "waiting (pipe_of c s) = enqueued_handles (sys_host s)"
  "arrived (pipe_of c s) = map (\<lambda>h. map (map (unat \<circ> buf_size)) (oh_output_buffers h)) (handles (sys_host s))"
  "ended (pipe_of c s) = map (ended_streams c) (handles (sys_host s))"
  by (simp_all add: pipe_of_def)

lemma pipe_eqI:
  "in_flight p = in_flight q \<Longrightarrow> waiting p = waiting q \<Longrightarrow> arrived p = arrived q \<Longrightarrow> ended p = ended q \<Longrightarrow> p = (q :: pipe)"
  by (cases p; cases q) simp

lemma report_notify: "report_of (notify_value i n l) = (unat i, unat n, l)"
proof -
  have "unat i < 2 ^ 3" by (rule less_le_trans [OF unsigned_less]) simp
  then have "unat (ucast i :: u8) = unat i" by (simp add: unsigned_ucast_eq take_bit_nat_eq_self)
  then show ?thesis by (simp add: report_of_def parse_notify_value unat_ucast_28_32)
qed

lemma irq_below:
  assumes "ucast (i :: 3 word) < NUM_STREAMS c"
  shows "unat i < unat (NUM_STREAMS c)"
proof -
  have "unat i < 2 ^ 3" by (rule less_le_trans [OF unsigned_less]) simp
  then have "unat (ucast i :: u8) = unat i" by (simp add: unsigned_ucast_eq take_bit_nat_eq_self)
  then show ?thesis using assms by (simp add: word_less_nat_alt)
qed

text \<open>What an interrupt adds to the front handle, seen as amounts.\<close>

lemma moved_amounts:
  assumes "handle_moved i b l q buf h h'" and "unat i < length (oh_output_buffers h)"
  shows "map (map (unat \<circ> buf_size)) (oh_output_buffers h') =
    (map (map (unat \<circ> buf_size)) (oh_output_buffers h))[unat i :=
       map (map (unat \<circ> buf_size)) (oh_output_buffers h) ! unat i @ amount (unat b)]"
proof (cases "b = 0")
  case True
  then have "oh_output_buffers h' = oh_output_buffers h" using assms(1) by (simp add: handle_moved_def)
  then show ?thesis using True by (simp add: amount_def)
next
  case False
  then have "oh_output_buffers h' = (oh_output_buffers h)[unat i := oh_output_buffers h ! unat i @
      [\<lparr>buf_ptr = q, buf_size = ucast b, buf_capacity = buf_capacity buf\<rparr>]]"
    using assms(1) by (auto simp: handle_moved_def word_gt_0)
  moreover have "unat b \<noteq> 0" using False by (simp add: unat_eq_0)
  ultimately show ?thesis
    using assms(2) by (simp add: map_update amount_def unat_ucast_32_64)
qed

lemma moved_ended:
  assumes "handle_moved i b l q buf h h'" and "i < NUM_STREAMS c" and "unat i < 64"
  shows "ended_streams c h' = (if l then insert (unat i) (ended_streams c h) else ended_streams c h)"
  using assms by (auto simp: handle_moved_def ended_streams_def bit_set_bit_iff word_less_nat_alt)

lemma count_list_distinct_upt: "count_list (filter P [0 ..< n]) i = (if i < n \<and> P i then 1 else 0)"
  by (induction n) auto

lemma count_list_replicate: "count_list (replicate k x) y = (if x = y then k else 0)"
  by (induction k) auto

context memory_pool
begin

lemma refine_interrupt:
  assumes inv: "sys_inv pool_inv live c X s" and ok: "params_ok c" and irqs: "sys_irqs s = (w, v) # rest"
    and h: "handle_fpga_interrupt c ops w (sys_host s) = (Inr (), h')" and iv: "parse_interrupt_value w = Inr iv"
  shows "pipe_apply (unat (NUM_STREAMS c)) (Delivered (unat (iv_stream_id iv)) (unat (iv_bytes_written iv)) (iv_last iv))
    (pipe_of c s) = Some (pipe_of c (s\<lparr>sys_host := h', sys_irqs := rest\<rparr>))"
proof -
  let ?i = "iv_stream_id iv" and ?s = "sys_host s"
  have oi: "obm_inv pool_inv live c (image_mset out_block (mset (sys_client s)) + X) ?s" and irq: "irq_ok c (w, v)"
    using inv by (simp_all add: sys_inv_def irqs)
  have shape: "obm_shape c ?s" using oi by (simp add: obm_inv_def)
  have cap: "0 < BUFFER_CAPACITY c" using ok by (simp add: params_ok_def)
  from wpD_Inr [OF handle_fpga_interrupt_wp [OF oi cap params_ok_request [OF ok]] h]
  obtain t bs where i: "?i < NUM_STREAMS c"
    and mv: "moved_to_handle c ops ?i (iv_bytes_written iv) (iv_last iv) ?s t"
    and hq: "enqueued_handles h' = enqueued_handles t" and bs: "buffers_enqueued c ?i bs t h'"
    by (auto simp: iv)
  obtain r hs where r: "enqueued_handles ?s ! unat ?i = r # hs"
    using mv by (cases "enqueued_handles ?s ! unat ?i") (auto simp: moved_to_handle_def)
  note sh = shape_handle [OF shape i r]
  have out: "unat ?i < length (oh_output_buffers (handles ?s ! r))"
    using sh(2) i by (simp add: handle_shape_def word_less_nat_alt)
  obtain g where g: "handles h' = (handles ?s)[r := g]"
    and gm: "handle_moved ?i (iv_bytes_written iv) (iv_last iv)
      (delivered_ptr ops (host_pool ?s) (hd (enqueued_buffers ?s ! unat ?i)) (iv_bytes_written iv))
      (hd (enqueued_buffers ?s ! unat ?i)) (handles ?s ! r) g"
    using mv bs by (auto simp: moved_to_handle_def Let_def r buffers_enqueued_def)
  have eq: "enqueued_handles h' = (enqueued_handles ?s)[unat ?i := if iv_last iv then hs else r # hs]"
    using mv by (auto simp: moved_to_handle_def Let_def r hq)
  obtain j n l where "w = notify_value j n l" using irq by (auto simp: irq_ok_def)
  then have "?i = ucast (j :: 3 word)" using iv by (simp add: parse_notify_value) (metis InterruptValue.select_convs(3))
  moreover have "unat j < 2 ^ 3" by (rule less_le_trans [OF unsigned_less]) simp
  ultimately have sm: "unat ?i < 64" by (simp add: unsigned_ucast_eq take_bit_nat_eq_self)
  have N: "unat ?i < unat (NUM_STREAMS c)" using i by (simp add: word_less_nat_alt)
  have rep: "report_of w = (unat ?i, unat (iv_bytes_written iv), iv_last iv)" by (simp add: report_of_def iv)
  let ?p = "pipe_of c s"
  have "pipe_of c (s\<lparr>sys_host := h', sys_irqs := rest\<rparr>) = ?p\<lparr>in_flight := map (report_of \<circ> fst) rest,
      waiting := (waiting ?p)[unat ?i := if iv_last iv then hs else r # hs],
      arrived := (arrived ?p)[r := (arrived ?p ! r)[unat ?i := arrived ?p ! r ! unat ?i @ amount (unat (iv_bytes_written iv))]],
      ended := if iv_last iv then (ended ?p)[r := insert (unat ?i) (ended ?p ! r)] else ended ?p\<rparr>"
    using moved_amounts [OF gm out] moved_ended [OF gm i sm] sh(1)
    by (intro pipe_eqI) (simp_all add: g eq map_update list_update_same_conv)
  then show ?thesis by (simp add: irqs rep N r)
qed

lemma refine_acquire:
  assumes inv: "sys_inv pool_inv live c X s" and ok: "params_ok c"
    and h: "acquire_output_handle c ops m (sys_host s) = (Inr r, h')"
  shows "pipe_apply (unat (NUM_STREAMS c)) (Opened (filter (bit m) [0 ..< unat (NUM_STREAMS c)])) (pipe_of c s) =
    Some (pipe_of c (s\<lparr>sys_host := h'\<rparr>))"
proof -
  let ?s = "sys_host s" and ?N = "unat (NUM_STREAMS c)"
  have oi: "obm_inv pool_inv live c (image_mset out_block (mset (sys_client s)) + X) ?s"
    using inv by (simp add: sys_inv_def)
  have cap: "0 < BUFFER_CAPACITY c" using ok by (simp add: params_ok_def)
  from wpD_Inr [OF acquire_output_handle_wp [OF oi cap params_ok_request [OF ok]] h]
  have r: "r = length (handles ?s)" and oi': "obm_inv pool_inv live c (image_mset out_block (mset (sys_client s)) + X) h'"
    and acq: "streams_acquired c m r {..< ?N} (?s\<lparr>handles := handles ?s @ [OutputHandle_init m (NUM_STREAMS c)]\<rparr>) h'"
    by blast+
  have len: "length (enqueued_handles h') = ?N" using oi' by (simp add: obm_inv_def obm_shape_def)
  have cnt: "count_list (filter (bit m) [0 ..< ?N]) i = (if bit m i then 1 else 0)" if "i < ?N" for i
    using that by (simp add: count_list_distinct_upt)
  have "enqueued_handles h' ! i = enqueued_handles ?s ! i @
      replicate (count_list (filter (bit m) [0 ..< ?N]) i) (length (handles ?s))" if "i < ?N" for i
    using streams_acquired_stream [OF acq that] that cnt [OF that] by (auto simp: r split: if_splits)
  then have w: "enqueued_handles h' = map (\<lambda>i. enqueued_handles ?s ! i @
      replicate (count_list (filter (bit m) [0 ..< ?N]) i) (length (handles ?s))) [0 ..< ?N]"
    by (intro nth_equalityI) (simp_all add: len)
  have "handles h' = handles ?s @ [OutputHandle_init m (NUM_STREAMS c)]"
    using acq by (simp add: streams_acquired_def)
  then show ?thesis by (simp add: pipe_of_def w Let_def ended_streams_def)
qed

lemma refine_acquire_sized:
  assumes inv: "sys_inv pool_inv live c X s"
    and h: "acquire_output_handle_sized c ops i n (sys_host s) = (Inr r, h')"
  shows "pipe_apply (unat (NUM_STREAMS c)) (Opened (replicate ((unat n + unat MAXIMUM_OUTPUT_WRITER_BUFFER_SIZE - 1)
      div unat MAXIMUM_OUTPUT_WRITER_BUFFER_SIZE) (unat i))) (pipe_of c s) = Some (pipe_of c (s\<lparr>sys_host := h'\<rparr>))"
proof -
  let ?s = "sys_host s" and ?N = "unat (NUM_STREAMS c)"
  have oi: "obm_inv pool_inv live c (image_mset out_block (mset (sys_client s)) + X) ?s"
    using inv by (simp add: sys_inv_def)
  from wpD_Inr [OF acquire_output_handle_sized_wp [OF oi] h]
  obtain bs where r: "r = length (handles ?s)" and i: "i < NUM_STREAMS c" and bs: "transfer_buffers (unat n) bs"
      "buffers_enqueued c i bs (?s\<lparr>handles := handles ?s @ [OutputHandle_init (2 ^ unat i) (NUM_STREAMS c)]\<rparr>) h'"
    and hq: "enqueued_handles h' = (enqueued_handles ?s)[unat i := enqueued_handles ?s ! unat i @ replicate (length bs) r]"
    by blast
  have len: "length (enqueued_handles ?s) = ?N" using oi by (simp add: obm_inv_def obm_shape_def)
  have parts: "length bs = (unat n + unat MAXIMUM_OUTPUT_WRITER_BUFFER_SIZE - 1) div unat MAXIMUM_OUTPUT_WRITER_BUFFER_SIZE"
    using bs(1) by (simp add: transfer_buffers_def stf_consts)
  have "(enqueued_handles ?s)[unat i := enqueued_handles ?s ! unat i @ replicate k r] =
      map (\<lambda>j. enqueued_handles ?s ! j @ replicate (count_list (replicate k (unat i)) j) (length (handles ?s))) [0 ..< ?N]" for k
    using i by (intro nth_equalityI) (auto simp: len nth_list_update count_list_replicate r)
  then have "enqueued_handles h' = map (\<lambda>j. enqueued_handles ?s ! j @
      replicate (count_list (replicate (length bs) (unat i)) j) (length (handles ?s))) [0 ..< ?N]"
    unfolding hq .
  moreover have "handles h' = handles ?s @ [OutputHandle_init (2 ^ unat i) (NUM_STREAMS c)]"
    using bs(2) by (simp add: buffers_enqueued_def)
  ultimately show ?thesis unfolding parts [symmetric] by (simp add: pipe_of_def Let_def ended_streams_def)
qed

lemma refine_takes:
  assumes inv: "sys_inv pool_inv live c X s"
    and h: "on_handle r (get_next_stream_output i) (sys_host s) = (Inr (Returns (Some b)), h')"
  shows "pipe_apply (unat (NUM_STREAMS c)) (Took r (unat i) (unat (buf_size b))) (pipe_of c s) =
    Some (pipe_of c (s\<lparr>sys_host := h', sys_client := cl\<rparr>))"
proof -
  let ?s = "sys_host s" and ?h = "handles (sys_host s) ! r"
  from h obtain hr where r: "r < length (handles ?s)"
    and get: "get_next_stream_output i ?h = (Inr (Returns (Some b)), hr)"
    and h': "h' = ?s\<lparr>handles := (handles ?s)[r := hr]\<rparr>"
    by (auto simp: on_handle_def onE_def split: if_splits prod.splits)
  from wpD_Inr [OF get_next_wp get] obtain rest where
    i: "unat i < length (oh_output_buffers ?h)" "oh_output_buffers ?h ! unat i = b # rest"
    and hr: "hr = ?h\<lparr>oh_output_buffers := (oh_output_buffers ?h)[unat i := rest]\<rparr>" by auto
  have "obm_shape c ?s" using inv by (simp add: sys_inv_def obm_inv_def)
  then have "length (oh_output_buffers ?h) = unat (NUM_STREAMS c)"
    using r by (simp add: obm_shape_def handle_shape_def)
  then have N: "unat i < unat (NUM_STREAMS c)" using i(1) by simp
  have e: "ended_streams c hr = ended_streams c ?h" by (simp add: hr ended_streams_def)
  let ?p = "pipe_of c s"
  have "pipe_of c (s\<lparr>sys_host := h', sys_client := cl\<rparr>) = ?p\<lparr>arrived := (arrived ?p)[r :=
      (arrived ?p ! r)[unat i := map (unat \<circ> buf_size) rest]]\<rparr>"
    using r e by (intro pipe_eqI) (simp_all add: h' hr map_update list_update_same_conv)
  then show ?thesis using r i N by simp
qed

lemma refine_releases:
  assumes inv: "sys_inv pool_inv live c X s" and u: "handle_unused r (sys_host s)"
    and h: "release_handle ops r (sys_host s) = (Inr (), h')"
  shows "pipe_apply (unat (NUM_STREAMS c)) (Released r) (pipe_of c s) = Some (pipe_of c (s\<lparr>sys_host := h'\<rparr>))"
proof -
  have "obm_inv pool_inv live c (image_mset out_block (mset (sys_client s)) + X) (sys_host s)"
    using inv by (simp add: sys_inv_def)
  from wpD_Inr [OF release_handle_wp [OF this] h] obtain p g where r: "r < length (handles (sys_host s))"
    and h': "h' = (sys_host s)\<lparr>host_pool := p, handles := (handles (sys_host s))[r := g]\<rparr>"
    and g: "oh_output_buffers g = map (\<lambda>_. []) (oh_output_buffers (handles (sys_host s) ! r))"
      "oh_finished_streams g = oh_finished_streams (handles (sys_host s) ! r)" by blast
  let ?p = "pipe_of c s"
  have e: "ended_streams c g = ended_streams c (handles (sys_host s) ! r)" by (simp add: g ended_streams_def)
  have "pipe_of c (s\<lparr>sys_host := h'\<rparr>) = ?p\<lparr>arrived := (arrived ?p)[r := map (\<lambda>_. []) (arrived ?p ! r)]\<rparr>"
    using r e by (intro pipe_eqI) (simp_all add: h' g map_update list_update_same_conv o_def)
  then show ?thesis using r u by (simp add: handle_unused_def)
qed

lemma refine_event:
  assumes "sys_event c ops e s s'" and inv: "sys_inv pool_inv live c X s" and ok: "params_ok c"
  shows "pipe_apply (unat (NUM_STREAMS c)) e (pipe_of c s) = Some (pipe_of c s')"
  using assms(1)
proof cases
  case (ev_uses_buffer n i v l)
  then show ?thesis using irq_below [of i c] by (simp add: pipe_of_def report_notify)
next
  case (ev_sees_no_data i l)
  then show ?thesis using irq_below [of i c] report_notify [of i 0 l] by (simp add: pipe_of_def)
next
  case (ev_interrupt w v rest h' iv)
  then show ?thesis using refine_interrupt [OF inv ok] by simp
next
  case (ev_acquire m r h')
  then show ?thesis using refine_acquire [OF inv ok] by simp
next
  case (ev_acquire_sized i n r h')
  then show ?thesis using refine_acquire_sized [OF inv] by simp
next
  case (ev_takes r i b h')
  then show ?thesis using refine_takes [OF inv] by simp
next
  case (ev_drops b h')
  then have "enqueued_handles h' = enqueued_handles (sys_host s)" "handles h' = handles (sys_host s)"
    by (auto simp: on_pool_def onE_def split: prod.splits)
  then show ?thesis by (simp add: ev_drops pipe_of_def)
next
  case (ev_releases r h')
  then show ?thesis using refine_releases [OF inv] by simp
next
  case (ev_sends mx p sz i l h')
  from ev_sends(3) obtain new ds where
    "h' = (after_maps new (sys_host s))\<lparr>host_cthread := host_cthread (sys_host s) @ user_maps new @ ds\<rparr>"
    by (rule enqueue_stream_input_frame)
  then show ?thesis by (simp add: ev_sends pipe_of_def)
qed

text \<open>A trace of the system is a run of the specification.\<close>

lemma refine_trace:
  assumes "sys_trace c ops h evs s" and "params_ok c" and "pool_inv (host_pool h)" and "tlb_inv h"
    and "\<And>i. i < NUM_STREAMS c \<Longrightarrow> csr_writes (stream_csr c i) (host_cthread h) = []"
  shows "pipe_run (unat (NUM_STREAMS c)) evs (pipe_start (unat (NUM_STREAMS c))) = Some (pipe_of c s)"
  using assms
proof (induction rule: sys_trace.induct)
  case trace_start
  show ?case by (simp add: pipe_start_def pipe_of_def obm_start_def host.defs)
next
  case (trace_next evs s e s')
  have "sys_inv pool_inv live c (live_blocks (live (host_pool h))) s"
    using sys_reachable_inv [OF sys_trace_reachable [OF trace_next.hyps(1)]] trace_next.prems by simp
  from refine_event [OF trace_next.hyps(2) this trace_next.prems(1)] trace_next.IH [OF trace_next.prems]
  show ?case by (simp add: pipe_run_append)
qed

end

end
