(* ===== verification/Shutdown.thy ===== *)
theory Shutdown
  imports Output_System
begin

text \<open>
  Shutting down: the destructor of the manager frees the buffers the FPGA has not used, and the
  destructors of the handles those that clients have not taken. Over a pool whose frees of live blocks
  do not throw (\<open>settled_pool\<close>) they return, and nothing is left but what others hold.
\<close>

context memory_pool
begin

text \<open>The manager's destructor leaves only what handles and clients hold.\<close>

lemma OutputBufferManager_destroy_wp:
  assumes inv: "obm_inv pool_inv live c X s"
  shows "wp (OutputBufferManager_destroy ops)
    (\<lambda>_ s'. obm_inv pool_inv live c X s' \<and> handles s' = handles s \<and>
       (\<forall>q \<in> set (enqueued_buffers s'). q = []) \<and>
       live_blocks (live (host_pool s')) = sum_list (map handle_blocks (handles s)) + X)
    (\<lambda>_ s'. pool_inv (host_pool s')) s"
proof -
  let ?R = "sum_list (map handle_blocks (handles s)) + X"
  have p: "pool_inv (host_pool s)" using inv by (simp add: obm_inv_def)
  have "image_mset enq_block (mset (concat (enqueued_buffers s))) + ?R = live_blocks (live (host_pool s))"
    using inv by (simp add: obm_inv_def held_blocks_def queue_blocks_concat ac_simps)
  note free = free_buffers_in_queue_wp [OF p this]
  show ?thesis
    unfolding OutputBufferManager_destroy_def wp_seqE wp_readE wp_on_pool
  proof (rule wp_mono [OF free], goal_cases)
    case (2 x p')
    have "queue_blocks enq_block (map (\<lambda>_. []) qs) = {#}" for qs
      by (induction qs) (simp_all add: queue_blocks_def)
    with 2 inv show ?case
      by (auto simp: wp_simps obm_inv_def obm_shape_def tlb_inv_def held_blocks_def)
  qed (simp_all add: enq_block_def)
qed

end

text \<open>The destructors of all handles, one after the other.\<close>

fun destroy_handles :: "'p MemoryPool \<Rightarrow> OutputHandle list \<Rightarrow> ('p, unit) action" where
  "destroy_handles ops [] = ret ()"
| "destroy_handles ops (h # hs) = seqE (OutputHandle_destroy ops h) (\<lambda>_. destroy_handles ops hs)"

context settled_pool
begin

lemma free_buffers_return:
  assumes "pool_inv p" and "image_mset f (mset bs) + R = live_blocks (live p)"
    and "\<And>b. fst (f b) = buf_ptr b"
  shows "fst (free_buffers_in_queue ops bs p) = Inr ()"
proof -
  have "wp (free_buffers_in_queue ops bs) (\<lambda>_ p'. pool_inv p' \<and> live_blocks (live p') = R) (\<lambda>_ _. False) p"
    by (rule free_queue_wp [where f = f and pinv = pool_inv and live = live, OF settled_free_law assms])
  then show ?thesis by (auto simp: wp_def split: prod.splits sum.splits)
qed

lemma destroy_handles_return:
  assumes "pool_inv p" and "sum_list (map handle_blocks hs) + R = live_blocks (live p)"
  shows "\<exists>p'. destroy_handles ops hs p = (Inr (), p') \<and> pool_inv p' \<and> live_blocks (live p') = R"
  using assms
proof (induction hs arbitrary: p)
  case Nil
  then show ?case by (simp add: ret_def)
next
  case (Cons h hs)
  have blocks: "handle_blocks h + (sum_list (map handle_blocks hs) + R) = live_blocks (live p)"
    using Cons.prems(2) by (simp add: ac_simps)
  then have "image_mset out_block (mset (concat (oh_output_buffers h))) + (sum_list (map handle_blocks hs) + R) =
      live_blocks (live p)"
    by (simp add: handle_blocks_def queue_blocks_concat)
  note free = free_buffers_return [OF Cons.prems(1) this]
  have "oh_output_buffers (join_callback_thread h) = oh_output_buffers h"
    by (simp add: join_callback_thread_def split: option.split)
  then have "\<exists>x. fst (OutputHandle_destroy ops h p) = Inr x"
    using free by (auto simp: OutputHandle_destroy_def Let_def seqE_def ret_def out_block_def
        split: prod.splits sum.splits)
  then obtain x p1 where x: "OutputHandle_destroy ops h p = (Inr x, p1)"
    by (metis prod.collapse)
  with wpD_Inr [OF OutputHandle_destroy_wp [OF Cons.prems(1) blocks] x] Cons.IH [of p1] show ?case
    by (auto simp: seqE_def)
qed

lemma shutdown_returns:
  assumes inv: "obm_inv pool_inv live c X s"
  shows "\<exists>s' p'. OutputBufferManager_destroy ops s = (Inr (), s') \<and>
    destroy_handles ops (handles s') (host_pool s') = (Inr (), p') \<and> live_blocks (live p') = X"
proof -
  have p: "pool_inv (host_pool s)" using inv by (simp add: obm_inv_def)
  have "image_mset enq_block (mset (concat (enqueued_buffers s))) + (sum_list (map handle_blocks (handles s)) + X) =
      live_blocks (live (host_pool s))"
    using inv by (simp add: obm_inv_def held_blocks_def queue_blocks_concat ac_simps)
  from free_buffers_return [OF p this] obtain p1 where
    "free_buffers_in_queue ops (concat (enqueued_buffers s)) (host_pool s) = (Inr (), p1)"
    by (auto simp: enq_block_def) (metis prod.collapse)
  then obtain s' where s': "OutputBufferManager_destroy ops s = (Inr (), s')"
    by (simp add: OutputBufferManager_destroy_def method_defs on_pool_def)
  from wpD_Inr [OF OutputBufferManager_destroy_wp [OF inv] s']
  have "pool_inv (host_pool s')" "sum_list (map handle_blocks (handles s')) + X = live_blocks (live (host_pool s'))"
    by (auto simp: obm_inv_def)
  from destroy_handles_return [OF this] s' show ?thesis by blast
qed

end

end
