(* ===== verification/Config_Device.thy ===== *)
theory Config_Device
  imports Hardware
begin

text \<open>
  The register space of the FPGA design as the hardware decodes it: the table of
  \<open>config/global_config.sv\<close>, the splitters that route a read or a write to a configuration
  (\<open>config/read_config_splitter.sv\<close>, \<open>write_config_splitter.sv\<close>) and the register files behind them
  (\<open>config/registers/config_read_register_file.sv\<close>, \<open>mem_config.sv\<close>, \<open>stream_config.sv\<close>,
  \<open>replay_buffer_config.sv\<close>). The lemmas show that the host's walk over the table finds exactly the
  configurations the design was built with, and that the host's reads and writes through a
  configuration arrive at that configuration at the register they name.
\<close>

section \<open>Register files\<close>

definition read_register_file :: "u64 list \<Rightarrow> nat \<Rightarrow> u64" where
  "read_register_file values addr = (if addr < length values then values ! addr else 0)"

definition MemConfig_registers :: "nat \<Rightarrow> u64 \<Rightarrow> bool \<Rightarrow> u64 list" where
  "MemConfig_registers n maximum empty_consumes = [0, of_nat n, maximum, of_bool empty_consumes]"

definition StreamConfig_registers :: "nat \<Rightarrow> u64 list" where
  "StreamConfig_registers n = [1, of_nat n]"

definition ReplayBufferConfig_registers :: "nat \<Rightarrow> u64 \<Rightarrow> u64 \<Rightarrow> u64 list" where
  "ReplayBufferConfig_registers n maximum transfer = [2, of_nat n, maximum, transfer]"

text \<open>A configuration of the design: the size of its address space and its read registers.\<close>

record hw_config =
  hw_addr_space :: nat
  hw_registers :: "u64 list"

section \<open>Address spaces\<close>

text \<open>Prefix sums, after the global registers.\<close>

fun bounds_from :: "nat \<Rightarrow> nat list \<Rightarrow> nat list" where
  "bounds_from b [] = [b]"
| "bounds_from b (sz # szs) = b # bounds_from (b + sz) szs"

definition ADDR_SPACE_BOUNDS :: "nat list \<Rightarrow> nat list" where
  "ADDR_SPACE_BOUNDS sizes = 0 # bounds_from (2 + length sizes) sizes"

fun clog2 :: "nat \<Rightarrow> nat" where
  "clog2 n = (if n \<le> 1 then 0 else Suc (clog2 ((n + 1) div 2)))"

declare clog2.simps [simp del]

text \<open>The register address: the bits of the byte address the design looks at.\<close>

definition axi_register :: "nat list \<Rightarrow> u32 \<Rightarrow> nat" where
  "axi_register sizes addr = take_bit (clog2 (last (ADDR_SPACE_BOUNDS sizes))) (unat addr)"

definition global_registers :: "u64 \<Rightarrow> nat list \<Rightarrow> u64 list" where
  "global_registers sys_id sizes =
     sys_id # of_nat (length sizes) # map of_nat (drop 2 (ADDR_SPACE_BOUNDS sizes))"

text \<open>The port a read goes to; the last port takes what no other port takes.\<close>

definition read_smaller_than_bound :: "nat list \<Rightarrow> nat \<Rightarrow> nat \<Rightarrow> nat \<Rightarrow> bool" where
  "read_smaller_than_bound bounds n addr i =
     (if i = 0 then False else if i = n then True else addr < bounds ! i)"

definition read_addr_matches :: "nat list \<Rightarrow> nat \<Rightarrow> nat \<Rightarrow> nat \<Rightarrow> bool" where
  "read_addr_matches bounds n addr i \<longleftrightarrow>
     \<not> read_smaller_than_bound bounds n addr i \<and> read_smaller_than_bound bounds n addr (Suc i)"

definition read_port :: "nat list \<Rightarrow> nat \<Rightarrow> nat \<Rightarrow> nat" where
  "read_port bounds n addr =
     foldl (\<lambda>port i. port OR (if read_addr_matches bounds n addr i then i else 0)) 0 [0 ..< n]"

text \<open>What the device answers to a read, that is, the contents of its registers.\<close>

definition device_csr :: "u64 \<Rightarrow> hw_config list \<Rightarrow> csr" where
  "device_csr sys_id cs addr =
     (let sizes = map hw_addr_space cs;
          bounds = ADDR_SPACE_BOUNDS sizes;
          a = axi_register sizes addr;
          port = read_port bounds (Suc (length cs)) a
      in if port = 0 then read_register_file (global_registers sys_id sizes) a
         else read_register_file (hw_registers (cs ! (port - 1))) (a - bounds ! port))"

text \<open>The configurations a write is valid at, with the address they see.\<close>

definition device_write :: "hw_config list \<Rightarrow> u32 \<Rightarrow> (nat \<times> int) list" where
  "device_write cs addr =
     (let sizes = map hw_addr_space cs;
          bounds = tl (ADDR_SPACE_BOUNDS sizes);
          a = axi_register sizes addr;
          smaller = (\<lambda>i. if i = 0 then False else a < bounds ! i)
      in [(i, int a - int (bounds ! i)). i \<leftarrow> [0 ..< length cs], \<not> smaller i \<and> smaller (Suc i)])"

section \<open>Bounds\<close>

definition bound_of :: "nat list \<Rightarrow> nat \<Rightarrow> nat" where
  "bound_of sizes i = 2 + length sizes + sum_list (take i sizes)"

lemma bounds_from_nth: "i \<le> length szs \<Longrightarrow> bounds_from b szs ! i = b + sum_list (take i szs)"
  by (induction szs arbitrary: b i) (auto simp: nth_Cons split: nat.split)

lemma length_bounds_from [simp]: "length (bounds_from b szs) = Suc (length szs)"
  by (induction szs arbitrary: b) auto

lemma bounds_from_not_Nil [simp]: "bounds_from b szs \<noteq> []"
  by (cases szs) simp_all

lemma last_bounds_from: "last (bounds_from b szs) = b + sum_list szs"
  by (induction szs arbitrary: b) (auto simp: neq_Nil_conv)

lemma bounds_simps [simp]:
  "ADDR_SPACE_BOUNDS sizes ! 0 = 0"
  "i \<le> length sizes \<Longrightarrow> ADDR_SPACE_BOUNDS sizes ! Suc i = bound_of sizes i"
  "length (ADDR_SPACE_BOUNDS sizes) = length sizes + 2"
  "last (ADDR_SPACE_BOUNDS sizes) = bound_of sizes (length sizes)"
  by (simp_all add: ADDR_SPACE_BOUNDS_def bounds_from_nth bound_of_def last_bounds_from)

lemma bound_of_Suc: "i < length sizes \<Longrightarrow> bound_of sizes (Suc i) = bound_of sizes i + sizes ! i"
  by (simp add: bound_of_def take_Suc_conv_app_nth)

lemma bound_of_mono: "i \<le> j \<Longrightarrow> bound_of sizes i \<le> bound_of sizes j"
  unfolding bound_of_def
  by (metis add_left_mono le_add1 le_iff_add sum_list_append take_add)

lemma clog2_bound: "n \<le> 2 ^ clog2 n"
proof (induction n rule: clog2.induct)
  case (1 n)
  show ?case
  proof (cases "n \<le> 1")
    case False
    then have "(n + 1) div 2 \<le> 2 ^ clog2 ((n + 1) div 2)" by (rule 1)
    then show ?thesis using False by (subst clog2.simps) simp
  qed (simp add: clog2.simps)
qed

lemma axi_register_id:
  "unat addr < bound_of sizes (length sizes) \<Longrightarrow> axi_register sizes addr = unat addr"
  using clog2_bound [of "bound_of sizes (length sizes)"]
  by (simp add: axi_register_def take_bit_nat_eq_self)

section \<open>Routing\<close>

lemma foldl_or:
  assumes "\<And>j. j \<in> set xs \<Longrightarrow> f j = (if j = i then i else 0)"
  shows "foldl (\<lambda>p j. p OR f j) acc xs = (if i \<in> set xs then acc OR i else acc :: nat)"
  using assms
proof (induction xs arbitrary: acc)
  case (Cons x xs)
  have "foldl (\<lambda>p j. p OR f j) (acc OR f x) xs =
      (if i \<in> set xs then (acc OR f x) OR i else acc OR f x)"
    by (rule Cons.IH) (rule Cons.prems, simp)
  moreover have "f x = (if x = i then i else 0)" by (rule Cons.prems) simp
  ultimately show ?case by (cases "x = i") (simp_all add: or.assoc)
qed simp

lemma read_port_eq:
  assumes "i < n" and "read_addr_matches bounds n a i"
    and "\<And>j. j < n \<Longrightarrow> read_addr_matches bounds n a j \<Longrightarrow> j = i"
  shows "read_port bounds n a = i"
proof -
  have "(if read_addr_matches bounds n a j then j else 0) = (if j = i then i else 0)"
    if "j \<in> set [0 ..< n]" for j
    using assms(2) assms(3) [of j] that by (cases "j = i") auto
  from foldl_or [where xs = "[0 ..< n]" and acc = 0, OF this] show ?thesis
    using assms(1) by (simp add: read_port_def)
qed

lemma read_port_global:
  assumes "a < bound_of sizes 0"
  shows "read_port (ADDR_SPACE_BOUNDS sizes) (Suc (length sizes)) a = 0"
proof (rule read_port_eq)
  fix j
  assume "j < Suc (length sizes)" "read_addr_matches (ADDR_SPACE_BOUNDS sizes) (Suc (length sizes)) a j"
  then show "j = 0"
    using assms bound_of_mono [of 0 "j - 1" sizes]
    by (cases j) (auto simp: read_addr_matches_def read_smaller_than_bound_def)
qed (use assms in \<open>auto simp: read_addr_matches_def read_smaller_than_bound_def\<close>)

lemma read_port_config:
  assumes j: "j < length sizes" and a: "bound_of sizes j \<le> a" "a < bound_of sizes (Suc j)"
  shows "read_port (ADDR_SPACE_BOUNDS sizes) (Suc (length sizes)) a = Suc j"
proof (rule read_port_eq)
  fix i
  assume i: "i < Suc (length sizes)"
    and m: "read_addr_matches (ADDR_SPACE_BOUNDS sizes) (Suc (length sizes)) a i"
  show "i = Suc j"
  proof (cases i)
    case 0
    with m j have "a < bound_of sizes 0"
      by (auto simp: read_addr_matches_def read_smaller_than_bound_def split: if_splits)
    with a bound_of_mono [of 0 j sizes] show ?thesis by simp
  next
    case (Suc k)
    have "\<not> k < j"
      using m i Suc j a bound_of_mono [of "Suc k" j sizes]
      by (auto simp: read_addr_matches_def read_smaller_than_bound_def split: if_splits)
    moreover have "\<not> j < k"
      using m i Suc a bound_of_mono [of "Suc j" k sizes]
      by (auto simp: read_addr_matches_def read_smaller_than_bound_def split: if_splits)
    ultimately show ?thesis using Suc by simp
  qed
qed (use assms in \<open>auto simp: read_addr_matches_def read_smaller_than_bound_def\<close>)

definition config_id_of :: "hw_config \<Rightarrow> u64" where
  "config_id_of c = hd (hw_registers c)"

text \<open>A design whose address spaces fit into the register space, each with an id of its own.\<close>

definition design_ok :: "hw_config list \<Rightarrow> bool" where
  "design_ok cs \<longleftrightarrow>
     bound_of (map hw_addr_space cs) (length cs) < 2 ^ 32 \<and>
     (\<forall>c \<in> set cs. 0 < hw_addr_space c \<and> hw_registers c \<noteq> []) \<and>
     distinct (map config_id_of cs)"

definition config_start :: "hw_config list \<Rightarrow> nat \<Rightarrow> u32" where
  "config_start cs i = of_nat (bound_of (map hw_addr_space cs) i)"

lemma config_start_nat:
  assumes "design_ok cs" and "i \<le> length cs"
  shows "unat (config_start cs i) = bound_of (map hw_addr_space cs) i"
    and "bound_of (map hw_addr_space cs) i < 2 ^ 32"
proof -
  have "bound_of (map hw_addr_space cs) i \<le> bound_of (map hw_addr_space cs) (length cs)"
    using assms(2) by (rule bound_of_mono)
  then show "bound_of (map hw_addr_space cs) i < 2 ^ 32"
    using assms(1) by (simp add: design_ok_def)
  then show "unat (config_start cs i) = bound_of (map hw_addr_space cs) i"
    by (simp add: config_start_def unat_of_nat)
qed

lemma device_csr_global:
  assumes "design_ok cs" and "unat addr < 2 + length cs"
  shows "device_csr sys_id cs addr = global_registers sys_id (map hw_addr_space cs) ! unat addr"
proof -
  let ?sz = "map hw_addr_space cs"
  have lt: "unat addr < bound_of ?sz 0" using assms(2) by (simp add: bound_of_def)
  then have "unat addr < bound_of ?sz (length ?sz)"
    using bound_of_mono [of 0 "length ?sz" ?sz] by simp
  then have "axi_register ?sz addr = unat addr" by (rule axi_register_id)
  moreover have "length (global_registers sys_id ?sz) = 2 + length cs"
    by (simp add: global_registers_def)
  ultimately show ?thesis
    using read_port_global [OF lt] assms(2)
    by (simp add: device_csr_def Let_def read_register_file_def)
qed

lemma device_csr_config:
  assumes ok: "design_ok cs" and i: "i < length cs" and a: "a < hw_addr_space (cs ! i)"
    and addr: "unat addr = bound_of (map hw_addr_space cs) i + a"
  shows "device_csr sys_id cs addr = read_register_file (hw_registers (cs ! i)) a"
proof -
  let ?sz = "map hw_addr_space cs"
  have b: "bound_of ?sz i \<le> unat addr" "unat addr < bound_of ?sz (Suc i)"
    using addr a i by (simp_all add: bound_of_Suc)
  moreover have "bound_of ?sz (Suc i) \<le> bound_of ?sz (length ?sz)"
    using i by (intro bound_of_mono) simp
  ultimately have "axi_register ?sz addr = unat addr" by (intro axi_register_id) simp
  with read_port_config [of i ?sz "unat addr"] b i addr show ?thesis
    by (simp add: device_csr_def Let_def)
qed

section \<open>The host's walk over the table\<close>

text \<open>The host's view after it has found the first \<open>k\<close> configurations.\<close>

definition walked :: "u64 \<Rightarrow> hw_config list \<Rightarrow> nat \<Rightarrow> GlobalConfig" where
  "walked sys_id cs k =
     \<lparr>addr_offset = 0, num_regs = - 1, system_id = sys_id, num_configs = of_nat (length cs),
      config_ids = map config_id_of (take k cs),
      config_bounds = map (config_start cs) [0 ..< Suc k], configs_cache = Map.empty\<rparr>"

lemma walked_simps [simp]:
  "addr_offset (walked s cs k) = 0" "num_regs (walked s cs k) = - 1"
  "config_ids (walked s cs k) = map config_id_of (take k cs)"
  "config_bounds (walked s cs k) = map (config_start cs) [0 ..< Suc k]"
  "configs_cache (walked s cs k) = Map.empty"
  by (simp_all add: walked_def)

lemma index_of_None: "index_of x xs = None \<longleftrightarrow> x \<notin> set xs"
  by (induction xs) auto

lemma index_of_nth: "distinct xs \<Longrightarrow> i < length xs \<Longrightarrow> index_of (xs ! i) xs = Some i"
  by (induction xs arbitrary: i) (auto simp: nth_Cons split: nat.split)

lemma below_num_regs: "n < 4294967295 \<Longrightarrow> unat (addr :: u32) = n \<Longrightarrow> addr < - 1"
  by (simp add: word_less_nat_alt unsigned_minus_1_eq_mask mask_eq_exp_minus_1)

lemma design_total:
  assumes "design_ok cs" and "i < length cs"
  shows "bound_of (map hw_addr_space cs) i < 4294967295"
    and "2 + length cs \<le> bound_of (map hw_addr_space cs) i"
proof -
  let ?sz = "map hw_addr_space cs"
  have "bound_of ?sz i < bound_of ?sz (Suc i)"
    using assms by (simp add: bound_of_Suc design_ok_def)
  also have "\<dots> \<le> bound_of ?sz (length cs)"
    using assms(2) by (intro bound_of_mono) simp
  finally show "bound_of ?sz i < 4294967295"
    using assms(1) by (simp add: design_ok_def)
  show "2 + length cs \<le> bound_of ?sz i"
    by (simp add: bound_of_def)
qed

lemma global_register_bound:
  assumes "i < length cs"
  shows "ucast (global_registers s (map hw_addr_space cs) ! (2 + i)) = config_start cs (Suc i)"
proof -
  have "global_registers s (map hw_addr_space cs) ! (2 + i) = of_nat (bound_of (map hw_addr_space cs) (Suc i))"
    using assms by (simp add: global_registers_def)
  then show ?thesis by (simp add: config_start_def ucast_of_nat)
qed

lemma walk_step:
  assumes ok: "design_ok cs" and k: "k < length cs"
  shows "GlobalConfig_load_one (device_csr sys_id cs) k (walked sys_id cs k) =
    Inr (walked sys_id cs (Suc k))"
proof -
  note tot = design_total [OF ok k]
  have a1: "unat (2 + of_nat k :: u32) = 2 + k"
    using tot k by (simp add: unat_word_ariths unat_of_nat)
  have r1: "read_register (device_csr sys_id cs) (walked sys_id cs k) (2 + of_nat k) =
      Inr (ConfigRegister_of (2 + of_nat k) (global_registers sys_id (map hw_addr_space cs) ! (2 + k)))"
    using below_num_regs [OF _ a1] tot k device_csr_global [OF ok, of "2 + of_nat k" sys_id] a1
    by (simp add: read_register_def)
  let ?b = "config_start cs k"
  have b: "unat ?b = bound_of (map hw_addr_space cs) k"
    by (rule config_start_nat(1) [OF ok]) (use k in simp)
  have c: "0 < hw_addr_space (cs ! k)" "hw_registers (cs ! k) \<noteq> []"
    using ok k by (simp_all add: design_ok_def)
  have "device_csr sys_id cs ?b = read_register_file (hw_registers (cs ! k)) 0"
    by (rule device_csr_config [OF ok k c(1)]) (simp add: b)
  then have id: "device_csr sys_id cs ?b = config_id_of (cs ! k)"
    using c(2) by (simp add: read_register_file_def config_id_of_def hd_conv_nth)
  let ?gc = "(walked sys_id cs k)\<lparr>config_bounds := map (config_start cs) [0 ..< Suc k] @ [config_start cs (Suc k)]\<rparr>"
  have r2: "read_register (device_csr sys_id cs) ?gc ?b = Inr (ConfigRegister_of ?b (config_id_of (cs ! k)))"
    using below_num_regs [OF tot(1) b] id by (simp add: read_register_def)
  have bnd: "config_bounds ?gc ! k = ?b" by (simp add: nth_append)
  have "distinct (map config_id_of cs)"
    using ok by (simp add: design_ok_def)
  then have "distinct (map config_id_of (take k cs) @ map config_id_of (drop k cs))"
    by (simp flip: map_append)
  moreover have "drop k cs = cs ! k # drop (Suc k) cs"
    using k by (simp add: Cons_nth_drop_Suc)
  ultimately have "config_id_of (cs ! k) \<notin> set (map config_id_of (take k cs))"
    by auto
  then have new: "\<not> has_config ?gc (config_id_of (cs ! k))"
    by (simp add: has_config_def index_of_None)
  have "?gc\<lparr>config_ids := config_ids ?gc @ [config_id_of (cs ! k)]\<rparr> = walked sys_id cs (Suc k)"
    using k by (simp add: walked_def take_Suc_conv_app_nth)
  then show ?thesis
    unfolding GlobalConfig_load_one_def r1 bind_sum_simps Let_def reg_simps global_register_bound [OF k]
    using r2 bnd new by simp
qed

lemma walk_all:
  assumes ok: "design_ok cs" and "k \<le> length cs"
  shows "GlobalConfig_load (device_csr sys_id cs) [k ..< length cs] (walked sys_id cs k) =
    Inr (walked sys_id cs (length cs))"
  using assms(2)
proof (induction "length cs - k" arbitrary: k)
  case 0
  then show ?case by simp
next
  case (Suc n)
  then have k: "k < length cs" by simp
  then have "[k ..< length cs] = k # [Suc k ..< length cs]" by (simp add: upt_conv_Cons)
  then show ?case
    using Suc.hyps(1) [of "Suc k"] Suc.hyps(2) k walk_step [OF ok k] by simp
qed

text \<open>The constructor succeeds and knows every configuration of the design.\<close>

lemma GlobalConfig_init_design:
  assumes ok: "design_ok cs"
  shows "GlobalConfig_init (device_csr sys_id cs) = Inr (walked sys_id cs (length cs))"
proof -
  have len: "length cs < 4294967294"
    using config_start_nat(2) [OF ok order_refl] by (simp add: bound_of_def)
  have r: "read_register (device_csr sys_id cs) (Config_init 0 (- 1)) 0 = Inr (ConfigRegister_of 0 sys_id)"
    "read_register (device_csr sys_id cs) (Config_init 0 (- 1)) 1 =
      Inr (ConfigRegister_of 1 (of_nat (length cs)))"
    using below_num_regs [of 0 0] below_num_regs [of 1 1] device_csr_global [OF ok, of 0 sys_id]
      device_csr_global [OF ok, of 1 sys_id]
    by (simp_all add: read_register_def Config_init_def global_registers_def)
  have n: "unat (of_nat (length cs) :: u32) = length cs"
    using len by (simp add: unat_of_nat)
  have start: "[2 + of_nat (length cs)] = map (config_start cs) [0 ..< Suc 0]"
    by (simp add: config_start_def bound_of_def)
  show ?thesis
    using walk_all [OF ok, of 0 sys_id]
    by (simp add: GlobalConfig_init_def r Let_def ucast_of_nat n start walked_def)
qed

lemma get_config_bounds_design:
  assumes ok: "design_ok cs" and i: "i < length cs"
  shows "get_config_bounds (walked sys_id cs (length cs)) (config_id_of (cs ! i)) =
    Inr (config_start cs i, config_start cs (Suc i))"
proof -
  have "distinct (map config_id_of cs)" using ok by (simp add: design_ok_def)
  then have "index_of (map config_id_of cs ! i) (map config_id_of cs) = Some i"
    using i by (intro index_of_nth) simp_all
  moreover have "Suc i < length cs \<or> length cs = Suc i" using i by auto
  ultimately show ?thesis
    using i by (auto simp: get_config_bounds_def nth_append)
qed

lemma comprehension_single:
  assumes "\<And>j. j \<in> set xs \<Longrightarrow> P j \<longleftrightarrow> j = i" and "distinct xs" and "i \<in> set xs"
  shows "concat (map (\<lambda>j. if P j then [f j] else []) xs) = [f i]"
  using assms
proof (induction xs)
  case (Cons x xs)
  show ?case
  proof (cases "x = i")
    case True
    with Cons.prems have "\<forall>j \<in> set xs. \<not> P j" by auto
    then have "concat (map (\<lambda>j. if P j then [f j] else []) xs) = []" by simp
    then show ?thesis using Cons.prems(1) [of x] True by simp
  next
    case False
    with Cons show ?thesis by simp
  qed
qed simp

text \<open>A write to register \<open>a\<close> of the window of a configuration arrives there, and nowhere else.\<close>

lemma device_write_config:
  assumes ok: "design_ok cs" and i: "i < length cs" and a: "a < hw_addr_space (cs ! i)"
  shows "device_write cs (config_start cs i + of_nat a) = [(i, int a)]"
proof -
  let ?sz = "map hw_addr_space cs" and ?addr = "config_start cs i + of_nat a"
  have Si: "bound_of ?sz (Suc i) = bound_of ?sz i + hw_addr_space (cs ! i)"
    using i by (simp add: bound_of_Suc)
  have le: "bound_of ?sz (Suc i) \<le> bound_of ?sz (length cs)"
    using i by (intro bound_of_mono) simp
  have "unat (config_start cs i) = bound_of ?sz i"
    by (rule config_start_nat(1) [OF ok]) (use i in simp)
  moreover have lt: "bound_of ?sz i + a < 2 ^ 32"
    using a Si le config_start_nat(2) [OF ok order_refl] by simp
  ultimately have addr: "unat ?addr = bound_of ?sz i + a"
    by (simp add: unat_word_ariths unat_of_nat)
  have reg: "axi_register ?sz ?addr = bound_of ?sz i + a"
    using axi_register_id [of ?addr ?sz] addr a Si le by simp
  have b: "tl (ADDR_SPACE_BOUNDS ?sz) ! j = bound_of ?sz j" if "j \<le> length cs" for j
    using that by (simp add: ADDR_SPACE_BOUNDS_def bounds_from_nth bound_of_def)
  have only: "(j = 0 \<or> bound_of ?sz j \<le> bound_of ?sz i + a) \<and> bound_of ?sz i + a < bound_of ?sz (Suc j)
      \<longleftrightarrow> j = i" if "j < length cs" for j
    using a Si bound_of_mono [of "Suc j" i ?sz] bound_of_mono [of "Suc i" j ?sz] by fastforce
  have "device_write cs ?addr =
      [(i, int (axi_register ?sz ?addr) - int (tl (ADDR_SPACE_BOUNDS ?sz) ! i))]"
    unfolding device_write_def Let_def
    by (rule comprehension_single) (use only reg b i in \<open>auto simp: not_less\<close>)
  then show ?thesis
    using reg b i by simp
qed

text \<open>Reading through the window of a configuration reads the registers of that configuration.\<close>

lemma window_read:
  assumes ok: "design_ok cs" and i: "i < length cs" and a: "unat a < hw_addr_space (cs ! i)"
  shows "read_register (device_csr sys_id cs)
      (Config_init (config_start cs i) (config_start cs (Suc i) - config_start cs i)) a =
    Inr (ConfigRegister_of (config_start cs i + a) (read_register_file (hw_registers (cs ! i)) (unat a)))"
proof -
  let ?sz = "map hw_addr_space cs"
  have Si: "bound_of ?sz (Suc i) = bound_of ?sz i + hw_addr_space (cs ! i)"
    using i by (simp add: bound_of_Suc)
  have s: "unat (config_start cs i) = bound_of ?sz i" "unat (config_start cs (Suc i)) = bound_of ?sz (Suc i)"
    by (rule config_start_nat(1) [OF ok]; use i in simp)+
  have "bound_of ?sz (Suc i) < 2 ^ 32"
    by (rule config_start_nat(2) [OF ok]) (use i in simp)
  then have addr: "unat (config_start cs i + a) = bound_of ?sz i + unat a"
    using a Si s by (simp add: unat_word_ariths)
  have "config_start cs i \<le> config_start cs (Suc i)"
    using s Si by (simp add: word_le_nat_alt)
  then have "unat (config_start cs (Suc i) - config_start cs i) = hw_addr_space (cs ! i)"
    using s Si by (simp add: unat_diff_le)
  then show ?thesis
    using a device_csr_config [OF ok i a addr]
    by (simp add: read_register_def Config_init_def word_less_nat_alt)
qed

lemma get_config_design:
  assumes ok: "design_ok cs" and i: "i < length cs" and id: "config_id_of (cs ! i) = config_ID T"
  shows "get_config csr T (walked sys_id cs (length cs)) =
    (case make_config T csr (config_start cs i) (config_start cs (Suc i) - config_start cs i) of
       Inl e \<Rightarrow> (Inl e, walked sys_id cs (length cs))
     | Inr c \<Rightarrow> (Inr c, (walked sys_id cs (length cs))\<lparr>configs_cache := [config_ID T \<mapsto> c]\<rparr>))"
proof -
  have "has_config (walked sys_id cs (length cs)) (config_ID T)"
    using id i by (auto simp: has_config_def index_of_None image_iff intro!: bexI [of _ "cs ! i"])
  then show ?thesis
    using get_config_bounds_design [OF ok i, of sys_id] id
    by (simp add: get_config_def split: sum.split)
qed

text \<open>The configuration objects the host makes carry the parameters the hardware was built with.\<close>

lemma MemConfig_design:
  assumes ok: "design_ok cs" and i: "i < length cs" and "4 \<le> hw_addr_space (cs ! i)"
    and regs: "hw_registers (cs ! i) = MemConfig_registers n mx e"
  shows "get_config (device_csr sys_id cs) MemConfig_class (walked sys_id cs (length cs)) =
    (let c = AMem \<lparr>addr_offset = config_start cs i,
       num_regs = config_start cs (Suc i) - config_start cs i, num_streams = of_nat n,
       maximum_num_enqueued_buffers = mx, empty_stream_consumes_buffer = e\<rparr>
     in (Inr c, (walked sys_id cs (length cs))\<lparr>configs_cache := [0 \<mapsto> c]\<rparr>))"
proof -
  have "config_id_of (cs ! i) = config_ID MemConfig_class"
    by (simp add: config_id_of_def regs MemConfig_registers_def)
  note get = get_config_design [OF ok i this, of "device_csr sys_id cs" sys_id]
  let ?c = "Config_init (config_start cs i) (config_start cs (Suc i) - config_start cs i)"
  have r: "read_register (device_csr sys_id cs) ?c 1 =
      Inr (ConfigRegister_of (config_start cs i + 1) (of_nat n))"
    "read_register (device_csr sys_id cs) ?c 2 = Inr (ConfigRegister_of (config_start cs i + 2) mx)"
    "read_register (device_csr sys_id cs) ?c 3 =
      Inr (ConfigRegister_of (config_start cs i + 3) (of_bool e))"
    using window_read [OF ok i, of 1 sys_id] window_read [OF ok i, of 2 sys_id]
      window_read [OF ok i, of 3 sys_id] assms(3)
    by (simp_all add: regs MemConfig_registers_def read_register_file_def)
  show ?thesis
    unfolding get make_config.simps MemConfig_init_def Let_def r
    by (simp add: ucast_of_nat)
qed

section \<open>Properties\<close>

text \<open>C13. Discovery: for every design whose address spaces fit the register space and whose configurations
  have different ids, the constructor of \<open>GlobalConfig\<close> succeeds, it knows the id of every
  configuration, and for each of them \<open>get_config_bounds\<close> gives the bounds of its address space.\<close>

theorem global_config_discovers_design:
  assumes "design_ok cs"
  shows "\<exists>gc. GlobalConfig_init (device_csr sys_id cs) = Inr gc \<and> system_id gc = sys_id \<and>
    (\<forall>x. has_config gc x \<longleftrightarrow> x \<in> config_id_of ` set cs) \<and>
    (\<forall>i < length cs. get_config_bounds gc (config_id_of (cs ! i)) =
       Inr (config_start cs i, config_start cs (Suc i)))"
proof -
  have "has_config (walked sys_id cs (length cs)) x \<longleftrightarrow> x \<in> config_id_of ` set cs" for x
    by (simp add: has_config_def index_of_None)
  then show ?thesis
    using GlobalConfig_init_design [OF assms, of sys_id] get_config_bounds_design [OF assms]
    by (auto simp: walked_def)
qed

text \<open>A design with one memory and one stream configuration.\<close>

definition example_design :: "hw_config list" where
  "example_design =
     [\<lparr>hw_addr_space = 5, hw_registers = MemConfig_registers 4 256 True\<rparr>,
      \<lparr>hw_addr_space = 4, hw_registers = StreamConfig_registers 4\<rparr>]"

lemma example_design_ok: "design_ok example_design"
  by (simp add: design_ok_def example_design_def bound_of_def config_id_of_def
      MemConfig_registers_def StreamConfig_registers_def)

theorem global_config_discovers_design_witness:
  "\<exists>gc. GlobalConfig_init (device_csr 7 example_design) = Inr gc \<and> system_id gc = 7 \<and>
    (\<forall>x. has_config gc x \<longleftrightarrow> x \<in> config_id_of ` set example_design) \<and>
    (\<forall>i < length example_design. get_config_bounds gc (config_id_of (example_design ! i)) =
       Inr (config_start example_design i, config_start example_design (Suc i)))"
  by (rule global_config_discovers_design) (rule example_design_ok)

text \<open>Over such a design \<open>get_config\<close> makes the memory configuration with the number of streams, the
  maximal number of enqueued buffers and the empty-stream behaviour the hardware was built with, and
  it puts the object into the cache.\<close>

theorem mem_config_matches_hardware:
  assumes "design_ok cs" and "i < length cs" and "4 \<le> hw_addr_space (cs ! i)"
    and "hw_registers (cs ! i) = MemConfig_registers n mx e"
    and "GlobalConfig_init (device_csr sys_id cs) = Inr gc"
  shows "\<exists>mc gc'. get_config (device_csr sys_id cs) MemConfig_class gc = (Inr (AMem mc), gc') \<and>
    num_streams mc = of_nat n \<and> maximum_num_enqueued_buffers mc = mx \<and>
    empty_stream_consumes_buffer mc = e \<and> addr_offset mc = config_start cs i \<and>
    get_config (device_csr sys_id cs) MemConfig_class gc' = (Inr (AMem mc), gc')"
proof -
  have "gc = walked sys_id cs (length cs)"
    using assms(5) GlobalConfig_init_design [OF assms(1), of sys_id] by simp
  then show ?thesis
    using MemConfig_design [OF assms(1-4), of sys_id] by (auto simp: Let_def get_config_def)
qed

theorem mem_config_matches_hardware_witness:
  "\<exists>gc mc gc'. get_config (device_csr 7 example_design) MemConfig_class gc = (Inr (AMem mc), gc') \<and>
    num_streams mc = of_nat 4 \<and> maximum_num_enqueued_buffers mc = 256 \<and>
    empty_stream_consumes_buffer mc = True \<and> addr_offset mc = config_start example_design 0 \<and>
    get_config (device_csr 7 example_design) MemConfig_class gc' = (Inr (AMem mc), gc')"
proof -
  have "hw_registers (example_design ! 0) = MemConfig_registers 4 256 True"
    "0 < length example_design" "4 \<le> hw_addr_space (example_design ! 0)"
    by (simp_all add: example_design_def)
  from mem_config_matches_hardware [OF example_design_ok this(2,3,1)
      GlobalConfig_init_design [OF example_design_ok, of 7]]
  show ?thesis by (intro exI [of _ "walked 7 example_design (length example_design)"])
qed

text \<open>C14. Routing: whatever the host writes through a configuration object over the window the walk found,
  the write becomes valid at that configuration of the hardware and at no other, at the register the
  host named; a register beyond the window is refused by the assertion and nothing is written.\<close>

theorem register_write_reaches_its_configuration:
  assumes "design_ok cs" and "i < length cs"
    and "c = Config_init (config_start cs i) (config_start cs (Suc i) - config_start cs i)"
  shows "if unat a < hw_addr_space (cs ! i)
    then \<exists>addr. write_register c (ConfigRegister_of a v) cs0 = (Inr (), cs0 @ [SetCSR v addr]) \<and>
      device_write cs addr = [(i, int (unat a))]
    else write_register c (ConfigRegister_of a v) cs0 = (Inl AssertionFailure, cs0)"
proof -
  let ?sz = "map hw_addr_space cs"
  have Si: "bound_of ?sz (Suc i) = bound_of ?sz i + hw_addr_space (cs ! i)"
    using assms(2) by (simp add: bound_of_Suc)
  have s: "unat (config_start cs i) = bound_of ?sz i" "unat (config_start cs (Suc i)) = bound_of ?sz (Suc i)"
    by (rule config_start_nat(1) [OF assms(1)]; use assms(2) in simp)+
  have "config_start cs i \<le> config_start cs (Suc i)"
    using s Si by (simp add: word_le_nat_alt)
  then have win: "a < num_regs c \<longleftrightarrow> unat a < hw_addr_space (cs ! i)"
    using s Si by (simp add: assms(3) Config_init_def word_less_nat_alt unat_diff_le)
  have off: "addr_offset c = config_start cs i" by (simp add: assms(3) Config_init_def)
  show ?thesis
    using win device_write_config [OF assms(1,2), of "unat a"]
    by (auto simp: write_register_def method_defs call_def off)
qed

theorem register_write_reaches_its_configuration_witness:
  "\<exists>addr. write_register (Config_init (config_start example_design 1)
      (config_start example_design (Suc 1) - config_start example_design 1)) (ConfigRegister_of 3 99) [] =
      (Inr (), [] @ [SetCSR 99 addr]) \<and> device_write example_design addr = [(1, int (unat (3 :: u32)))]"
proof -
  have ex: "1 < length example_design" "unat (3 :: u32) < hw_addr_space (example_design ! 1)"
    by (simp_all add: example_design_def)
  from register_write_reaches_its_configuration [OF example_design_ok ex(1) refl, of 3 99 "[]"]
  show ?thesis by (simp only: ex(2) if_True)
qed

end
