(* ===== verification/Logging.thy ===== *)
theory Logging
  imports Text
begin

text \<open>
  \<open>software/libstf/logging.hpp\<close> and \<open>logging.cpp\<close>: the level filter, the installed sink and the default
  sink, which writes whole lines to the standard error stream. A sink of an application is an
  object this library only calls; it is known by its address, and the model keeps the records each
  of them has been given, oldest first. The process-wide variables are the record \<open>logging\<close>.
\<close>

section \<open>Levels\<close>

datatype LogLevel = TRACE | DEBUG | INFO | WARNING | ERROR | FATAL | OFF

fun level_code :: "LogLevel \<Rightarrow> u8" where
  "level_code TRACE = 0"
| "level_code DEBUG = 1"
| "level_code INFO = 2"
| "level_code WARNING = 3"
| "level_code ERROR = 4"
| "level_code FATAL = 5"
| "level_code OFF = 6"

lemma level_code_inject: "level_code a = level_code b \<longleftrightarrow> a = b"
  by (cases a; cases b) simp_all

instantiation LogLevel :: linorder
begin

definition less_eq_LogLevel :: "LogLevel \<Rightarrow> LogLevel \<Rightarrow> bool" where
  "less_eq_LogLevel a b \<longleftrightarrow> level_code a \<le> level_code b"

definition less_LogLevel :: "LogLevel \<Rightarrow> LogLevel \<Rightarrow> bool" where
  "less_LogLevel a b \<longleftrightarrow> level_code a < level_code b"

instance
  by standard
    (auto simp: less_eq_LogLevel_def less_LogLevel_def dest: antisym simp flip: level_code_inject)

end

fun level_to_string :: "LogLevel \<Rightarrow> string" where
  "level_to_string TRACE = ''TRACE''"
| "level_to_string DEBUG = ''DEBUG''"
| "level_to_string INFO = ''INFO''"
| "level_to_string WARNING = ''WARNING''"
| "level_to_string ERROR = ''ERROR''"
| "level_to_string FATAL = ''FATAL''"
| "level_to_string OFF = ''OFF''"

section \<open>The sinks\<close>

text \<open>\<open>None\<close> is the default sink.\<close>

record logging =
  g_sink :: "nat option"
  g_level :: LogLevel
  stderr_text :: string
  sink_records :: "nat \<Rightarrow> (LogLevel \<times> string) list"

definition logging_start :: logging where
  "logging_start = \<lparr>g_sink = None, g_level = INFO, stderr_text = [], sink_records = (\<lambda>_. [])\<rparr>"

definition StderrLogSink_log :: "LogLevel \<Rightarrow> string \<Rightarrow> string" where
  "StderrLogSink_log level message =
     ''[libstf] ['' @ level_to_string level @ ''] '' @ message @ [CHR 0x0A]"

definition sink_log :: "LogLevel \<Rightarrow> string \<Rightarrow> logging \<Rightarrow> logging" where
  "sink_log level message g =
     (case g_sink g of
        None \<Rightarrow> g\<lparr>stderr_text := stderr_text g @ StderrLogSink_log level message\<rparr>
      | Some k \<Rightarrow> g\<lparr>sink_records := (sink_records g)(k := sink_records g k @ [(level, message)])\<rparr>)"

definition set_log_sink :: "nat option \<Rightarrow> logging \<Rightarrow> logging" where
  "set_log_sink sink g = g\<lparr>g_sink := sink\<rparr>"

definition set_log_level :: "LogLevel \<Rightarrow> logging \<Rightarrow> logging" where
  "set_log_level level g = g\<lparr>g_level := level\<rparr>"

definition should_log :: "LogLevel \<Rightarrow> logging \<Rightarrow> bool" where
  "should_log level g \<longleftrightarrow> level \<ge> g_level g"

text \<open>The two overloads that take a message as it is.\<close>

definition log_message :: "LogLevel \<Rightarrow> string \<Rightarrow> logging \<Rightarrow> logging" where
  "log_message level message g = (if \<not> should_log level g then g else sink_log level message g)"

section \<open>Formatted records\<close>

text \<open>
  \<open>vsnprintf\<close> is the C library's: an argument, with the number of characters it may write (the final
  null character included), the format and the values; it gives the result and what was written.
\<close>

definition log_formatted ::
  "(nat \<Rightarrow> string \<Rightarrow> 'a list \<Rightarrow> int \<times> string) \<Rightarrow> LogLevel \<Rightarrow> string \<Rightarrow> 'a list \<Rightarrow> logging \<Rightarrow> logging" where
  "log_formatted vsnprintf level fmt args g =
     (if \<not> should_log level g then g
      else
        let needed = fst (vsnprintf 0 fmt args)
        in if needed < 0 then g
           else
             let msg = snd (vsnprintf (nat needed + 1) fmt args)
             in sink_log level msg g)"

text \<open>
  Its documented behaviour: \<open>formatted fmt args\<close> is the text that a format and its values describe, or
  \<open>None\<close> for an encoding error. The result is the length of the whole text, whatever fits, and
  negative for an error or a length that is no \<open>int\<close>. Values that do not match their format are
  undefined behaviour of the caller, and nothing is said of them here.
\<close>

locale formatting =
  fixes vsnprintf :: "nat \<Rightarrow> string \<Rightarrow> 'a list \<Rightarrow> int \<times> string"
    and formatted :: "string \<Rightarrow> 'a list \<Rightarrow> string option"
  assumes whole_text: "formatted fmt args = Some s \<Longrightarrow> length s < 2 ^ 31 \<Longrightarrow>
      vsnprintf n fmt args = (int (length s), take (n - 1) s)"
    and too_long: "formatted fmt args = Some s \<Longrightarrow> 2 ^ 31 \<le> length s \<Longrightarrow> fst (vsnprintf n fmt args) < 0"
    and encoding_error: "formatted fmt args = None \<Longrightarrow> fst (vsnprintf n fmt args) < 0"
begin

lemma log_formatted_eq:
  "log_formatted vsnprintf level fmt args g =
     (case formatted fmt args of
        None \<Rightarrow> g
      | Some s \<Rightarrow> if length s < 2 ^ 31 then log_message level s g else g)"
  using whole_text [of fmt args] too_long [of fmt args _ 0] encoding_error [of fmt args 0]
  by (auto simp: log_formatted_def log_message_def Let_def not_less split: option.splits)

end

text \<open>
  An instance, for the conversions the library's own callers need: sizes, numbers and strings. It treats any other
  format like an encoding error.
\<close>

datatype log_arg = ArgSize u64 | ArgInt u32 | ArgString string

fun arg_text :: "string \<Rightarrow> log_arg \<Rightarrow> string option" where
  "arg_text conv (ArgSize n) = (if conv = ''zu'' then Some (show_nat (unat n)) else None)"
| "arg_text conv (ArgInt n) = (if conv = ''d'' then Some (show_int (sint n)) else None)"
| "arg_text conv (ArgString s) = (if conv = ''s'' then Some s else None)"

definition conversion :: "string \<Rightarrow> string" where
  "conversion fmt = (if take 2 fmt = ''zu'' then ''zu'' else take 1 fmt)"

function scalar_text :: "string \<Rightarrow> log_arg list \<Rightarrow> string option" where
  "scalar_text [] args = Some []"
| "scalar_text (c # fmt) args =
     (if c \<noteq> CHR ''%'' then map_option (Cons c) (scalar_text fmt args)
      else
        let conv = conversion fmt; fmt' = drop (length conv) fmt
        in if conv = ''%'' then map_option (Cons CHR ''%'') (scalar_text fmt' args)
           else
             (case args of
                [] \<Rightarrow> None
              | a # args' \<Rightarrow>
                  (case arg_text conv a of
                     None \<Rightarrow> None
                   | Some s \<Rightarrow> map_option (append s) (scalar_text fmt' args'))))"
  by pat_completeness auto

termination
  by (relation "measure (length \<circ> fst)") auto

definition scalar_vsnprintf :: "nat \<Rightarrow> string \<Rightarrow> log_arg list \<Rightarrow> int \<times> string" where
  "scalar_vsnprintf n fmt args =
     (case scalar_text fmt args of
        None \<Rightarrow> (-1, [])
      | Some s \<Rightarrow> if length s < 2 ^ 31 then (int (length s), take (n - 1) s) else (-1, []))"

interpretation scalars: formatting scalar_vsnprintf scalar_text
  by unfold_locales (auto simp: scalar_vsnprintf_def)

text \<open>A text without a conversion is formatted to itself, so both ways of logging it agree.\<close>

lemma scalar_text_plain: "CHR ''%'' \<notin> set s \<Longrightarrow> scalar_text s args = Some s"
  by (induction s) auto

text \<open>Every level passes the filter at its own level, \<open>OFF\<close> included.\<close>

lemma off_is_logged: "should_log OFF g"
  by (cases "g_level g") (simp_all add: should_log_def less_eq_LogLevel_def)

section \<open>What reaches a sink\<close>

datatype 'a log_call = Verbatim LogLevel string | Formatted LogLevel string "'a list"

fun log_run :: "(nat \<Rightarrow> string \<Rightarrow> 'a list \<Rightarrow> int \<times> string) \<Rightarrow> 'a log_call \<Rightarrow> logging \<Rightarrow> logging" where
  "log_run vsnprintf (Verbatim level message) = log_message level message"
| "log_run vsnprintf (Formatted level fmt args) = log_formatted vsnprintf level fmt args"

text \<open>The record a call asks for: none for an encoding error or a text whose length is no \<open>int\<close>.\<close>

fun record_of :: "(string \<Rightarrow> 'a list \<Rightarrow> string option) \<Rightarrow> 'a log_call \<Rightarrow> (LogLevel \<times> string) list" where
  "record_of formatted (Verbatim level message) = [(level, message)]"
| "record_of formatted (Formatted level fmt args) =
     (case formatted fmt args of
        None \<Rightarrow> []
      | Some s \<Rightarrow> if length s < 2 ^ 31 then [(level, s)] else [])"

definition records_at ::
  "(string \<Rightarrow> 'a list \<Rightarrow> string option) \<Rightarrow> LogLevel \<Rightarrow> 'a log_call list \<Rightarrow> (LogLevel \<times> string) list" where
  "records_at formatted t calls = filter (\<lambda>(l, _). t \<le> l) (concat (map (record_of formatted) calls))"

lemma records_at_Cons: "records_at formatted t (c # cs) = records_at formatted t [c] @ records_at formatted t cs"
  by (simp add: records_at_def)

context formatting
begin

lemma log_run_keeps [simp]: "g_sink (log_run vsnprintf c g) = g_sink g" "g_level (log_run vsnprintf c g) = g_level g"
  by (cases c; auto simp: log_formatted_eq log_message_def sink_log_def split: option.splits)+

lemma log_run_records:
  "g_sink g = Some k \<Longrightarrow> log_run vsnprintf c g =
     g\<lparr>sink_records := (sink_records g)(k := sink_records g k @ records_at formatted (g_level g) [c])\<rparr>"
  by (cases c) (auto simp: records_at_def log_formatted_eq log_message_def sink_log_def should_log_def
      split: option.splits)

lemma log_run_stderr:
  "g_sink g = None \<Longrightarrow> log_run vsnprintf c g =
     g\<lparr>stderr_text := stderr_text g @ concat (map (\<lambda>(l, m). StderrLogSink_log l m) (records_at formatted (g_level g) [c]))\<rparr>"
  by (cases c) (auto simp: records_at_def log_formatted_eq log_message_def sink_log_def should_log_def
      split: option.splits)

lemma fold_log_run_records:
  "g_sink g = Some k \<Longrightarrow> fold (log_run vsnprintf) calls g =
     g\<lparr>sink_records := (sink_records g)(k := sink_records g k @ records_at formatted (g_level g) calls)\<rparr>"
proof (induction calls arbitrary: g)
  case Nil
  then show ?case by (simp add: records_at_def)
next
  case (Cons c cs)
  show ?case
    using Cons.IH [of "log_run vsnprintf c g"] Cons.prems log_run_records [OF Cons.prems, of c]
    by (simp add: records_at_Cons [of _ _ c cs] fun_upd_def cong: if_cong)
qed

lemma fold_log_run_stderr:
  "g_sink g = None \<Longrightarrow> fold (log_run vsnprintf) calls g =
     g\<lparr>stderr_text := stderr_text g @ concat (map (\<lambda>(l, m). StderrLogSink_log l m) (records_at formatted (g_level g) calls))\<rparr>"
proof (induction calls arbitrary: g)
  case Nil
  then show ?case by (simp add: records_at_def)
next
  case (Cons c cs)
  show ?case
    using Cons.IH [of "log_run vsnprintf c g"] Cons.prems log_run_stderr [OF Cons.prems, of c]
    by (simp add: records_at_Cons [of _ _ c cs])
qed

end

section \<open>Properties\<close>

text \<open>C32. Logging delivers exactly what passes the filter: with a \<open>vsnprintf\<close> that behaves as documented, after a
  sink was installed and the level set to \<open>t\<close>, the records that reach the sink are, in order, those of
  the calls at level \<open>t\<close> or above, each with its complete text (the two passes of a formatted record cut
  nothing off); a formatted record is left out only for an encoding error or a text of 2^31 characters
  or more. No other sink and not the error stream get anything. With the null pointer the same records
  reach the error stream, each as one whole line. \<open>OFF\<close> is the highest level: a call at level \<open>OFF\<close> itself
  is delivered at every level \<open>t\<close>, also at \<open>OFF\<close>, which the header says silences all logging.\<close>

theorem log_delivers_filtered_records:
  assumes "formatting vsnprintf formatted"
  shows "fold (log_run vsnprintf) calls (set_log_level t (set_log_sink (Some k) g)) =
     g\<lparr>g_sink := Some k, g_level := t,
       sink_records := (sink_records g)(k := sink_records g k @ records_at formatted t calls)\<rparr> \<and>
   fold (log_run vsnprintf) calls (set_log_level t (set_log_sink None g)) =
     g\<lparr>g_sink := None, g_level := t,
       stderr_text := stderr_text g @ concat (map (\<lambda>(l, m). StderrLogSink_log l m) (records_at formatted t calls))\<rparr> \<and>
   (\<forall>message. records_at formatted t [Verbatim OFF message] = [(OFF, message)])"
  using formatting.fold_log_run_records [OF assms] formatting.fold_log_run_stderr [OF assms]
  by (cases t) (simp_all add: set_log_level_def set_log_sink_def records_at_def less_eq_LogLevel_def)

theorem log_delivers_filtered_records_witness:
  "sink_records (fold (log_run scalar_vsnprintf)
      [Formatted ERROR ''no memory for %zu bytes'' [ArgSize 42], Verbatim INFO ''started'', Verbatim OFF ''off'']
      (set_log_level ERROR (set_log_sink (Some 7) logging_start))) 7 =
     [(ERROR, ''no memory for 42 bytes''), (OFF, ''off'')]"
proof -
  let ?calls = "[Formatted ERROR ''no memory for %zu bytes'' [ArgSize 42], Verbatim INFO ''started'', Verbatim OFF ''off'']"
  have "scalar_text ''no memory for %zu bytes'' [ArgSize 42] = Some ''no memory for 42 bytes''" by code_simp
  then have r: "records_at scalar_text ERROR ?calls = [(ERROR, ''no memory for 42 bytes''), (OFF, ''off'')]"
    by (simp add: records_at_def less_eq_LogLevel_def)
  note all = log_delivers_filtered_records [OF scalars.formatting_axioms, of ?calls ERROR 7 logging_start, THEN conjunct1]
  show ?thesis unfolding all r by (simp add: logging_start_def)
qed

end
