(* ===== verification/Printers.thy ===== *)
theory Printers
  imports Text Configuration Output_Buffer_Manager
begin

text \<open>
  The texts of registers (\<open>configuration.cpp\<close>), interrupt values (\<open>output_buffer_manager.cpp\<close>),
  statuses (\<open>error_handling.hpp\<close>) and element values (\<open>common.cpp\<close>), which end up in logs, and the
  demangling of type names (\<open>util.cpp\<close>). The lemmas show that the text of a list of registers
  determines the list, and that a value that is a byte is never printed.
\<close>

definition show_ConfigRegister :: "ConfigRegister \<Rightarrow> string" where
  "show_ConfigRegister conf =
     ''FPGAConfiguration { .addr = '' @ show_nat (unat (reg_addr conf)) @ '' .value = 0x'' @
     show_hex (unat (reg_value conf)) @ '' }''"

text \<open>A comma and the end of the line follow each register but the last one.\<close>

fun show_elements :: "ConfigRegister list \<Rightarrow> string" where
  "show_elements [] = []"
| "show_elements (conf # confs) =
     show_ConfigRegister conf @ (if confs \<noteq> [] then '','' @ newline else []) @ show_elements confs"

definition show_registers :: "ConfigRegister list \<Rightarrow> string" where
  "show_registers confs = ''['' @ newline @ show_elements confs @ newline @ '']'' @ newline"

definition show_InterruptValue :: "InterruptValue \<Rightarrow> string" where
  "show_InterruptValue e =
     ''InterruptValue{last = '' @ show_nat (if iv_last e then 1 else 0) @
     '', bytes_written = '' @ show_nat (unat (iv_bytes_written e)) @
     '', stream_id = '' @ show_nat (unat (iv_stream_id e)) @ ''}''"

definition Status_to_string :: "Status \<Rightarrow> string" where
  "Status_to_string st = ''code: '' @ show_int (code st) @ '', message: '' @ message st"

text \<open>The alternatives of \<open>Value\<close>; floating-point numbers and their texts are given.\<close>

datatype ('f, 'd) Value =
  Value_byte u8 | Value_int32 u32 | Value_int64 u64 | Value_float 'f | Value_double 'd | Value_int16 "16 word"

text \<open>
  The visitor writes \<open>out << val\<close>. The streams have no such operator for \<open>std::byte\<close>, so this is the
  operator for \<open>Value\<close> itself, to which a \<open>std::byte\<close> converts.
\<close>

partial_function (option) print_Value :: "('f \<Rightarrow> string) \<Rightarrow> ('d \<Rightarrow> string) \<Rightarrow> ('f, 'd) Value \<Rightarrow> string option" where
  "print_Value show_float show_double v =
     (case v of
       Value_byte val \<Rightarrow> print_Value show_float show_double (Value_byte val)
     | Value_int32 val \<Rightarrow> Some (show_int (sint val))
     | Value_int64 val \<Rightarrow> Some (show_int (sint val))
     | Value_float val \<Rightarrow> Some (show_float val)
     | Value_double val \<Rightarrow> Some (show_double val)
     | Value_int16 val \<Rightarrow> Some (show_int (sint val)))"

text \<open>\<open>cxa_demangle\<close> gives the status and the name of the C++ runtime's demangler.\<close>

definition demangle_type_name :: "(string \<Rightarrow> int \<times> string) \<Rightarrow> string \<Rightarrow> string" where
  "demangle_type_name cxa_demangle mangled =
     (let (status, demangled) = cxa_demangle mangled in if status = 0 then demangled else mangled)"

section \<open>A byte is never printed\<close>

theorem byte_value_diverges: "print_Value show_float show_double v = None \<longleftrightarrow> (\<exists>b. v = Value_byte b)"
proof -
  have "\<forall>b. v \<noteq> Value_byte b" if "print_Value show_float show_double v = Some s" for s
    by (rule print_Value.raw_induct [OF _ that, of "\<lambda>_ _ v _. \<forall>b. v \<noteq> Value_byte b"])
      (auto split: Value.splits, blast)
  moreover have "print_Value show_float show_double v \<noteq> None" if "\<forall>b. v \<noteq> Value_byte b"
    using that by (subst print_Value.simps) (simp split: Value.split)
  ultimately show ?thesis by blast
qed

section \<open>The texts determine what was printed\<close>

lemma digit_of_16_space: "\<not> digit_of 16 CHR '' ''"
  by (auto simp: digit_of_def digit_char_def dest: arg_cong [of _ _ "of_char :: char \<Rightarrow> nat"] split: if_splits)

lemma is_digit_space: "\<not> is_digit CHR '' ''" "\<not> is_digit CHR '',''" "\<not> is_digit CHR ''}''"
  by (simp_all add: is_digit_def)

lemma show_nat_prefix:
  assumes "show_nat m @ c # x = show_nat n @ d # y" and "\<not> is_digit c" and "\<not> is_digit d"
  shows "m = n \<and> c # x = d # y"
  using digits_prefix [of is_digit "show_nat m" "show_nat n" "c # x" "d # y"] assms show_nat_digits
    show_nat_inject by auto

lemma show_hex_prefix:
  assumes "show_hex m @ c # x = show_hex n @ d # y" and "\<not> digit_of 16 c" and "\<not> digit_of 16 d"
  shows "m = n \<and> c # x = d # y"
  using digits_prefix [of "digit_of 16" "show_hex m" "show_hex n" "c # x" "d # y"] assms
    show_base_digits [of 16] show_base_inject [of 16 m n] by (auto simp: show_hex_def)

lemma show_ConfigRegister_prefix:
  assumes "show_ConfigRegister a @ x = show_ConfigRegister b @ y"
  shows "a = b \<and> x = y"
proof -
  have "show_nat (unat (reg_addr a)) @ CHR '' '' # ''.value = 0x'' @ show_hex (unat (reg_value a)) @ '' }'' @ x =
    show_nat (unat (reg_addr b)) @ CHR '' '' # ''.value = 0x'' @ show_hex (unat (reg_value b)) @ '' }'' @ y"
    using assms by (simp add: show_ConfigRegister_def)
  from show_nat_prefix [OF this is_digit_space(1) is_digit_space(1)]
  have addr: "reg_addr a = reg_addr b"
    and rest: "show_hex (unat (reg_value a)) @ CHR '' '' # ''}'' @ x = show_hex (unat (reg_value b)) @ CHR '' '' # ''}'' @ y"
    by (simp_all add: word_unat_eq_iff)
  from show_hex_prefix [OF rest digit_of_16_space digit_of_16_space] addr show ?thesis
    by (simp add: word_unat_eq_iff [symmetric])
qed

lemma show_elements_inject:
  "show_elements as @ newline @ x = show_elements bs @ newline @ y \<Longrightarrow> as = bs"
proof (induction as arbitrary: bs)
  case Nil
  then show ?case by (cases bs) (auto simp: show_ConfigRegister_def newline_def)
next
  case (Cons a as)
  then obtain b bs' where bs: "bs = b # bs'"
    by (cases bs) (auto simp: show_ConfigRegister_def newline_def)
  have "a = b \<and> (if as \<noteq> [] then '','' @ newline else []) @ show_elements as @ newline @ x =
      (if bs' \<noteq> [] then '','' @ newline else []) @ show_elements bs' @ newline @ y"
    using Cons.prems unfolding bs by (intro show_ConfigRegister_prefix) simp
  then show ?case
    using Cons.IH [of bs'] unfolding bs by (cases as; cases bs') (auto simp: newline_def)
qed

section \<open>Property\<close>

text \<open>Printed registers can be read back: two lists of registers have the same text only when they are the
  same list, so a log of register writes identifies every address and value.\<close>

theorem register_text_identifies_registers:
  "show_registers as = show_registers bs \<longleftrightarrow> as = bs"
  using show_elements_inject [of as "'']'' @ newline" bs "'']'' @ newline"]
  by (auto simp: show_registers_def newline_def)

end
