(* ===== verification/Profiling.thy ===== *)
theory Profiling
  imports Prelude
begin

text \<open>
  \<open>software/libstf/profiling.hpp\<close> and \<open>profiling.cpp\<close>: the named regions that the manager opens and
  closes around its operations. The Caliper library is not part of the repository; what the profiler
  asks of it is recorded as a sequence of calls, and whether its manager reports an error is given.
  \<open>on\<close> is the compile-time switch \<open>LIBSTF_WITH_PROFILING\<close>. The lemmas show that regions nest, and that
  an exception between the two calls leaves a region open.
\<close>

section \<open>The profiler\<close>

datatype caliper_call =
    Config_set string string
  | New_manager
  | Manager_add string
  | Manager_start
  | Manager_flush
  | Mark_begin string
  | Mark_end string

type_synonym caliper = "caliper_call list"

definition caliper_call :: "caliper_call \<Rightarrow> (caliper, unit) action" where
  "caliper_call c = modifyE (\<lambda>cs. cs @ [c])"

definition profile :: string where
  "profile = ''runtime-report(calc.inclusive=true,output=stdout),event-trace''"

text \<open>\<open>mgr_error\<close> is the message of the manager's error, if it has one.\<close>

definition Profiler_init :: "bool \<Rightarrow> string option \<Rightarrow> (caliper, unit) action" where
  "Profiler_init on mgr_error =
     (if on then
        seqE (caliper_call (Config_set ''CALI_CALIPER_ATTRIBUTE_DEFAULT_SCOPE'' ''thread'')) (\<lambda>_.
        seqE (caliper_call New_manager) (\<lambda>_.
        seqE (caliper_call (Manager_add profile)) (\<lambda>_.
        case mgr_error of
          None \<Rightarrow> ret ()
        | Some msg \<Rightarrow> throw (RuntimeError (''error while initializing caliper: '' @ msg)))))
      else ret ())"

definition Profiler_start :: "bool \<Rightarrow> (caliper, unit) action" where
  "Profiler_start on = (if on then caliper_call Manager_start else ret ())"

definition Profiler_flush :: "bool \<Rightarrow> (caliper, unit) action" where
  "Profiler_flush on = (if on then caliper_call Manager_flush else ret ())"

fun mark_regions :: "(string \<Rightarrow> caliper_call) \<Rightarrow> string list \<Rightarrow> (caliper, unit) action" where
  "mark_regions mark [] = ret ()"
| "mark_regions mark (region # regions) = seqE (caliper_call (mark region)) (\<lambda>_. mark_regions mark regions)"

definition open_regions :: "bool \<Rightarrow> string list \<Rightarrow> (caliper, unit) action" where
  "open_regions on regions = (if on then mark_regions Mark_begin regions else ret ())"

text \<open>The loop runs from \<open>rbegin\<close> to \<open>rend\<close>.\<close>

definition close_regions :: "bool \<Rightarrow> string list \<Rightarrow> (caliper, unit) action" where
  "close_regions on regions = (if on then mark_regions Mark_end (rev regions) else ret ())"

section \<open>Regions nest\<close>

text \<open>The open regions, the innermost first; \<open>None\<close> when a region is closed that is not the innermost.\<close>

fun open_after :: "caliper \<Rightarrow> string list \<Rightarrow> string list option" where
  "open_after [] stack = Some stack"
| "open_after (Mark_begin r # cs) stack = open_after cs (r # stack)"
| "open_after (Mark_end r # cs) stack =
     (case stack of s # rest \<Rightarrow> if s = r then open_after cs rest else None | [] \<Rightarrow> None)"
| "open_after (c # cs) stack = open_after cs stack"

lemma mark_regions_apply: "mark_regions mark rs cs = (Inr (), cs @ map mark rs)"
  by (induction rs arbitrary: cs) (simp_all add: ret_def seqE_def caliper_call_def modifyE_def)

lemma open_after_append:
  "open_after (cs @ ds) stack = Option.bind (open_after cs stack) (open_after ds)"
  by (induction cs stack rule: open_after.induct) (simp_all split: list.splits)

lemma open_after_begin: "open_after (map Mark_begin rs) stack = Some (rev rs @ stack)"
  by (induction rs arbitrary: stack) simp_all

lemma open_after_end: "open_after (map Mark_end rs) (rs @ stack) = Some stack"
  by (induction rs) simp_all

text \<open>An operation between the two calls.\<close>

definition profiled :: "bool \<Rightarrow> string list \<Rightarrow> (caliper, 'a) action \<Rightarrow> (caliper, 'a) action" where
  "profiled on regions m =
     seqE (open_regions on regions) (\<lambda>_. seqE m (\<lambda>x. seqE (close_regions on regions) (\<lambda>_. ret x)))"

text \<open>
  When the operation returns and leaves its own regions closed, so does the whole: the regions that
  were open before are open again. When it throws, its regions stay open; with profiling compiled
  out nothing is recorded in either case.
\<close>

theorem profiled_regions_nest:
  assumes "\<And>cs. \<exists>r ds. m cs = (r, cs @ ds) \<and> (\<forall>stack. open_after ds stack = Some stack)"
    and "open_after cs [] = Some stack"
  shows "\<exists>r cs'. profiled True regions m cs = (r, cs') \<and>
    open_after cs' [] = Some (case r of Inl e \<Rightarrow> rev regions @ stack | Inr x \<Rightarrow> stack)"
proof -
  obtain r ds where m: "m (cs @ map Mark_begin regions) = (r, (cs @ map Mark_begin regions) @ ds)"
    "\<And>stack. open_after ds stack = Some stack"
    using assms(1) by blast
  show ?thesis
    using m assms(2)
    by (cases r) (simp_all add: profiled_def open_regions_def close_regions_def seqE_def mark_regions_apply ret_def
        open_after_append open_after_begin open_after_end flip: append_assoc)
qed

lemma profiling_compiled_out: "profiled False regions m = m"
  by (auto simp: profiled_def open_regions_def close_regions_def seqE_def ret_def fun_eq_iff
      split: prod.splits sum.splits)

end
