(* ===== verification/Host_Programs.thy ===== *)
theory Host_Programs
  imports Transfers Configuration Text
begin

text \<open>
  What the example programs share: a host is sound when its pool, its mappings and the driver's
  calls are consistent, buffers are allocated from a pool that meets its contract, and an operation
  posts calls to the driver. The lemmas compose these facts, so that a program's property follows
  from those of its operations.
\<close>

definition EXIT_SUCCESS :: int where "EXIT_SUCCESS = 0"

definition EXIT_FAILURE :: int where "EXIT_FAILURE = 1"

fun for_each :: "'b list \<Rightarrow> ('b \<Rightarrow> ('s, unit) action) \<Rightarrow> ('s, unit) action" where
  "for_each [] body = ret ()"
| "for_each (x # xs) body = seqE (body x) (\<lambda>_. for_each xs body)"

section \<open>The host of a program\<close>

text \<open>The pool, the mappings and the driver's calls are consistent.\<close>

definition host_sound :: "('p \<Rightarrow> bool) \<Rightarrow> 'p host \<Rightarrow> bool" where
  "host_sound pinv h \<longleftrightarrow> pinv (host_pool h) \<and> tlb_inv h"

lemma host_sound_calls:
  "host_sound pinv h \<Longrightarrow> list_all (Not \<circ> is_mapping) ds \<Longrightarrow>
   host_sound pinv (h\<lparr>host_cthread := host_cthread h @ ds\<rparr>)"
  using tlb_inv_calls [of h ds "h\<lparr>host_cthread := host_cthread h @ ds\<rparr>"] by (simp add: host_sound_def)

lemma host_sound_pool: "tlb_inv h \<Longrightarrow> pinv p \<Longrightarrow> host_sound pinv (h\<lparr>host_pool := p\<rparr>)"
  by (simp add: host_sound_def tlb_inv_def)

text \<open>The driver's calls other than the mappings of pages.\<close>

definition posted :: "('p, 'm) host_scheme \<Rightarrow> cthread" where
  "posted h = filter (Not \<circ> is_mapping) (host_cthread h)"

lemma wp_ensure_paged:
  assumes "host_sound pinv h" and "paged ops (host_pool h) a sz" and "0 < sz"
  shows "wp (ensure_tlb_mapping ops a sz) (\<lambda>_ h'. host_sound pinv h' \<and> host_pool h' = host_pool h \<and>
      existing_tlb_mappings h \<subseteq> existing_tlb_mappings h' \<and> covered ops h' a sz \<and>
      (\<exists>new. host_cthread h' = host_cthread h @ user_maps new)) E h"
proof -
  obtain new where new: "ensure_tlb_mapping ops a sz h = (Inr (), after_maps new h)"
    "distinct (map fst new)" "fst ` set new \<inter> existing_tlb_mappings h = {}"
    "covered ops (after_maps new h) a sz"
    using ensure_tlb_mapping_maps [OF assms(2,3)] by metis
  have "tlb_inv (after_maps new h)"
    by (rule tlb_inv_maps [OF _ new(2,3)]) (use assms(1) in \<open>simp_all add: host_sound_def\<close>)
  then show ?thesis using new(1,4) assms(1) by (auto simp: wp_def host_sound_def)
qed

lemma wp_offload_paged:
  assumes "host_sound pinv h" and "paged ops (host_pool h) a sz"
  shows "wp (offload_to_card mx ops a sz) (\<lambda>_ h'. host_sound pinv h' \<and> host_pool h' = host_pool h \<and>
      existing_tlb_mappings h' = existing_tlb_mappings h) E h"
proof -
  obtain os where "offload_to_card mx ops a sz h = (Inr (), h\<lparr>host_cthread := host_cthread h @ offload_calls os\<rparr>)"
    by (rule offload_to_card_paged [OF assms(2)])
  then show ?thesis using host_sound_calls [OF assms(1), of "offload_calls os"] by (simp add: wp_def)
qed

text \<open>Steps of a program whose failure ends it.\<close>

lemma wp_register_write:
  assumes "wp (f ()) Q (\<lambda>_ _. True)
    (h\<lparr>host_cthread := host_cthread h @ [SetCSR (reg_value reg) (addr_offset c + reg_addr reg)]\<rparr>)"
  shows "wp (seqE (on_cthread (write_register c reg)) f) Q (\<lambda>_ _. True) h"
  using assms by (simp add: wp_simps)

lemma wp_assertion:
  assumes "P \<Longrightarrow> wp (f ()) Q (\<lambda>_ _. True) h"
  shows "wp (seqE (assertE P) f) Q (\<lambda>_ _. True) h"
  using assms by (simp add: wp_simps)

text \<open>The blocks \<open>qs\<close> of \<open>sz\<close> bytes are new in the second pool.\<close>

definition new_blocks :: "('p \<Rightarrow> ptr \<rightharpoonup> u64) \<Rightarrow> ptr list \<Rightarrow> u64 \<Rightarrow> 'p \<Rightarrow> 'p \<Rightarrow> bool" where
  "new_blocks live qs sz p p' \<longleftrightarrow> distinct qs \<and> set qs \<inter> dom (live p) = {} \<and>
     live p' = (\<lambda>q. if q \<in> set qs then Some sz else live p q)"

lemma new_blocks_Nil: "new_blocks live [] sz p p"
  by (simp add: new_blocks_def)

lemma new_block: "new_blocks live [q] sz p p' \<longleftrightarrow> live p q = None \<and> live p' = (live p)(q \<mapsto> sz)"
  by (auto simp: new_blocks_def fun_eq_iff)

lemma new_blocks_live:
  assumes "new_blocks live qs sz p p'"
  shows "q \<in> set qs \<Longrightarrow> live p' q = Some sz" "live p q = Some n \<Longrightarrow> live p' q = Some n"
  using assms by (auto simp: new_blocks_def)

lemma new_blocks_append:
  assumes "new_blocks live qs sz p p1" and "new_blocks live rs sz p1 p2"
  shows "new_blocks live (qs @ rs) sz p p2"
proof -
  have p1: "live p1 = (\<lambda>q. if q \<in> set qs then Some sz else live p q)"
    and p2: "live p2 = (\<lambda>q. if q \<in> set rs then Some sz else live p1 q)"
    and d: "set rs \<inter> dom (live p1) = {}" "set qs \<inter> dom (live p) = {}" "distinct qs" "distinct rs"
    using assms by (simp_all add: new_blocks_def)
  have "dom (live p1) = set qs \<union> dom (live p)" by (auto simp: p1 split: if_splits)
  then have "set rs \<inter> set qs = {}" "set rs \<inter> dom (live p) = {}" using d(1) by auto
  with d(2-4) show ?thesis unfolding new_blocks_def by (auto simp: p1 p2 fun_eq_iff)
qed

text \<open>The range of a pool of huge pages is made of pages; the simple pool has none.\<close>

definition huge_range_ok :: "'p MemoryPool \<Rightarrow> ('p \<Rightarrow> bool) \<Rightarrow> ('p \<Rightarrow> (ptr \<times> u64) option) \<Rightarrow> bool" where
  "huge_range_ok ops pinv huge \<longleftrightarrow>
     (\<forall>p a n. pinv p \<longrightarrow> huge p = Some (a, n) \<longrightarrow> 0 < n \<and> paged ops p a n)"

text \<open>The mapping of the whole range of a pool of huge pages before the first run (the \<open>dynamic_cast\<close>).\<close>

definition premap_huge_pool ::
  "'p MemoryPool \<Rightarrow> ('p \<Rightarrow> (ptr \<times> u64) option) \<Rightarrow> ('p host, unit) action" where
  "premap_huge_pool ops huge =
     seqE (readE (huge \<circ> host_pool)) (\<lambda>huge_pool.
     case huge_pool of None \<Rightarrow> ret ()
     | Some (initial_address, total_capacity) \<Rightarrow> ensure_tlb_mapping ops initial_address total_capacity)"

lemma wp_premap_huge_pool:
  assumes "host_sound pinv h" and "huge_range_ok ops pinv huge"
  shows "wp (premap_huge_pool ops huge) (\<lambda>_ h'. host_sound pinv h' \<and> host_pool h' = host_pool h \<and>
    posted h' = posted h) E h"
proof (cases "huge (host_pool h)")
  case None
  then show ?thesis using assms(1) by (simp add: premap_huge_pool_def wp_simps)
next
  case (Some x)
  obtain a k where x: "x = (a, k)" by force
  have "0 < k" "paged ops (host_pool h) a k"
    using assms Some x by (auto simp: huge_range_ok_def host_sound_def)
  then show ?thesis
    unfolding premap_huge_pool_def wp_seqE wp_readE comp_def Some x option.case prod.case
    by (intro wp_mono [OF wp_ensure_paged [OF assms(1), of ops a k E]])
      (auto simp: posted_def filter_user_maps)
qed

section \<open>Posting transfers\<close>

text \<open>An operation that returns \<open>x\<close>, keeps the host sound and its pool, and posts \<open>cs\<close>.\<close>

definition posts :: "('p \<Rightarrow> bool) \<Rightarrow> ('p host, 'a) action \<Rightarrow> 'p host \<Rightarrow> 'a \<Rightarrow> cthread \<Rightarrow> 'p host \<Rightarrow> bool" where
  "posts pinv m h x cs h' \<longleftrightarrow> m h = (Inr x, h') \<and> host_sound pinv h' \<and> host_pool h' = host_pool h \<and>
     posted h' = posted h @ cs"

lemma posts_ret: "host_sound pinv h \<Longrightarrow> posts pinv (ret x) h x [] h"
  by (simp add: posts_def ret_def)

lemma posts_seq: "posts pinv m h x cs h1 \<Longrightarrow> posts pinv (f x) h1 y ds h2 \<Longrightarrow> posts pinv (seqE m f) h y (cs @ ds) h2"
  by (simp add: posts_def seqE_def)

text \<open>A register write.\<close>

lemma csr_posts:
  assumes "host_sound pinv h"
    and "wp (on_cthread m) (\<lambda>_ h'. h' = h\<lparr>host_cthread := host_cthread h @ [SetCSR v a]\<rparr>) (\<lambda>_ _. False) h"
  shows "\<exists>h'. posts pinv (on_cthread m) h () [SetCSR v a] h'"
proof -
  have "on_cthread m h = (Inr (), h\<lparr>host_cthread := host_cthread h @ [SetCSR v a]\<rparr>)"
    using assms(2) by (auto simp: wp_def split: prod.splits sum.splits)
  then show ?thesis using host_sound_calls [OF assms(1)] by (auto simp: posts_def posted_def)
qed

lemma posts_for_each:
  assumes "host_sound pinv h"
    and "\<And>x h. x \<in> set xs \<Longrightarrow> host_sound pinv h \<Longrightarrow> host_pool h = p \<Longrightarrow> \<exists>h'. posts pinv (body x) h () (cs x) h'"
    and "host_pool h = p"
  shows "\<exists>h'. posts pinv (for_each xs body) h () (concat (map cs xs)) h'"
  using assms
proof (induction xs arbitrary: h)
  case Nil
  then show ?case by (intro exI [of _ h]) (simp add: posts_ret)
next
  case (Cons x xs)
  obtain h1 where h1: "posts pinv (body x) h () (cs x) h1" using Cons.prems by fastforce
  then have "\<exists>h'. posts pinv (for_each xs body) h1 () (concat (map cs xs)) h'"
    using Cons.prems by (intro Cons.IH) (auto simp: posts_def)
  then show ?case using posts_seq [OF h1] by fastforce
qed

context memory_pool
begin

lemma wp_allocate_buffer:
  assumes "host_sound pool_inv h" and "0 < sz" and "unat sz \<le> max_request" and "valid_alignment al"
  shows "wp (on_pool (pool_allocate ops sz al nullptr)) (\<lambda>(st, q) h'. host_sound pool_inv h' \<and>
      host_cthread h' = host_cthread h \<and> existing_tlb_mappings h' = existing_tlb_mappings h \<and>
      (status_ok st \<longrightarrow> new_blocks live [q] sz (host_pool h) (host_pool h'))) (\<lambda>_ _. True) h"
proof -
  have p: "pool_inv (host_pool h)" "tlb_inv h" using assms(1) by (simp_all add: host_sound_def)
  show ?thesis
    unfolding wp_on_pool
    by (rule wp_mono [OF allocate_law [OF p(1) assms(2-4)]])
      (use p(2) in \<open>auto simp: host_sound_pool new_blocks_def fun_upd_def split: prod.splits if_splits\<close>)
qed

text \<open>The programs exit when an allocation fails.\<close>

lemma wp_allocate_or_exit:
  assumes "host_sound pool_inv h" and "0 < sz" and "unat sz \<le> max_request" and "valid_alignment al"
    and "\<And>q h1. host_sound pool_inv h1 \<Longrightarrow> host_cthread h1 = host_cthread h \<Longrightarrow>
      existing_tlb_mappings h1 = existing_tlb_mappings h \<Longrightarrow> new_blocks live [q] sz (host_pool h) (host_pool h1) \<Longrightarrow>
      wp (k q) Q (\<lambda>_ _. True) h1"
  shows "wp (seqE (on_pool (pool_allocate ops sz al nullptr)) (\<lambda>(st, q). if \<not> status_ok st then throw e else k q))
    Q (\<lambda>_ _. True) h"
  by (rule wp_seqI [OF wp_allocate_buffer [OF assms(1-4)]]) (use assms(5) in \<open>auto simp: wp_throw split: prod.splits\<close>)

lemma transfer_posts:
  assumes "host_sound pool_inv h" and "live (host_pool h) b = Some sz" and "0 < mx" and "unat sz + unat mx \<le> 2 ^ 64"
  shows "\<exists>h'. posts pool_inv (enqueue_stream_output mx ops b sz i) h (of_nat (num_chunks (unat sz) (unat mx)))
      (write_calls i (chunks_of mx b sz)) h'"
    "\<exists>h'. posts pool_inv (enqueue_stream_input mx ops b sz i l) h () (read_calls i l (chunks_of mx b sz)) h'"
proof -
  have inv: "pool_inv (host_pool h)" "tlb_inv h" using assms(1) by (simp_all add: host_sound_def)
  have "0 < sz" using live_block [OF inv(1) assms(2)] by simp
  then obtain new where new: "ensure_tlb_mapping ops b sz h = (Inr (), after_maps new h)"
      "tlb_inv (after_maps new h)" "no_wrap b sz"
    using transfer_state [OF memory_pool_axioms inv assms(2) order_refl] by metis
  have len: "length (chunks_of mx b sz) = num_chunks (unat sz) (unat mx)" by (simp add: chunks_of_def)
  have sound: "host_sound pool_inv (after_maps new h)" using new(2) inv(1) by (simp add: host_sound_def)
  show "\<exists>h'. posts pool_inv (enqueue_stream_output mx ops b sz i) h (of_nat (num_chunks (unat sz) (unat mx)))
      (write_calls i (chunks_of mx b sz)) h'"
    using enqueue_stream_output_posts [OF new(1) assms(3,4), of i] host_sound_calls [OF sound]
    by (auto simp: posts_def posted_def len)
  show "\<exists>h'. posts pool_inv (enqueue_stream_input mx ops b sz i l) h () (read_calls i l (chunks_of mx b sz)) h'"
    using enqueue_stream_input_posts [OF new(1) assms(3,4), of i l] host_sound_calls [OF sound]
    by (auto simp: posts_def posted_def)
qed

end

text \<open>A host with a simple pool, for the examples.\<close>

definition program_host :: "SimpleMemoryPool host" where
  "program_host = \<lparr>host_pool = example_pool, existing_tlb_mappings = {}, host_cthread = []\<rparr>"

lemma program_host_sound: "host_sound sp_inv program_host"
  using sp_reachable_inv [OF sp_honest_reachable [OF example_honest]]
  by (simp add: host_sound_def program_host_def tlb_inv_def mapped_after_def)

end
