(* ===== verification/Replay_Example.thy ===== *)
theory Replay_Example
  imports Host_Programs
begin

text \<open>
  The program \<open>examples/03_replay_buffer/src/main.cpp\<close>: it streams data to the device, which stores it
  in a ring buffer in card memory and sends each stream back several times. The model has the
  argument checks, the preparation up to the ring buffer's configuration, the transfers of a run,
  the counters it reads and the comparison of the data. Printing, the clock and the random input are
  left out; the wait for the completions is its condition. What the build selects with
  \<open>EN_SIMULATION\<close>, the kind of pool and the alignment of the ring buffer, are parameters.
\<close>

section \<open>Arguments\<close>

record replay_args =
  ra_stream_bytes :: u64
  ra_num_streams :: u64
  ra_num_reads :: u64
  ra_ring_bytes :: u64
  ra_num_runs :: u64
  ra_seed :: u64

definition replay_default_args :: replay_args where
  "replay_default_args = \<lparr>ra_stream_bytes = 16 * 1024 * 1024, ra_num_streams = 4, ra_num_reads = 3,
     ra_ring_bytes = push_bit 30 1, ra_num_runs = 3, ra_seed = 42\<rparr>"

text \<open>The options as \<open>getopt_long\<close> returns them, with the argument of each.\<close>

fun replay_options :: "(char \<times> string) list \<Rightarrow> replay_args \<Rightarrow> cpp_error + replay_args" where
  "replay_options [] args = Inr args"
| "replay_options ((opt, optarg) # opts) args =
     (if opt = CHR ''b'' then bind_sum (stoul optarg) (\<lambda>v. replay_options opts (args\<lparr>ra_stream_bytes := v\<rparr>))
      else if opt = CHR ''n'' then bind_sum (stoul optarg) (\<lambda>v. replay_options opts (args\<lparr>ra_num_streams := v\<rparr>))
      else if opt = CHR ''k'' then bind_sum (stoul optarg) (\<lambda>v. replay_options opts (args\<lparr>ra_num_reads := v\<rparr>))
      else if opt = CHR ''m'' then bind_sum (stoul optarg) (\<lambda>v. replay_options opts (args\<lparr>ra_ring_bytes := v\<rparr>))
      else if opt = CHR ''r'' then bind_sum (stoul optarg) (\<lambda>v. replay_options opts (args\<lparr>ra_num_runs := v\<rparr>))
      else if opt = CHR ''s'' then bind_sum (stoul optarg) (\<lambda>v. replay_options opts (args\<lparr>ra_seed := v\<rparr>))
      else if opt = CHR ''h'' then Inl (Exit 0)
      else Inl (Exit 1))"

definition replay_parse_args :: "(char \<times> string) list \<Rightarrow> cpp_error + replay_args" where
  "replay_parse_args opts =
     bind_sum (replay_options opts replay_default_args) (\<lambda>args.
     if ra_stream_bytes args = 0 \<or> ra_stream_bytes args mod 8 \<noteq> 0 then Inl (Exit 1)
     else if ra_num_streams args = 0 then Inl (Exit 1)
     else if ra_num_reads args = 0 then Inl (Exit 1)
     else if ra_ring_bytes args mod ucast MEMORY_ALIGNMENT_BYTES \<noteq> 0 then Inl (Exit 1)
     else Inr args)"

section \<open>Preparation\<close>

record replay =
  rp_config :: ReplayBufferConfig
  rp_profile :: Config
  rp_stream_transfers :: u64
  rp_ring_buffer :: ptr
  rp_inputs :: "ptr list"
  rp_outputs :: "ptr list"

fun allocate_buffers :: "'p MemoryPool \<Rightarrow> u64 \<Rightarrow> nat \<Rightarrow> ('p host, ptr list) action" where
  "allocate_buffers ops sz 0 = ret []"
| "allocate_buffers ops sz (Suc n) =
     seqE (on_pool (pool_allocate_default ops sz nullptr)) (\<lambda>(status, buffer).
     if \<not> status_ok status then throw (Exit EXIT_FAILURE)
     else seqE (allocate_buffers ops sz n) (\<lambda>buffers. ret (buffer # buffers)))"

text \<open>The configurations of the design, after the checks that do not depend on memory.\<close>

definition replay_configs :: "csr \<Rightarrow> replay_args \<Rightarrow> cpp_error + (ReplayBufferConfig \<times> Config \<times> u64)" where
  "replay_configs csr args =
     bind_sum (GlobalConfig_init csr) (\<lambda>global_config.
     if system_id global_config \<noteq> 0 then Inl AssertionFailure
     else
       case get_config csr ReplayBufferConfig_class global_config of
         (Inr (AReplay rc), global_config) \<Rightarrow>
           if num_buffers rc \<noteq> 1 then Inl AssertionFailure
           else if ra_num_streams args > maximum_num_enqueued_streams rc then Inl (Exit EXIT_FAILURE)
           else if transfer_size rc = 0 then Inl UndefinedBehaviour
           else
             let stream_transfers = (ra_stream_bytes args + transfer_size rc - 1) div transfer_size rc
             in if ra_num_reads args > 1 \<and> (stream_transfers + 1) * transfer_size rc > ra_ring_bytes args
                then Inl (Exit EXIT_FAILURE)
                else
                  (case get_config csr PlainConfig_class global_config of
                     (Inr (APlain profile), _) \<Rightarrow> Inr (rc, profile, stream_transfers)
                   | (Inl e, _) \<Rightarrow> Inl e
                   | _ \<Rightarrow> Inl UndefinedBehaviour)
       | (Inl e, _) \<Rightarrow> Inl e
       | _ \<Rightarrow> Inl UndefinedBehaviour)"

definition replay_allocate ::
  "'p MemoryPool \<Rightarrow> u64 \<Rightarrow> u64 \<Rightarrow> replay_args \<Rightarrow> ('p host, ptr \<times> ptr list \<times> ptr list) action" where
  "replay_allocate ops ring_alignment ring_alloc_bytes args =
     seqE (on_pool (pool_allocate ops ring_alloc_bytes ring_alignment nullptr)) (\<lambda>(status, ring_buffer).
     if \<not> status_ok status then throw (Exit EXIT_FAILURE)
     else
       seqE (allocate_buffers ops (ra_stream_bytes args) (unat (ra_num_streams args))) (\<lambda>inputs.
       seqE (allocate_buffers ops (ra_stream_bytes args) (unat (ra_num_streams args * ra_num_reads args))) (\<lambda>outputs.
       ret (ring_buffer, inputs, outputs))))"

text \<open>
  \<open>huge\<close> is the range of the pool when it is one of huge pages (the \<open>dynamic_cast\<close>), \<open>mx\<close> the maximal
  transfer of the driver.
\<close>

definition replay_map_ring ::
  "u64 \<Rightarrow> 'p MemoryPool \<Rightarrow> ('p \<Rightarrow> (ptr \<times> u64) option) \<Rightarrow> ReplayBufferConfig \<Rightarrow> ptr \<Rightarrow> u64 \<Rightarrow> u64 \<Rightarrow>
   ('p host, unit) action" where
  "replay_map_ring mx ops huge rc ring_buffer ring_alloc_bytes ring_bytes =
     seqE (premap_huge_pool ops huge) (\<lambda>_.
     seqE (ensure_tlb_mapping ops ring_buffer ring_alloc_bytes) (\<lambda>_.
     seqE (offload_to_card mx ops ring_buffer ring_alloc_bytes) (\<lambda>_.
     on_cthread (configure_ring_buffer rc 0 ring_buffer ring_bytes))))"

text \<open>\<open>ctid\<close> is the id of the Coyote thread.\<close>

definition replay_setup ::
  "csr \<Rightarrow> int \<Rightarrow> u64 \<Rightarrow> 'p MemoryPool \<Rightarrow> ('p \<Rightarrow> (ptr \<times> u64) option) \<Rightarrow> u64 \<Rightarrow> replay_args \<Rightarrow>
   ('p host, replay) action" where
  "replay_setup csr ctid mx ops huge ring_alignment args =
     (if ctid \<noteq> 0 then throw (Exit EXIT_FAILURE)
      else
        seqE (liftE (replay_configs csr args)) (\<lambda>(rc, profile, stream_transfers).
        seqE (on_cthread (write_register profile (ConfigRegister_of 0 (ra_num_streams args)))) (\<lambda>_.
        seqE (on_cthread (write_register profile
                (ConfigRegister_of 1 (ra_num_streams args * ra_num_reads args)))) (\<lambda>_.
        let ring_alloc_bytes = (ra_ring_bytes args + ring_alignment - 1) div ring_alignment * ring_alignment in
        seqE (replay_allocate ops ring_alignment ring_alloc_bytes args) (\<lambda>(ring_buffer, inputs, outputs).
        seqE (replay_map_ring mx ops huge rc ring_buffer ring_alloc_bytes (ra_ring_bytes args)) (\<lambda>_.
        ret \<lparr>rp_config = rc, rp_profile = profile, rp_stream_transfers = stream_transfers,
             rp_ring_buffer = ring_buffer, rp_inputs = inputs, rp_outputs = outputs\<rparr>))))))"

section \<open>A run\<close>

fun post_outputs :: "u64 \<Rightarrow> 'p MemoryPool \<Rightarrow> u64 \<Rightarrow> ptr list \<Rightarrow> u64 \<Rightarrow> ('p host, u64) action" where
  "post_outputs mx ops sz [] num_output_transfers = ret num_output_transfers"
| "post_outputs mx ops sz (buffer # buffers) num_output_transfers =
     seqE (enqueue_stream_output mx ops buffer sz 0) (\<lambda>n.
     post_outputs mx ops sz buffers (num_output_transfers + n))"

text \<open>The number of completed writes the host waits for.\<close>

definition replay_run :: "u64 \<Rightarrow> 'p MemoryPool \<Rightarrow> replay_args \<Rightarrow> replay \<Rightarrow> ('p host, u64) action" where
  "replay_run mx ops args rp =
     seqE (for_each [0 ..< unat (ra_num_streams args)] (\<lambda>_.
        on_cthread (enqueue_num_reads (rp_config rp) 0 (ucast (ra_num_reads args))))) (\<lambda>_.
     seqE (post_outputs mx ops (ra_stream_bytes args) (rp_outputs rp) 0) (\<lambda>num_output_transfers.
     seqE (for_each (rp_inputs rp) (\<lambda>buffer.
        enqueue_stream_input mx ops buffer (ra_stream_bytes args) 0 True)) (\<lambda>_.
     ret (num_output_transfers + ra_num_streams args * rp_stream_transfers rp))))"

section \<open>Counters and verification\<close>

record StreamProfile =
  handshake_cycles :: u64
  starved_cycles :: u64
  stalled_cycles :: u64
  idle_cycles :: u64
  profile_num_streams :: u64

definition total_cycles :: "StreamProfile \<Rightarrow> u64" where
  "total_cycles p = handshake_cycles p + starved_cycles p + stalled_cycles p + idle_cycles p"

definition add_profile :: "StreamProfile \<Rightarrow> StreamProfile \<Rightarrow> StreamProfile" where
  "add_profile p q = \<lparr>handshake_cycles = handshake_cycles p + handshake_cycles q,
     starved_cycles = starved_cycles p + starved_cycles q, stalled_cycles = stalled_cycles p + stalled_cycles q,
     idle_cycles = idle_cycles p + idle_cycles q,
     profile_num_streams = profile_num_streams p + profile_num_streams q\<rparr>"

definition read_profile :: "csr \<Rightarrow> Config \<Rightarrow> u64 \<Rightarrow> cpp_error + StreamProfile" where
  "read_profile csr profile_config index =
     (let counter = (\<lambda>k. map_sum id reg_value (read_register csr profile_config (ucast (1 + 5 * index + k)))) in
      bind_sum (counter 0) (\<lambda>c0. bind_sum (counter 1) (\<lambda>c1. bind_sum (counter 2) (\<lambda>c2.
      bind_sum (counter 3) (\<lambda>c3. bind_sum (counter 4) (\<lambda>c4.
      Inr \<lparr>handshake_cycles = c0, starved_cycles = c1, stalled_cycles = c2, idle_cycles = c3,
           profile_num_streams = c4\<rparr>))))))"

text \<open>The \<open>i\<close>-th 64-bit word of a buffer.\<close>

definition word_at :: "u8 list \<Rightarrow> nat \<Rightarrow> u8 list" where
  "word_at bytes i = take 8 (drop (8 * i) bytes)"

definition replay_verify_output :: "u8 list \<Rightarrow> u8 list \<Rightarrow> nat \<Rightarrow> nat" where
  "replay_verify_output input output sz =
     (if take sz input = take sz output then 0
      else length (filter (\<lambda>i. word_at output i \<noteq> word_at input i) [0 ..< sz div 8]))"

text \<open>The comparisons after a run, of every read of every stream with its input.\<close>

fun sum_wrong :: "(cpp_error + nat) list \<Rightarrow> nat \<Rightarrow> cpp_error + nat" where
  "sum_wrong [] num_wrong_values = Inr num_wrong_values"
| "sum_wrong (r # rs) num_wrong_values = bind_sum r (\<lambda>n. sum_wrong rs (num_wrong_values + n))"

definition replay_verify_run :: "replay_args \<Rightarrow> u8 list list \<Rightarrow> u8 list list \<Rightarrow> nat \<Rightarrow> cpp_error + nat" where
  "replay_verify_run args inputs outputs =
     sum_wrong [bind_sum (vec_at inputs s) (\<lambda>input.
         bind_sum (vec_at outputs (unat (of_nat s * ra_num_reads args + of_nat r))) (\<lambda>output.
         Inr (replay_verify_output input output (unat (ra_stream_bytes args))))).
       s \<leftarrow> [0 ..< unat (ra_num_streams args)], r \<leftarrow> [0 ..< unat (ra_num_reads args)]]"

text \<open>The exit status; the profiles are the sums over all runs.\<close>

definition replay_exit_status :: "replay_args \<Rightarrow> nat \<Rightarrow> StreamProfile \<Rightarrow> StreamProfile \<Rightarrow> int" where
  "replay_exit_status args num_wrong_values input_profile output_profile =
     (let num_wrong_values =
        (if profile_num_streams input_profile \<noteq> ra_num_streams args * ra_num_runs args \<or>
            profile_num_streams output_profile \<noteq> ra_num_streams args * ra_num_reads args * ra_num_runs args
         then num_wrong_values + 1 else num_wrong_values)
      in if num_wrong_values = 0 then EXIT_SUCCESS else EXIT_FAILURE)"

section \<open>Preparing memory\<close>

context memory_pool
begin

lemma wp_allocate_buffers:
  assumes "host_sound pool_inv h" and "0 < sz" and "unat sz \<le> max_request"
  shows "wp (allocate_buffers ops sz n) (\<lambda>qs h'. host_sound pool_inv h' \<and> length qs = n \<and>
      host_cthread h' = host_cthread h \<and> existing_tlb_mappings h' = existing_tlb_mappings h \<and>
      new_blocks live qs sz (host_pool h) (host_pool h')) (\<lambda>_ _. True) h"
  using assms(1)
proof (induction n arbitrary: h)
  case 0
  then show ?case by (simp add: wp_simps new_blocks_Nil)
next
  case (Suc n)
  show ?case
    unfolding allocate_buffers.simps pool_allocate_default_def DEFAULT_ALIGNMENT_def
  proof (rule wp_allocate_or_exit [OF Suc.prems assms(2,3) valid_alignment_64], goal_cases)
    case (1 q h1)
    show ?case
      by (rule wp_seqI [OF Suc.IH [OF 1(1)]])
        (use 1 new_blocks_append [of live "[q]"] in \<open>fastforce simp: wp_ret\<close>)
  qed
qed

text \<open>The buffers a preparation that returns has allocated.\<close>

lemma wp_replay_allocate:
  assumes "host_sound pool_inv h" and "0 < rsz" "unat rsz \<le> max_request" "valid_alignment al"
    and "0 < ra_stream_bytes args" "unat (ra_stream_bytes args) \<le> max_request"
  shows "wp (replay_allocate ops al rsz args) (\<lambda>(r, ins, outs) h'. host_sound pool_inv h' \<and>
      host_cthread h' = host_cthread h \<and> length ins = unat (ra_num_streams args) \<and>
      length outs = unat (ra_num_streams args * ra_num_reads args) \<and>
      (\<exists>p1. new_blocks live [r] rsz (host_pool h) p1 \<and>
         new_blocks live (ins @ outs) (ra_stream_bytes args) p1 (host_pool h'))) (\<lambda>_ _. True) h"
  unfolding replay_allocate_def
proof (rule wp_allocate_or_exit [OF assms(1-4)], goal_cases)
  case (1 r h1)
  show ?case
  proof (rule wp_seqI [OF wp_allocate_buffers [OF 1(1) assms(5,6)]], goal_cases)
    case (1 ins h2)
    show ?case
      by (rule wp_seqI [OF wp_allocate_buffers [OF _ assms(5,6)]])
        (use 1 \<open>new_blocks live [r] rsz _ _\<close> \<open>host_cthread h1 = _\<close> new_blocks_append [of live ins] in \<open>auto simp: wp_ret\<close>)
  qed
qed

lemma wp_replay_map_ring:
  assumes "host_sound pool_inv h" and "live (host_pool h) r = Some rsz" and "0 < rsz" and "huge_range_ok ops pool_inv huge"
  shows "wp (replay_map_ring mx ops huge rc r rsz n) (\<lambda>_ h'. host_sound pool_inv h' \<and> host_pool h' = host_pool h \<and>
      covered ops h' r rsz \<and> r + n \<le> push_bit FPGA_VADDR_BITS 1 \<and> r mod ucast MEMORY_ALIGNMENT_BYTES = 0 \<and>
      2 * transfer_size rc \<le> n \<and>
      (\<exists>cs. host_cthread h' = cs @ [SetCSR r (addr_offset rc), SetCSR n (addr_offset rc + 1)])) (\<lambda>_ _. True) h"
proof -
  have pg: "paged ops (host_pool h') r rsz" if "host_pool h' = host_pool h" for h' :: "'p host"
    using live_paged [OF _ assms(2) order_refl assms(3)] assms(1) that by (simp add: host_sound_def)
  show ?thesis
    unfolding replay_map_ring_def wp_seqE
  proof (rule wp_mono [OF wp_premap_huge_pool [OF assms(1,4), of "\<lambda>_ _. True"]], goal_cases)
    case (1 _ h1)
    show ?case
    proof (rule wp_mono [OF wp_ensure_paged [of pool_inv h1 ops r rsz "\<lambda>_ _. True"]], goal_cases)
      case (4 _ h2)
      then have h2: "host_sound pool_inv h2" "host_pool h2 = host_pool h" "covered ops h2 r rsz"
        using 1 by simp_all
      show ?case
      proof (rule wp_mono [OF wp_offload_paged [OF h2(1) pg [OF h2(2)], of mx "\<lambda>_ _. True"]], goal_cases)
        case (1 _ h3)
        then have h3: "host_sound pool_inv h3" "host_pool h3 = host_pool h" "covered ops h3 r rsz"
          using h2 covered_mono [OF h2(3), of h3] by auto
        have "covered ops (h3\<lparr>host_cthread := cs\<rparr>) r rsz" for cs
          by (rule covered_mono [OF h3(3)]) simp_all
        then show ?case
          unfolding on_cthread_def wp_onE configure_ring_buffer_def
          using h3 host_sound_calls [OF h3(1)]
          by (auto simp: wp_simps not_less)
      qed simp
    qed (use 1 pg assms(3) in auto)
  qed simp
qed

text \<open>The buffers and the ring buffer; \<open>rsz\<close> is the size of the ring buffer rounded up to its alignment.\<close>

lemma wp_replay_buffers:
  assumes "host_sound pool_inv h1" and "0 < rsz" and "unat rsz \<le> max_request" and "valid_alignment al"
    and "0 < ra_stream_bytes args" and "unat (ra_stream_bytes args) \<le> max_request" and "huge_range_ok ops pool_inv huge"
  shows "wp (seqE (replay_allocate ops al rsz args) (\<lambda>(ring_buffer, inputs, outputs).
        seqE (replay_map_ring mx ops huge rc ring_buffer rsz (ra_ring_bytes args)) (\<lambda>_.
        ret \<lparr>rp_config = rc, rp_profile = profile, rp_stream_transfers = st,
             rp_ring_buffer = ring_buffer, rp_inputs = inputs, rp_outputs = outputs\<rparr>)))
      (\<lambda>rp h'. host_sound pool_inv h' \<and> rp_config rp = rc \<and> rp_profile rp = profile \<and> rp_stream_transfers rp = st \<and>
      length (rp_inputs rp) = unat (ra_num_streams args) \<and>
      length (rp_outputs rp) = unat (ra_num_streams args * ra_num_reads args) \<and>
      (\<exists>p1. new_blocks live [rp_ring_buffer rp] rsz (host_pool h1) p1 \<and>
         new_blocks live (rp_inputs rp @ rp_outputs rp) (ra_stream_bytes args) p1 (host_pool h')) \<and>
      covered ops h' (rp_ring_buffer rp) rsz \<and>
      rp_ring_buffer rp + ra_ring_bytes args \<le> push_bit FPGA_VADDR_BITS 1 \<and>
      2 * transfer_size rc \<le> ra_ring_bytes args \<and>
      (\<exists>cs. host_cthread h' = cs @ [SetCSR (rp_ring_buffer rp) (addr_offset rc),
         SetCSR (ra_ring_bytes args) (addr_offset rc + 1)])) (\<lambda>_ _. True) h1"
proof (rule wp_seqI [OF wp_replay_allocate [OF assms(1) assms(2-6)]], goal_cases)
  case (1 x h2)
  obtain q ins outs where x: "x = (q, ins, outs)" by (metis prod_cases3)
  note h2 = 1 [unfolded x prod.case]
  have "live (host_pool h2) q = Some rsz"
    using h2 new_blocks_live(1) [of live "[q]" rsz _ _ q] new_blocks_live(2) [of live "ins @ outs"] by auto
  moreover have "host_sound pool_inv h2" using h2 by simp
  ultimately show ?case
    unfolding x prod.case wp_seqE wp_ret
    by (intro wp_mono [OF wp_replay_map_ring [OF _ _ assms(2,7), of h2 q mx rc "ra_ring_bytes args"]])
      (use h2 in simp_all)
qed

text \<open>The whole preparation.\<close>

lemma wp_replay_setup:
  assumes "host_sound pool_inv h" and "huge_range_ok ops pool_inv huge" and "valid_alignment al"
    and "0 < ra_stream_bytes args" "unat (ra_stream_bytes args) \<le> max_request"
    and "0 < ra_ring_bytes args" "unat (ra_ring_bytes args) + unat al \<le> max_request"
    and rsz: "rsz = (ra_ring_bytes args + al - 1) div al * al"
  shows "wp (replay_setup csr ctid mx ops huge al args) (\<lambda>rp h'. host_sound pool_inv h' \<and>
      replay_configs csr args = Inr (rp_config rp, rp_profile rp, rp_stream_transfers rp) \<and>
      length (rp_inputs rp) = unat (ra_num_streams args) \<and>
      length (rp_outputs rp) = unat (ra_num_streams args * ra_num_reads args) \<and>
      (\<exists>p1. new_blocks live [rp_ring_buffer rp] rsz (host_pool h) p1 \<and>
         new_blocks live (rp_inputs rp @ rp_outputs rp) (ra_stream_bytes args) p1 (host_pool h')) \<and>
      covered ops h' (rp_ring_buffer rp) rsz \<and>
      rp_ring_buffer rp + ra_ring_bytes args \<le> push_bit FPGA_VADDR_BITS 1 \<and>
      2 * transfer_size (rp_config rp) \<le> ra_ring_bytes args \<and>
      (\<exists>cs. host_cthread h' = cs @ [SetCSR (rp_ring_buffer rp) (addr_offset (rp_config rp)),
         SetCSR (ra_ring_bytes args) (addr_offset (rp_config rp) + 1)])) (\<lambda>_ _. True) h"
proof -
  have al: "0 < unat al" using valid_alignment_le [OF assms(3)] by simp
  have "unat rsz = round_up (unat (ra_ring_bytes args)) (unat al)"
    unfolding rsz using al assms(7) by (intro unat_round_up_word) (simp_all add: max_request_def)
  then have r: "0 < rsz" "unat rsz \<le> max_request"
    using round_up_ge [OF al, of "unat (ra_ring_bytes args)"] round_up_less [OF al, of "unat (ra_ring_bytes args)"]
      assms(6,7) by (simp_all add: word_pos_nat)
  note main = wp_replay_buffers [OF _ r assms(3-5,2)]
  show ?thesis
  proof (cases "ctid = 0")
    case True
    show ?thesis
    proof (cases "replay_configs csr args")
      case (Inr c)
      obtain rc profile st where c: "c = (rc, profile, st)" by (metis prod_cases3)
      let ?M = "seqE (replay_allocate ops al rsz args) (\<lambda>(ring_buffer, inputs, outputs).
        seqE (replay_map_ring mx ops huge rc ring_buffer rsz (ra_ring_bytes args)) (\<lambda>_.
        ret \<lparr>rp_config = rc, rp_profile = profile, rp_stream_transfers = st,
             rp_ring_buffer = ring_buffer, rp_inputs = inputs, rp_outputs = outputs\<rparr>))"
      have eq: "replay_setup csr ctid mx ops huge al args =
          seqE (on_cthread (write_register profile (ConfigRegister_of 0 (ra_num_streams args)))) (\<lambda>_.
          seqE (on_cthread (write_register profile
            (ConfigRegister_of 1 (ra_num_streams args * ra_num_reads args)))) (\<lambda>_. ?M))"
        by (simp add: replay_setup_def True Inr c rsz Let_def)
      have step: "wp (seqE (on_cthread (write_register profile reg)) (\<lambda>_. m)) Q (\<lambda>_ _. True) h2"
        if "\<And>cs. list_all (Not \<circ> is_mapping) cs \<Longrightarrow> wp m Q (\<lambda>_ _. True) (h2\<lparr>host_cthread := host_cthread h2 @ cs\<rparr>)"
        for reg m Q and h2 :: "'p host"
        using that by (simp add: wp_simps)
      show ?thesis
        unfolding eq
      proof (intro step, goal_cases)
        case (1 cs ds)
        show ?case
          by (rule wp_mono [OF main]) (use 1 assms(1) in \<open>auto simp: host_sound_calls Inr c\<close>)
      qed
    qed (simp add: replay_setup_def wp_simps True)
  qed (simp add: replay_setup_def wp_simps)
qed

end

section \<open>The transfers of a run\<close>

lemma enqueue_num_reads_posts:
  assumes "host_sound pinv h" and "0 < num_buffers rc" and "0 < n" and "2 < num_regs rc"
  shows "\<exists>h'. posts pinv (on_cthread (enqueue_num_reads rc 0 n)) h () [SetCSR (ucast n) (addr_offset rc + 2)] h'"
  by (rule csr_posts [OF assms(1)]) (use assms(2-4) in \<open>simp add: wp_simps enqueue_num_reads_def\<close>)

context memory_pool
begin

lemma post_outputs_posts:
  assumes "host_sound pool_inv h" and "\<And>b. b \<in> set bs \<Longrightarrow> live (host_pool h) b = Some sz"
    and "0 < mx" and "unat sz + unat mx \<le> 2 ^ 64"
  shows "\<exists>h'. posts pool_inv (post_outputs mx ops sz bs n) h
      (n + of_nat (length bs * num_chunks (unat sz) (unat mx))) (concat (map (\<lambda>b. write_calls 0 (chunks_of mx b sz)) bs)) h'"
  using assms(1,2)
proof (induction bs arbitrary: h n)
  case Nil
  then show ?case by (intro exI [of _ h]) (simp add: posts_ret)
next
  case (Cons b bs)
  let ?k = "of_nat (num_chunks (unat sz) (unat mx)) :: u64"
  obtain h1 where h1: "posts pool_inv (enqueue_stream_output mx ops b sz 0) h ?k (write_calls 0 (chunks_of mx b sz)) h1"
    using transfer_posts(1) [OF Cons.prems(1) _ assms(3,4), of b 0] Cons.prems(2) by auto
  then have "\<exists>h'. posts pool_inv (post_outputs mx ops sz bs (n + ?k)) h1
      (n + ?k + of_nat (length bs * num_chunks (unat sz) (unat mx)))
      (concat (map (\<lambda>b. write_calls 0 (chunks_of mx b sz)) bs)) h'"
    using Cons.prems(2) by (intro Cons.IH) (auto simp: posts_def)
  then show ?case using posts_seq [OF h1] by (fastforce simp: algebra_simps)
qed

lemma replay_run_posts:
  assumes "host_sound pool_inv h"
    and "\<And>b. b \<in> set (rp_inputs rp @ rp_outputs rp) \<Longrightarrow> live (host_pool h) b = Some (ra_stream_bytes args)"
    and "0 < mx" and "unat (ra_stream_bytes args) + unat mx \<le> 2 ^ 64"
    and "0 < num_buffers (rp_config rp)" and "0 < (ucast (ra_num_reads args) :: u32)" and "2 < num_regs (rp_config rp)"
  shows "\<exists>h'. posts pool_inv (replay_run mx ops args rp) h
    (of_nat (length (rp_outputs rp) * num_chunks (unat (ra_stream_bytes args)) (unat mx)) +
       ra_num_streams args * rp_stream_transfers rp)
    (replicate (unat (ra_num_streams args))
        (SetCSR (ucast (ucast (ra_num_reads args) :: u32)) (addr_offset (rp_config rp) + 2)) @
      concat (map (\<lambda>b. write_calls 0 (chunks_of mx b (ra_stream_bytes args))) (rp_outputs rp)) @
      concat (map (\<lambda>b. read_calls 0 True (chunks_of mx b (ra_stream_bytes args))) (rp_inputs rp))) h'"
proof -
  let ?sz = "ra_stream_bytes args"
  have repl: "concat (map (\<lambda>_. [x]) [0 ..< n]) = replicate n x" for x :: coyote_call and n
    by (induction n) (simp_all add: replicate_append_same)
  have "\<exists>h1. posts pool_inv (for_each [0 ..< unat (ra_num_streams args)] (\<lambda>_.
        on_cthread (enqueue_num_reads (rp_config rp) 0 (ucast (ra_num_reads args))))) h ()
      (concat (map (\<lambda>_. [SetCSR (ucast (ucast (ra_num_reads args) :: u32)) (addr_offset (rp_config rp) + 2)])
        [0 ..< unat (ra_num_streams args)])) h1"
    by (rule posts_for_each [OF assms(1) _ refl]) (rule enqueue_num_reads_posts [OF _ assms(5,6,7)])
  then obtain h1 where h1: "posts pool_inv (for_each [0 ..< unat (ra_num_streams args)] (\<lambda>_.
        on_cthread (enqueue_num_reads (rp_config rp) 0 (ucast (ra_num_reads args))))) h ()
      (replicate (unat (ra_num_streams args))
        (SetCSR (ucast (ucast (ra_num_reads args) :: u32)) (addr_offset (rp_config rp) + 2))) h1"
    unfolding repl by blast
  obtain h2 where h2: "posts pool_inv (post_outputs mx ops ?sz (rp_outputs rp) 0) h1
      (0 + of_nat (length (rp_outputs rp) * num_chunks (unat ?sz) (unat mx)))
      (concat (map (\<lambda>b. write_calls 0 (chunks_of mx b ?sz)) (rp_outputs rp))) h2"
    using post_outputs_posts [of h1 "rp_outputs rp" ?sz mx 0] h1 assms(2-4) by (auto simp: posts_def)
  have "\<exists>h3. posts pool_inv (for_each (rp_inputs rp) (\<lambda>b. enqueue_stream_input mx ops b ?sz 0 True)) h2 ()
      (concat (map (\<lambda>b. read_calls 0 True (chunks_of mx b ?sz)) (rp_inputs rp))) h3"
  proof (rule posts_for_each)
    show "host_sound pool_inv h2" "host_pool h2 = host_pool h" using h1 h2 by (simp_all add: posts_def)
    show "\<exists>h'. posts pool_inv (enqueue_stream_input mx ops b ?sz 0 True) g () (read_calls 0 True (chunks_of mx b ?sz)) h'"
      if "b \<in> set (rp_inputs rp)" "host_sound pool_inv g" "host_pool g = host_pool h" for b g
      using that assms(2) by (intro transfer_posts(2) [OF _ _ assms(3,4)]) simp_all
  qed
  then obtain h3 where h3: "posts pool_inv (for_each (rp_inputs rp) (\<lambda>b. enqueue_stream_input mx ops b ?sz 0 True)) h2 ()
      (concat (map (\<lambda>b. read_calls 0 True (chunks_of mx b ?sz)) (rp_inputs rp))) h3" by blast
  have sound: "host_sound pool_inv h3" using h3 by (simp add: posts_def)
  have "posts pool_inv (replay_run mx ops args rp) h
    (0 + of_nat (length (rp_outputs rp) * num_chunks (unat ?sz) (unat mx)) + ra_num_streams args * rp_stream_transfers rp)
    (replicate (unat (ra_num_streams args))
        (SetCSR (ucast (ucast (ra_num_reads args) :: u32)) (addr_offset (rp_config rp) + 2)) @
      concat (map (\<lambda>b. write_calls 0 (chunks_of mx b ?sz)) (rp_outputs rp)) @
      concat (map (\<lambda>b. read_calls 0 True (chunks_of mx b ?sz)) (rp_inputs rp)) @ []) h3"
    unfolding replay_run_def
    by (rule posts_seq [OF h1], rule posts_seq [OF h2], rule posts_seq [OF h3], rule posts_ret [OF sound])
  then show ?thesis by (intro exI [of _ h3]) simp
qed

end

section \<open>Verification of the data\<close>

lemma word_at_nth:
  assumes "8 * i + j < length xs" and "j < 8"
  shows "word_at xs i ! j = xs ! (8 * i + j)" "j < length (word_at xs i)"
  using assms by (simp_all add: word_at_def)

lemma words_determine_bytes:
  assumes "length xs = n" "length ys = n" "8 dvd n" and "\<forall>i < n div 8. word_at xs i = word_at ys i"
  shows "xs = ys"
proof (rule nth_equalityI)
  show "length xs = length ys" using assms by simp
  fix k
  assume k: "k < length xs"
  have "k div 8 < n div 8" using k assms(1,3) by (auto simp: dvd_def less_mult_imp_div_less mult.commute)
  with assms(4) have "word_at xs (k div 8) ! (k mod 8) = word_at ys (k div 8) ! (k mod 8)" by simp
  then show "xs ! k = ys ! k" using k assms(1,2) by (simp add: word_at_nth(1))
qed

section \<open>Properties\<close>

text \<open>A small design and arguments to evaluate the properties on.\<close>

definition example_csr :: csr where
  "example_csr a =
     (if a = 1 then 2 else if a = 2 then 8 else if a = 3 then 20 else if a = 4 then 2 else if a = 5 then 1
      else if a = 6 then 16 else if a = 7 then 64 else if a = 8 then - 1 else 0)"

definition example_opts :: "(char \<times> string) list" where
  "example_opts = [(CHR ''b'', ''128''), (CHR ''n'', ''1''), (CHR ''k'', ''2''), (CHR ''m'', ''4096'')]"

definition example_args :: replay_args where
  "example_args = replay_default_args\<lparr>ra_stream_bytes := 128, ra_num_streams := 1, ra_num_reads := 2,
     ra_ring_bytes := 4096\<rparr>"

lemma example_args: "replay_parse_args example_opts = Inr example_args"
proof -
  have "scan_number ''128'' = Some (False, 128)" "scan_number ''1'' = Some (False, 1)"
    "scan_number ''2'' = Some (False, 2)" "scan_number ''4096'' = Some (False, 4096)"
    by code_simp+
  then show ?thesis
    by (simp add: replay_parse_args_def example_opts_def stoul_def bind_sum_def example_args_def
        replay_default_args_def MEMORY_ALIGNMENT_BYTES_def)
qed

abbreviation example_setup :: "(SimpleMemoryPool host, replay) action" where
  "example_setup \<equiv> replay_setup example_csr 0 64 SimpleMemoryPool_ops (\<lambda>_. None) 64 example_args"

definition example_replay :: replay where
  "example_replay = \<lparr>
     rp_config = \<lparr>addr_offset = 4, num_regs = 4, num_buffers = 1, maximum_num_enqueued_streams = 16,
       transfer_size = 64\<rparr>,
     rp_profile = \<lparr>addr_offset = ucast (8 :: u64), num_regs = 12\<rparr>, rp_stream_transfers = 2,
     rp_ring_buffer = 65536, rp_inputs = [69632], rp_outputs = [69760, 69888]\<rparr>"

definition replay_host_2 :: "SimpleMemoryPool host" where
  "replay_host_2 = snd (example_setup program_host)"

lemma example_setup: "example_setup program_host = (Inr example_replay, replay_host_2)"
proof -
  have "fst (example_setup program_host) = Inr example_replay"
    unfolding example_replay_def by code_simp
  then show ?thesis by (metis replay_host_2_def prod.collapse)
qed

text \<open>C27. Preparing the replay program: over any pool, when the preparation returns, the ring buffer and all host
  buffers are new blocks of the requested sizes, every page of the ring buffer is mapped, the ring
  buffer ends inside the device's address space and holds at least two transfers, and the last two
  calls of the driver give the device its address and its size.\<close>

theorem replay_preparation:
  assumes "memory_pool ops pool_inv live" and "host_sound pool_inv h" and "huge_range_ok ops pool_inv huge"
    and "replay_parse_args opts = Inr args" and "unat (ra_stream_bytes args) \<le> max_request"
    and "0 < ra_ring_bytes args" and "unat (ra_ring_bytes args) + unat al \<le> max_request" and "valid_alignment al"
    and "replay_setup csr ctid mx ops huge al args h = (Inr rp, h')"
  shows "host_sound pool_inv h' \<and> length (rp_inputs rp) = unat (ra_num_streams args) \<and>
    length (rp_outputs rp) = unat (ra_num_streams args * ra_num_reads args) \<and>
    (\<exists>p1. new_blocks live [rp_ring_buffer rp] ((ra_ring_bytes args + al - 1) div al * al) (host_pool h) p1 \<and>
       new_blocks live (rp_inputs rp @ rp_outputs rp) (ra_stream_bytes args) p1 (host_pool h')) \<and>
    covered ops h' (rp_ring_buffer rp) ((ra_ring_bytes args + al - 1) div al * al) \<and>
    rp_ring_buffer rp + ra_ring_bytes args \<le> push_bit FPGA_VADDR_BITS 1 \<and>
    2 * transfer_size (rp_config rp) \<le> ra_ring_bytes args \<and>
    (\<exists>cs. host_cthread h' = cs @ [SetCSR (rp_ring_buffer rp) (addr_offset (rp_config rp)),
       SetCSR (ra_ring_bytes args) (addr_offset (rp_config rp) + 1)])"
proof -
  have "0 < ra_stream_bytes args"
    using assms(4) by (auto simp: replay_parse_args_def bind_sum_def word_gt_0 split: sum.splits if_splits)
  from wpD_Inr [OF memory_pool.wp_replay_setup [OF assms(1-3,8) this assms(5-7) refl] assms(9)]
  show ?thesis by blast
qed

theorem replay_preparation_witness:
  "host_sound sp_inv replay_host_2 \<and>
    (\<exists>p1. new_blocks sp_live [65536] 4096 (host_pool program_host) p1 \<and>
       new_blocks sp_live [69632, 69760, 69888] 128 p1 (host_pool replay_host_2)) \<and>
    (\<exists>cs. host_cthread replay_host_2 = cs @ [SetCSR 65536 4, SetCSR 4096 5])"
proof -
  have "huge_range_ok SimpleMemoryPool_ops sp_inv (\<lambda>_. None)" by (simp add: huge_range_ok_def)
  note prep = replay_preparation [OF simple_pool.memory_pool_axioms program_host_sound this example_args _ _ _
      valid_alignment_64 example_setup]
  show ?thesis
    using prep by (simp add: example_args_def max_request_def example_replay_def)
qed

text \<open>A run of the replay program: with the buffers of the preparation, a run returns, and apart from mappings
  of pages it asks the driver for exactly this, in this order: one number of reads per stream, the
  writes that receive every output buffer completely, the reads that send every input buffer
  completely with the end of the stream on the last of each. The number of completions it waits for
  is that of the posted writes plus the card writes of every stream.\<close>

theorem replay_run_transfers:
  assumes "memory_pool ops pool_inv live" and "host_sound pool_inv h2" and "host_pool h2 = host_pool h'"
    and "new_blocks live (rp_inputs rp @ rp_outputs rp) (ra_stream_bytes args) p1 (host_pool h')"
    and "0 < mx" and "unat (ra_stream_bytes args) + unat mx \<le> 2 ^ 64"
    and "0 < num_buffers (rp_config rp)" and "0 < (ucast (ra_num_reads args) :: u32)" and "2 < num_regs (rp_config rp)"
  shows "\<exists>h3. replay_run mx ops args rp h2 =
      (Inr (of_nat (length (rp_outputs rp) * num_chunks (unat (ra_stream_bytes args)) (unat mx)) +
         ra_num_streams args * rp_stream_transfers rp), h3) \<and>
    host_sound pool_inv h3 \<and> host_pool h3 = host_pool h2 \<and>
    posted h3 = posted h2 @
      replicate (unat (ra_num_streams args))
        (SetCSR (ucast (ucast (ra_num_reads args) :: u32)) (addr_offset (rp_config rp) + 2)) @
      concat (map (\<lambda>b. write_calls 0 (chunks_of mx b (ra_stream_bytes args))) (rp_outputs rp)) @
      concat (map (\<lambda>b. read_calls 0 True (chunks_of mx b (ra_stream_bytes args))) (rp_inputs rp))"
proof -
  have "live (host_pool h2) b = Some (ra_stream_bytes args)" if "b \<in> set (rp_inputs rp @ rp_outputs rp)" for b
    using new_blocks_live(1) [OF assms(4) that] assms(3) by simp
  from memory_pool.replay_run_posts [OF assms(1,2) this assms(5-9)] show ?thesis
    by (simp add: posts_def)
qed

theorem replay_run_transfers_witness:
  "\<exists>h3. replay_run 64 SimpleMemoryPool_ops example_args example_replay replay_host_2 = (Inr 6, h3) \<and>
    host_sound sp_inv h3"
proof -
  have "huge_range_ok SimpleMemoryPool_ops sp_inv (\<lambda>_. None)" by (simp add: huge_range_ok_def)
  from wpD_Inr [OF simple_pool.wp_replay_setup [OF program_host_sound this valid_alignment_64 _ _ _ _ refl]
      example_setup]
  obtain p1 where "host_sound sp_inv replay_host_2"
    "new_blocks sp_live (rp_inputs example_replay @ rp_outputs example_replay) (ra_stream_bytes example_args) p1
       (host_pool replay_host_2)"
    by (auto simp: example_args_def max_request_def)
  from replay_run_transfers [OF simple_pool.memory_pool_axioms this(1) refl this(2), of 64]
  show ?thesis
    by (auto simp: example_replay_def example_args_def num_chunks_def)
qed

lemma sum_wrong_Inr: "sum_wrong (map (Inr \<circ> f) xs) n = Inr (n + sum_list (map f xs))"
  by (induction xs arbitrary: n) (simp_all add: bind_sum_def add.assoc)

text \<open>The comparison of two buffers finds nothing wrong exactly when they are equal.\<close>

lemma verify_output_exact:
  assumes "8 dvd sz" and "length input = sz" and "length output = sz"
  shows "replay_verify_output input output sz = 0 \<longleftrightarrow> input = output"
proof (cases "input = output")
  case False
  then obtain i where "i < sz div 8" "word_at output i \<noteq> word_at input i"
    using words_determine_bytes [OF assms(2,3,1)] by metis
  with False show ?thesis
    using assms(2,3) by (auto simp: replay_verify_output_def filter_empty_conv)
qed (simp add: replay_verify_output_def)

text \<open>
  The comparisons after a run are exact: with buffers of the lengths that the preparation allocates
  they return, and add no wrong value exactly when every read of every stream is, byte by byte, the
  stream's input.
\<close>

lemma replay_verify_run_exact:
  assumes "replay_parse_args opts = Inr args" and "length inputs = unat (ra_num_streams args)"
    and "length outputs = unat (ra_num_streams args) * unat (ra_num_reads args)" and "length outputs < 2 ^ 64"
    and "\<forall>b \<in> set inputs \<union> set outputs. length b = unat (ra_stream_bytes args)"
  shows "\<exists>n. replay_verify_run args inputs outputs w = Inr (w + n) \<and>
    (n = 0 \<longleftrightarrow> (\<forall>s < unat (ra_num_streams args). \<forall>r < unat (ra_num_reads args).
       outputs ! (s * unat (ra_num_reads args) + r) = inputs ! s))"
proof -
  let ?S = "unat (ra_num_streams args)" and ?R = "unat (ra_num_reads args)" and ?sz = "unat (ra_stream_bytes args)"
  let ?wrong = "\<lambda>(s, r). replay_verify_output (inputs ! s) (outputs ! (s * ?R + r)) ?sz"
  let ?reads = "[(s, r). s \<leftarrow> [0 ..< ?S], r \<leftarrow> [0 ..< ?R]]"
  have "ra_stream_bytes args mod 8 = 0"
    using assms(1) by (auto simp: replay_parse_args_def bind_sum_def split: sum.splits if_splits)
  then have "unat (ra_stream_bytes args mod 8) = 0" by simp
  then have dvd: "8 dvd ?sz" by (simp add: unat_mod mod_eq_0_iff_dvd)
  have at: "s * ?R + r < length outputs" if "s < ?S" "r < ?R" for s r
    using mult_le_mono1 [of "Suc s" ?S ?R] that assms(3) by simp
  have index: "unat (of_nat s * ra_num_reads args + of_nat r) = s * ?R + r" if "s < ?S" "r < ?R" for s r
  proof -
    have "of_nat s * ra_num_reads args + of_nat r = of_nat (s * ?R + r)" by simp
    then show ?thesis using at [OF that] assms(4) by (simp only: unat_of_nat) simp
  qed
  have "replay_verify_run args inputs outputs w = sum_wrong (map (Inr \<circ> ?wrong) ?reads) w"
    unfolding replay_verify_run_def map_concat map_map o_def
    by (intro arg_cong [where f = "\<lambda>rs. sum_wrong rs w"] arg_cong [where f = concat] map_cong refl)
      (simp add: vec_at_def bind_sum_def index at assms(2))
  then have run: "replay_verify_run args inputs outputs w = Inr (w + sum_list (map ?wrong ?reads))"
    by (simp only: sum_wrong_Inr)
  have "?wrong (s, r) = 0 \<longleftrightarrow> outputs ! (s * ?R + r) = inputs ! s" if "s < ?S" "r < ?R" for s r
    using verify_output_exact [OF dvd, of "inputs ! s" "outputs ! (s * ?R + r)"] assms(2,5) at [OF that] that by auto
  then have zero: "sum_list (map ?wrong ?reads) = 0 \<longleftrightarrow>
      (\<forall>s < ?S. \<forall>r < ?R. outputs ! (s * ?R + r) = inputs ! s)"
    by (auto simp: sum_list_eq_0_iff)
  show ?thesis by (intro exI conjI, rule run, rule zero)
qed

lemma replay_exit_status_success:
  "replay_exit_status args n ip op = EXIT_SUCCESS \<longleftrightarrow> n = 0 \<and>
     profile_num_streams ip = ra_num_streams args * ra_num_runs args \<and>
     profile_num_streams op = ra_num_streams args * ra_num_reads args * ra_num_runs args"
  by (auto simp: replay_exit_status_def EXIT_SUCCESS_def EXIT_FAILURE_def Let_def)

end
