(* ===== verification/Host_Device.thy ===== *)
theory Host_Device
  imports Host_Programs
begin

text \<open>
  The device as the example programs see it while they run: the counter of completed writes that
  they poll, the bytes it has written into host memory, and its registers. All three depend on
  the calls the driver was asked for so far, and are given. The programs wait for completions in a
  loop that ends only when the counter has exactly the value they expect; what they rely on is
  \<open>device_completes\<close>: the counter of the driver counts the writes posted since it was cleared.
\<close>

section \<open>The device\<close>

text \<open>
  \<open>dv_completed d cs k\<close> is what the \<open>k\<close>-th poll of the completed writes returns after the calls \<open>cs\<close>,
  \<open>dv_written d cs a\<close> the byte the device has written to address \<open>a\<close> since the host cleared its
  buffers (\<open>None\<close> when it has not), and \<open>dv_csr d cs\<close> are its registers.
\<close>

record device =
  dv_completed :: "cthread \<Rightarrow> nat \<Rightarrow> u64"
  dv_written :: "cthread \<Rightarrow> ptr \<Rightarrow> u8 option"
  dv_csr :: "cthread \<Rightarrow> csr"

text \<open>A buffer that was set to 0 and then received.\<close>

definition received_bytes :: "device \<Rightarrow> cthread \<Rightarrow> ptr \<Rightarrow> u64 \<Rightarrow> u8 list" where
  "received_bytes d cs p sz =
     map (\<lambda>i. case dv_written d cs (p + of_nat i) of None \<Rightarrow> 0 | Some b \<Rightarrow> b) [0 ..< unat sz]"

lemma length_received_bytes [simp]: "length (received_bytes d cs p sz) = unat sz"
  by (simp add: received_bytes_def)

text \<open>
  The loop \<open>while (cthread->checkCompleted(LOCAL_WRITE) != expected) {}\<close> from the \<open>k\<close>-th poll on; its
  result is the number of polls, \<open>None\<close> a loop that never ends.
\<close>

partial_function (option) wait_completed :: "(nat \<Rightarrow> u64) \<Rightarrow> u64 \<Rightarrow> nat \<Rightarrow> nat option" where
  "wait_completed completed expected k =
     (if completed k \<noteq> expected then wait_completed completed expected (Suc k) else Some (Suc k))"

declare wait_completed.simps [code]

lemma wait_completed_ends:
  assumes "completed n = expected" and "k \<le> n"
  shows "\<exists>m. wait_completed completed expected k = Some m \<and> k < m \<and> m \<le> Suc n"
  using assms(2)
proof (induction k rule: inc_induct)
  case base
  then show ?case using assms(1) by (subst wait_completed.simps) simp
next
  case (step k)
  then show ?case by (subst wait_completed.simps) auto
qed

lemma wait_completed_only_then:
  assumes "wait_completed completed expected k = Some m"
  shows "k < m \<and> completed (m - 1) = expected \<and> (\<forall>j. k \<le> j \<longrightarrow> j < m - 1 \<longrightarrow> completed j \<noteq> expected)"
proof (rule wait_completed.raw_induct [OF _ assms, of "\<lambda>completed expected k m. k < m \<and>
    completed (m - 1) = expected \<and> (\<forall>j. k \<le> j \<longrightarrow> j < m - 1 \<longrightarrow> completed j \<noteq> expected)"], goal_cases)
  case (1 wait completed expected k m)
  show ?case
  proof (cases "completed k = expected")
    case False
    then have m: "wait completed expected (Suc k) = Some m" using 1(2) by simp
    show ?thesis using 1(1) [OF m] False by (metis Suc_leI Suc_lessD le_neq_implies_less)
  qed (use 1(2) in auto)
qed

text \<open>The wait ends exactly when the counter takes the expected value at some poll.\<close>

lemma wait_completed_iff: "wait_completed completed expected 0 \<noteq> None \<longleftrightarrow> (\<exists>n. completed n = expected)"
  using wait_completed_ends [of completed _ expected 0] wait_completed_only_then [of completed expected 0] by auto

section \<open>Completions\<close>

definition since_clear :: "cthread \<Rightarrow> cthread" where
  "since_clear cs = rev (takeWhile (\<lambda>c. c \<noteq> ClearCompleted) (rev cs))"

fun is_write :: "coyote_call \<Rightarrow> bool" where
  "is_write (LocalWrite a n i l) = True"
| "is_write _ = False"

text \<open>The end of a stream that is sent.\<close>

fun is_last_read :: "coyote_call \<Rightarrow> bool" where
  "is_last_read (LocalRead a n i l) = l"
| "is_last_read _ = False"

definition num_writes :: "cthread \<Rightarrow> nat" where
  "num_writes cs = length (filter is_write (since_clear cs))"

definition num_sent_streams :: "cthread \<Rightarrow> nat" where
  "num_sent_streams cs = length (filter is_last_read (since_clear cs))"

text \<open>
  The driver counts every write it was asked for since the counter was cleared, and \<open>own\<close> writes that
  the design makes itself for every stream it receives.
\<close>

definition device_completes :: "device \<Rightarrow> u64 \<Rightarrow> bool" where
  "device_completes d own \<longleftrightarrow>
     (\<forall>cs. \<exists>k. dv_completed d cs k = of_nat (num_writes cs) + of_nat (num_sent_streams cs) * own)"

lemma since_clear_last: "ClearCompleted \<notin> set ds \<Longrightarrow> since_clear (cs @ ClearCompleted # ds) = ds"
  unfolding since_clear_def rev_append by (subst rev.simps, subst append_assoc, subst takeWhile_append2) auto

lemma since_clear_maps: "filter (Not \<circ> is_mapping) (since_clear cs) = since_clear (filter (Not \<circ> is_mapping) cs)"
proof (induction cs rule: rev_induct)
  case (snoc c cs)
  then show ?case by (cases c) (simp_all add: since_clear_def)
qed (simp add: since_clear_def)

lemma filter_posted:
  assumes "\<And>c. P c \<Longrightarrow> \<not> is_mapping c"
  shows "filter P (since_clear cs) = filter P (since_clear (filter (Not \<circ> is_mapping) cs))"
proof -
  have "filter P xs = filter P (filter (Not \<circ> is_mapping) xs)" for xs
    using assms by (induction xs) auto
  then show ?thesis by (metis since_clear_maps)
qed

lemma num_posted: "num_writes cs = num_writes (filter (Not \<circ> is_mapping) cs)"
  "num_sent_streams cs = num_sent_streams (filter (Not \<circ> is_mapping) cs)"
proof -
  have "is_write c \<Longrightarrow> \<not> is_mapping c" "is_last_read c \<Longrightarrow> \<not> is_mapping c" for c by (cases c; simp)+
  then show "num_writes cs = num_writes (filter (Not \<circ> is_mapping) cs)"
    "num_sent_streams cs = num_sent_streams (filter (Not \<circ> is_mapping) cs)"
    unfolding num_writes_def num_sent_streams_def by (metis filter_posted)+
qed

text \<open>The calls of a program other than mappings of pages.\<close>

definition program_calls :: "cthread \<Rightarrow> cthread" where
  "program_calls cs = filter (Not \<circ> is_mapping) cs"

lemma program_calls_posted: "program_calls (host_cthread h) = posted h"
  by (simp add: program_calls_def posted_def)

lemma call_posts:
  assumes "host_sound pinv h" and "\<not> is_mapping c"
  shows "\<exists>h'. posts pinv (on_cthread (call c)) h () [c] h'"
proof -
  have "on_cthread (call c) h = (Inr (), h\<lparr>host_cthread := host_cthread h @ [c]\<rparr>)"
    by (simp add: on_cthread_def onE_def call_apply)
  then show ?thesis using host_sound_calls [OF assms(1), of "[c]"] assms(2) by (auto simp: posts_def posted_def)
qed

text \<open>The completions of a program that has cleared the counter and then posted the calls \<open>ds\<close>.\<close>

lemma num_after_clear:
  assumes "posted h = cs @ ClearCompleted # ds" and "ClearCompleted \<notin> set ds"
  shows "num_writes (host_cthread h) = length (filter is_write ds)"
    "num_sent_streams (host_cthread h) = length (filter is_last_read ds)"
  using assms by (simp_all add: num_posted [of "host_cthread h"] posted_def [symmetric])
    (simp_all add: num_writes_def num_sent_streams_def since_clear_last)

lemma filter_transfer_calls [simp]:
  "filter is_write (write_calls i cs) = write_calls i cs" "filter is_write (read_calls i l cs) = []"
  "filter is_last_read (write_calls i cs) = []" "filter is_last_read (read_calls i False cs) = []"
  "ClearCompleted \<notin> set (write_calls i cs)" "ClearCompleted \<notin> set (read_calls i l cs)"
  "length (write_calls i cs) = length cs"
  by (induction cs) (auto simp: write_calls_def read_calls_def)

lemma length_chunks_of [simp]: "length (chunks_of mx p sz) = num_chunks (unat sz) (unat mx)"
  by (simp add: chunks_of_def)

text \<open>A range that is sent as a stream ends it once.\<close>

lemma one_last_read:
  assumes "0 < mx" and "unat sz + unat mx \<le> 2 ^ 64" and "no_wrap p sz" and "0 < sz"
  shows "length (filter is_last_read (read_calls i True (chunks_of mx p sz))) = 1"
proof -
  let ?n = "num_chunks (unat sz) (unat mx)" and ?l = "\<lambda>k. snd (snd (chunk_at mx p sz (of_nat k * mx)))"
  have l: "?l k \<longleftrightarrow> Suc k = ?n" if "k < ?n" for k
    using chunk_at_offset(4) [OF assms(1-3) that] by (metis prod.collapse)
  have "0 < ?n" using assms(1,4) by (intro num_chunks_pos) (simp_all add: word_pos_nat)
  then have "filter ?l [0 ..< ?n] = filter (\<lambda>k. Suc k = ?n) ([0 ..< ?n - 1] @ [?n - 1])"
    using l by (intro filter_cong) (simp_all flip: upt_Suc_append)
  also have "\<dots> = [?n - 1]" using \<open>0 < ?n\<close> by (auto simp: filter_empty_conv)
  finally have "length (filter ?l [0 ..< ?n]) = 1" by simp
  moreover have "(is_last_read \<circ> (\<lambda>(a, n, l). LocalRead a n i (l \<and> True))) \<circ> (\<lambda>k. chunk_at mx p sz (of_nat k * mx)) = ?l"
    by (auto simp: fun_eq_iff split: prod.splits)
  ultimately show ?thesis
    by (simp add: read_calls_def chunks_of_def filter_map comp_assoc)
qed

end
