(* ===== verification/Replay_Program.thy ===== *)
theory Replay_Program
  imports Replay_Example Host_Device
begin

text \<open>
  The program \<open>examples/03_replay_buffer/src/main.cpp\<close> as a whole: the generated input, the runs with their
  waits, the sums of the device's profiles, the comparisons, and \<open>main\<close> up to the exit status. The
  random numbers and the device are given; printing and the clock are left out.
\<close>

section \<open>The program\<close>

text \<open>The bytes of a 64-bit word in memory, which is little endian.\<close>

definition word_bytes :: "u64 \<Rightarrow> u8 list" where
  "word_bytes w = map (\<lambda>k. ucast (drop_bit (8 * k) w)) [0 ..< 8]"

text \<open>The input of every stream, filled with the numbers \<open>rng 0\<close>, \<open>rng 1\<close>, \<open>\<dots>\<close> of the generator.\<close>

definition replay_inputs :: "(nat \<Rightarrow> u64) \<Rightarrow> replay_args \<Rightarrow> u8 list list" where
  "replay_inputs rng args =
     (let n = unat (ra_stream_bytes args div 8) in
      map (\<lambda>stream. concat (map (\<lambda>i. word_bytes (rng (stream * n + i))) [0 ..< n]))
        [0 ..< unat (ra_num_streams args)])"

definition no_profile :: StreamProfile where
  "no_profile = \<lparr>handshake_cycles = 0, starved_cycles = 0, stalled_cycles = 0, idle_cycles = 0,
     profile_num_streams = 0\<rparr>"

text \<open>
  After the wait of a run: the profiles of the run are added and the outputs are compared, with the
  inputs as the program wrote them; nothing writes to the input buffers afterwards.
\<close>

definition replay_check ::
  "device \<Rightarrow> replay_args \<Rightarrow> replay \<Rightarrow> u8 list list \<Rightarrow> cthread \<Rightarrow> nat \<times> StreamProfile \<times> StreamProfile \<Rightarrow>
   cpp_error + nat \<times> StreamProfile \<times> StreamProfile" where
  "replay_check dev args rp inputs cs = (\<lambda>(num_wrong_values, input_profile, output_profile).
     bind_sum (read_profile (dv_csr dev cs) (rp_profile rp) 0) (\<lambda>p0.
     bind_sum (read_profile (dv_csr dev cs) (rp_profile rp) 1) (\<lambda>p1.
     bind_sum (replay_verify_run args inputs (map (\<lambda>b. received_bytes dev cs b (ra_stream_bytes args)) (rp_outputs rp))
       num_wrong_values) (\<lambda>num_wrong_values.
     Inr (num_wrong_values, add_profile input_profile p0, add_profile output_profile p1)))))"

text \<open>The loop over the runs; \<open>None\<close> is a run whose wait never ends.\<close>

fun replay_runs ::
  "device \<Rightarrow> u64 \<Rightarrow> 'p MemoryPool \<Rightarrow> replay_args \<Rightarrow> replay \<Rightarrow> u8 list list \<Rightarrow> nat \<Rightarrow>
   nat \<times> StreamProfile \<times> StreamProfile \<Rightarrow> 'p host \<Rightarrow>
   ((cpp_error + nat \<times> StreamProfile \<times> StreamProfile) \<times> 'p host) option" where
  "replay_runs dev mx ops args rp inputs 0 acc h = Some (Inr acc, h)"
| "replay_runs dev mx ops args rp inputs (Suc n) acc h =
     (case seqE (on_cthread (call ClearCompleted)) (\<lambda>_. replay_run mx ops args rp) h of
       (Inl e, h') \<Rightarrow> Some (Inl e, h')
     | (Inr num_writes_expected, h') \<Rightarrow>
         (case wait_completed (dv_completed dev (host_cthread h')) num_writes_expected 0 of
           None \<Rightarrow> None
         | Some _ \<Rightarrow>
             (case replay_check dev args rp inputs (host_cthread h') acc of
               Inl e \<Rightarrow> Some (Inl e, h')
             | Inr acc' \<Rightarrow> replay_runs dev mx ops args rp inputs n acc' h')))"

definition replay_main ::
  "csr \<Rightarrow> int \<Rightarrow> device \<Rightarrow> u64 \<Rightarrow> 'p MemoryPool \<Rightarrow> ('p \<Rightarrow> (ptr \<times> u64) option) \<Rightarrow> u64 \<Rightarrow> (nat \<Rightarrow> u64) \<Rightarrow>
   (char \<times> string) list \<Rightarrow> 'p host \<Rightarrow> ((cpp_error + int) \<times> 'p host) option" where
  "replay_main csr ctid dev mx ops huge ring_alignment rng opts h =
     (case replay_parse_args opts of
       Inl e \<Rightarrow> Some (Inl e, h)
     | Inr args \<Rightarrow>
         (case replay_setup csr ctid mx ops huge ring_alignment args h of
           (Inl e, h') \<Rightarrow> Some (Inl e, h')
         | (Inr rp, h') \<Rightarrow>
             map_option (map_prod (map_sum id (\<lambda>(num_wrong_values, input_profile, output_profile).
                 replay_exit_status args num_wrong_values input_profile output_profile)) id)
               (replay_runs dev mx ops args rp (replay_inputs rng args) (unat (ra_num_runs args))
                 (0, no_profile, no_profile) h')))"

section \<open>A run's calls and checks\<close>

definition replay_calls :: "u64 \<Rightarrow> replay_args \<Rightarrow> replay \<Rightarrow> cthread" where
  "replay_calls mx args rp =
     replicate (unat (ra_num_streams args))
        (SetCSR (ucast (ucast (ra_num_reads args) :: u32)) (addr_offset (rp_config rp) + 2)) @
      concat (map (\<lambda>b. write_calls 0 (chunks_of mx b (ra_stream_bytes args))) (rp_outputs rp)) @
      concat (map (\<lambda>b. read_calls 0 True (chunks_of mx b (ra_stream_bytes args))) (rp_inputs rp))"

lemma replay_calls_writes:
  "ClearCompleted \<notin> set (replay_calls mx args rp)"
  "length (filter is_write (replay_calls mx args rp)) =
     length (rp_outputs rp) * num_chunks (unat (ra_stream_bytes args)) (unat mx)"
proof -
  show "ClearCompleted \<notin> set (replay_calls mx args rp)" by (auto simp: replay_calls_def)
  have "length (filter is_write (concat (map (\<lambda>b. write_calls 0 (chunks_of mx b sz)) bs))) =
      length bs * num_chunks (unat sz) (unat mx)"
    "filter is_write (concat (map (\<lambda>b. read_calls 0 True (chunks_of mx b sz)) bs)) = []" for bs sz
    by (induction bs) simp_all
  then show "length (filter is_write (replay_calls mx args rp)) =
      length (rp_outputs rp) * num_chunks (unat (ra_stream_bytes args)) (unat mx)"
    by (simp add: replay_calls_def)
qed

lemma replay_calls_streams:
  assumes "0 < mx" and "unat (ra_stream_bytes args) + unat mx \<le> 2 ^ 64" and "0 < ra_stream_bytes args"
    and "\<forall>b \<in> set (rp_inputs rp). no_wrap b (ra_stream_bytes args)"
  shows "length (filter is_last_read (replay_calls mx args rp)) = length (rp_inputs rp)"
proof -
  have "filter is_last_read (concat (map (\<lambda>b. write_calls 0 (chunks_of mx b sz)) bs)) = []" for bs sz
    by (induction bs) simp_all
  moreover have "length (filter is_last_read (concat (map (\<lambda>b. read_calls 0 True
      (chunks_of mx b (ra_stream_bytes args))) bs))) = length bs"
    if "\<forall>b \<in> set bs. no_wrap b (ra_stream_bytes args)" for bs
    using that
  proof (induction bs)
    case (Cons b bs)
    then show ?case using one_last_read [OF assms(1,2) _ assms(3), of b 0] by simp
  qed simp
  ultimately show ?thesis using assms(4) by (simp add: replay_calls_def)
qed

text \<open>The registers of the profile with the number of streams, of the input (0) and the output (1).\<close>

definition profile_streams :: "device \<Rightarrow> replay \<Rightarrow> u32 \<Rightarrow> cthread \<Rightarrow> u64" where
  "profile_streams dev rp k cs = dv_csr dev cs (addr_offset (rp_profile rp) + (5 + 5 * k))"

lemma read_profile_returns:
  assumes "11 \<le> num_regs c"
  obtains p q where "read_profile csr c 0 = Inr p" "profile_num_streams p = csr (addr_offset c + 5)"
    "read_profile csr c 1 = Inr q" "profile_num_streams q = csr (addr_offset c + 10)"
proof -
  have "k < num_regs c" if "k < 11" for k using that assms by (rule order_less_le_trans)
  then show thesis
    using that by (simp add: read_profile_def read_register_def bind_sum_def ConfigRegister_of_def)
qed

lemma length_replay_inputs [simp]: "length (replay_inputs rng args) = unat (ra_num_streams args)"
  by (simp add: replay_inputs_def Let_def)

lemma replay_args_ok:
  assumes "replay_parse_args opts = Inr args"
  shows "0 < ra_stream_bytes args" "8 dvd unat (ra_stream_bytes args)" "0 < ra_num_reads args" "0 < ra_num_streams args"
proof -
  have ok: "ra_stream_bytes args \<noteq> 0" "ra_stream_bytes args mod 8 = 0" "ra_num_reads args \<noteq> 0" "ra_num_streams args \<noteq> 0"
    using assms by (auto simp: replay_parse_args_def bind_sum_def split: sum.splits if_splits)
  then have "unat (ra_stream_bytes args) mod 8 = 0" by (simp flip: unat_eq_0 add: unat_mod)
  with ok show "0 < ra_stream_bytes args" "8 dvd unat (ra_stream_bytes args)" "0 < ra_num_reads args"
    "0 < ra_num_streams args"
    by (simp_all add: mod_eq_0_iff_dvd word_gt_0)
qed

lemma replay_inputs_bytes:
  assumes "8 dvd unat (ra_stream_bytes args)" and "b \<in> set (replay_inputs rng args)"
  shows "length b = unat (ra_stream_bytes args)"
proof -
  have "length (concat (map (\<lambda>i. word_bytes (f i)) [0 ..< n])) = 8 * n" for f :: "nat \<Rightarrow> u64" and n
    by (induction n) (simp_all add: word_bytes_def)
  then show ?thesis using assms by (auto simp: replay_inputs_def Let_def unat_div)
qed

text \<open>All reads of all streams have arrived: each output buffer holds the input of its stream.\<close>

definition replays_right :: "device \<Rightarrow> replay_args \<Rightarrow> replay \<Rightarrow> u8 list list \<Rightarrow> cthread \<Rightarrow> bool" where
  "replays_right dev args rp inputs cs \<longleftrightarrow>
     (\<forall>s < unat (ra_num_streams args). \<forall>r < unat (ra_num_reads args).
        received_bytes dev cs (rp_outputs rp ! (s * unat (ra_num_reads args) + r)) (ra_stream_bytes args) = inputs ! s)"

lemma replay_check_returns:
  assumes "replay_parse_args opts = Inr args" and "11 \<le> num_regs (rp_profile rp)"
    and "length (rp_outputs rp) = unat (ra_num_streams args) * unat (ra_num_reads args)"
    and "unat (ra_num_streams args) * unat (ra_num_reads args) < 2 ^ 64"
  obtains w' ip' op' where "replay_check dev args rp (replay_inputs rng args) cs (w, ip, op) = Inr (w', ip', op')"
    "w' = 0 \<longleftrightarrow> w = 0 \<and> replays_right dev args rp (replay_inputs rng args) cs"
    "profile_num_streams ip' = profile_num_streams ip + profile_streams dev rp 0 cs"
    "profile_num_streams op' = profile_num_streams op + profile_streams dev rp 1 cs"
proof -
  let ?outs = "map (\<lambda>b. received_bytes dev cs b (ra_stream_bytes args)) (rp_outputs rp)"
  have at: "s * unat (ra_num_reads args) + r < length (rp_outputs rp)"
    if "s < unat (ra_num_streams args)" "r < unat (ra_num_reads args)" for s r
    using mult_le_mono1 [of "Suc s" "unat (ra_num_streams args)" "unat (ra_num_reads args)"] that assms(3) by simp
  have "\<forall>b \<in> set (replay_inputs rng args) \<union> set ?outs. length b = unat (ra_stream_bytes args)"
    using replay_inputs_bytes [OF replay_args_ok(2) [OF assms(1)]] by auto
  from replay_verify_run_exact [OF assms(1) length_replay_inputs _ _ this, of w] assms(3,4)
  obtain n where n: "replay_verify_run args (replay_inputs rng args) ?outs w = Inr (w + n)"
    "n = 0 \<longleftrightarrow> (\<forall>s < unat (ra_num_streams args). \<forall>r < unat (ra_num_reads args).
       ?outs ! (s * unat (ra_num_reads args) + r) = replay_inputs rng args ! s)"
    by auto
  then have "n = 0 \<longleftrightarrow> replays_right dev args rp (replay_inputs rng args) cs"
    using at by (simp add: replays_right_def)
  moreover obtain p q where "read_profile (dv_csr dev cs) (rp_profile rp) 0 = Inr p"
    "profile_num_streams p = dv_csr dev cs (addr_offset (rp_profile rp) + 5)"
    "read_profile (dv_csr dev cs) (rp_profile rp) 1 = Inr q"
    "profile_num_streams q = dv_csr dev cs (addr_offset (rp_profile rp) + 10)"
    using read_profile_returns [OF assms(2)] .
  ultimately show thesis
    using that n(1) by (simp add: replay_check_def bind_sum_def add_profile_def profile_streams_def)
qed

context memory_pool
begin

text \<open>One run: the calls it makes, the wait that ends and the check.\<close>

lemma replay_one_run:
  assumes "host_sound pool_inv h" and "replay_parse_args opts = Inr args"
    and "\<forall>b \<in> set (rp_inputs rp @ rp_outputs rp). live (host_pool h) b = Some (ra_stream_bytes args)"
    and "0 < mx" and "unat (ra_stream_bytes args) + unat mx \<le> 2 ^ 64"
    and "0 < num_buffers (rp_config rp)" and "0 < (ucast (ra_num_reads args) :: u32)" and "2 < num_regs (rp_config rp)"
    and "11 \<le> num_regs (rp_profile rp)" and "length (rp_inputs rp) = unat (ra_num_streams args)"
    and "length (rp_outputs rp) = unat (ra_num_streams args) * unat (ra_num_reads args)"
    and "unat (ra_num_streams args) * unat (ra_num_reads args) < 2 ^ 64"
    and "device_completes dev (rp_stream_transfers rp)"
  obtains h1 m target w1 ip1 op1
  where "seqE (on_cthread (call ClearCompleted)) (\<lambda>_. replay_run mx ops args rp) h = (Inr target, h1)"
    and "host_sound pool_inv h1" and "host_pool h1 = host_pool h"
    and "posted h1 = posted h @ ClearCompleted # replay_calls mx args rp"
    and "wait_completed (dv_completed dev (host_cthread h1)) target 0 = Some m"
    and "replay_check dev args rp (replay_inputs rng args) (host_cthread h1) (w, ip, op) = Inr (w1, ip1, op1)"
    and "w1 = 0 \<longleftrightarrow> w = 0 \<and> replays_right dev args rp (replay_inputs rng args) (host_cthread h1)"
    and "profile_num_streams ip1 = profile_num_streams ip + profile_streams dev rp 0 (host_cthread h1)"
    and "profile_num_streams op1 = profile_num_streams op + profile_streams dev rp 1 (host_cthread h1)"
proof -
  let ?N = "of_nat (length (rp_outputs rp) * num_chunks (unat (ra_stream_bytes args)) (unat mx)) +
    ra_num_streams args * rp_stream_transfers rp"
  obtain h0 where h0: "posts pool_inv (on_cthread (call ClearCompleted)) h () [ClearCompleted] h0"
    using call_posts [OF assms(1), of ClearCompleted] by auto
  then have s0: "host_sound pool_inv h0" "host_pool h0 = host_pool h" by (simp_all add: posts_def)
  obtain h1 where h1: "posts pool_inv (replay_run mx ops args rp) h0 ?N (replay_calls mx args rp) h1"
    using replay_run_posts [OF s0(1) _ assms(4-8)] assms(3) s0(2) unfolding replay_calls_def by auto
  from posts_seq [OF h0 h1]
  have run: "seqE (on_cthread (call ClearCompleted)) (\<lambda>_. replay_run mx ops args rp) h = (Inr ?N, h1)"
    and s1: "host_sound pool_inv h1" "host_pool h1 = host_pool h" and p1: "posted h1 = posted h @ ClearCompleted # replay_calls mx args rp"
    using s0(2) h1 by (simp_all add: posts_def)
  have "\<forall>b \<in> set (rp_inputs rp). no_wrap b (ra_stream_bytes args)"
    using assms(1,3) live_block [of "host_pool h"] by (auto simp: host_sound_def)
  note num = num_after_clear [OF p1 replay_calls_writes(1)] replay_calls_writes(2) [of mx args rp]
    replay_calls_streams [OF assms(4,5) replay_args_ok(1) [OF assms(2)] this]
  have "\<exists>k. dv_completed dev (host_cthread h1) k = ?N"
    using assms(13) [unfolded device_completes_def, rule_format, of "host_cthread h1"] by (simp add: num assms(10))
  then obtain m where m: "wait_completed (dv_completed dev (host_cthread h1)) ?N 0 = Some m"
    using wait_completed_iff by blast
  show thesis
    by (rule replay_check_returns [OF assms(2,9,11,12)]) (rule that [OF run s1 p1 m])
qed

lemma replay_runs_all:
  assumes "host_sound pool_inv h" and "replay_parse_args opts = Inr args"
    and "\<forall>b \<in> set (rp_inputs rp @ rp_outputs rp). live p b = Some (ra_stream_bytes args)"
    and "0 < mx" and "unat (ra_stream_bytes args) + unat mx \<le> 2 ^ 64"
    and "0 < num_buffers (rp_config rp)" and "0 < (ucast (ra_num_reads args) :: u32)" and "2 < num_regs (rp_config rp)"
    and "11 \<le> num_regs (rp_profile rp)" and "length (rp_inputs rp) = unat (ra_num_streams args)"
    and "length (rp_outputs rp) = unat (ra_num_streams args) * unat (ra_num_reads args)"
    and "unat (ra_num_streams args) * unat (ra_num_reads args) < 2 ^ 64"
    and "device_completes dev (rp_stream_transfers rp)" and "host_pool h = p"
  shows "\<exists>css w' ip' op' h'. length css = n \<and>
    replay_runs dev mx ops args rp (replay_inputs rng args) n (w, ip, op) h = Some (Inr (w', ip', op'), h') \<and>
    host_sound pool_inv h' \<and>
    (\<forall>k < n. program_calls (css ! k) =
       posted h @ concat (replicate (Suc k) (ClearCompleted # replay_calls mx args rp))) \<and>
    (w' = 0 \<longleftrightarrow> w = 0 \<and> (\<forall>cs \<in> set css. replays_right dev args rp (replay_inputs rng args) cs)) \<and>
    profile_num_streams ip' = profile_num_streams ip + (\<Sum>cs \<leftarrow> css. profile_streams dev rp 0 cs) \<and>
    profile_num_streams op' = profile_num_streams op + (\<Sum>cs \<leftarrow> css. profile_streams dev rp 1 cs)"
  using assms(1,14)
proof (induction n arbitrary: h w ip op)
  case 0
  then show ?case by simp
next
  case (Suc n)
  let ?ds = "replay_calls mx args rp"
  have "\<forall>b \<in> set (rp_inputs rp @ rp_outputs rp). live (host_pool h) b = Some (ra_stream_bytes args)"
    using assms(3) Suc.prems(2) by simp
  note one = replay_one_run [OF Suc.prems(1) assms(2) this assms(4-13)]
  obtain h1 m N w1 ip1 op1
    where run: "seqE (on_cthread (call ClearCompleted)) (\<lambda>_. replay_run mx ops args rp) h = (Inr N, h1)"
      and s1: "host_sound pool_inv h1" "host_pool h1 = host_pool h" and p1: "posted h1 = posted h @ ClearCompleted # ?ds"
      and m: "wait_completed (dv_completed dev (host_cthread h1)) N 0 = Some m"
      and c: "replay_check dev args rp (replay_inputs rng args) (host_cthread h1) (w, ip, op) = Inr (w1, ip1, op1)"
        "w1 = 0 \<longleftrightarrow> w = 0 \<and> replays_right dev args rp (replay_inputs rng args) (host_cthread h1)"
        "profile_num_streams ip1 = profile_num_streams ip + profile_streams dev rp 0 (host_cthread h1)"
        "profile_num_streams op1 = profile_num_streams op + profile_streams dev rp 1 (host_cthread h1)"
    by (rule one) (rule that)
  let ?cs = "host_cthread h1"
  have p: "host_pool h1 = p" using s1(2) Suc.prems(2) by simp
  obtain css w' ip' op' h' where ih: "length css = n"
    "replay_runs dev mx ops args rp (replay_inputs rng args) n (w1, ip1, op1) h1 = Some (Inr (w', ip', op'), h')"
    "host_sound pool_inv h'"
    "\<forall>k < n. program_calls (css ! k) = posted h1 @ concat (replicate (Suc k) (ClearCompleted # ?ds))"
    "w' = 0 \<longleftrightarrow> w1 = 0 \<and> (\<forall>cs \<in> set css. replays_right dev args rp (replay_inputs rng args) cs)"
    "profile_num_streams ip' = profile_num_streams ip1 + (\<Sum>cs \<leftarrow> css. profile_streams dev rp 0 cs)"
    "profile_num_streams op' = profile_num_streams op1 + (\<Sum>cs \<leftarrow> css. profile_streams dev rp 1 cs)"
    using Suc.IH [OF s1(1) p, where w = w1 and ip = ip1 and op = op1] by (elim exE conjE) (rule that)
  have calls: "\<forall>k < Suc n. program_calls ((?cs # css) ! k) =
       posted h @ concat (replicate (Suc k) (ClearCompleted # ?ds))"
    using ih(4) p1 by (simp add: nth_Cons program_calls_posted split: nat.splits)
  have loop: "replay_runs dev mx ops args rp (replay_inputs rng args) (Suc n) (w, ip, op) h = Some (Inr (w', ip', op'), h')"
    by (simp only: replay_runs.simps run m c(1) ih(2) prod.case sum.case option.case)
  have right: "w' = 0 \<longleftrightarrow> w = 0 \<and>
      (\<forall>cs \<in> set (?cs # css). replays_right dev args rp (replay_inputs rng args) cs)"
    unfolding ih(5) c(2) by simp
  have sums: "profile_num_streams ip' = profile_num_streams ip + (\<Sum>cs \<leftarrow> ?cs # css. profile_streams dev rp 0 cs)"
    "profile_num_streams op' = profile_num_streams op + (\<Sum>cs \<leftarrow> ?cs # css. profile_streams dev rp 1 cs)"
    using ih(6,7) c(3,4) by (simp_all add: add.assoc)
  have "length (?cs # css) = Suc n" by (simp add: ih(1))
  then show ?case using loop ih(3) calls right sums by (intro exI conjI)
qed

end

section \<open>Properties\<close>

text \<open>C26. The replay program's verdict: over any pool, when the preparation returns, and the driver counts the
  writes it was asked for and one more for each transfer of each stream that the replay buffer
  stores, every wait of the program ends and \<open>main\<close> returns. Before the wait of each run the driver has
  been asked for exactly the calls of all runs so far. The program ends with success exactly when
  after each of these waits every output buffer holds, byte by byte, the input of its stream, and the
  profiles read after the runs sum up to the numbers of streams sent and received.\<close>

theorem replay_program_verdict:
  assumes "memory_pool ops pool_inv live" and "host_sound pool_inv h" and "huge_range_ok ops pool_inv huge"
    and "replay_parse_args opts = Inr args" and "unat (ra_stream_bytes args) \<le> max_request"
    and "0 < ra_ring_bytes args" and "unat (ra_ring_bytes args) + unat al \<le> max_request" and "valid_alignment al"
    and "replay_setup csr ctid mx ops huge al args h = (Inr rp, h1)"
    and "0 < mx" and "unat mx \<le> 2 ^ 63"
    and "0 < num_buffers (rp_config rp)" and "0 < (ucast (ra_num_reads args) :: u32)" and "2 < num_regs (rp_config rp)"
    and "11 \<le> num_regs (rp_profile rp)" and "unat (ra_num_streams args) * unat (ra_num_reads args) < 2 ^ 64"
    and "device_completes dev (rp_stream_transfers rp)"
  shows "\<exists>css st h2. length css = unat (ra_num_runs args) \<and>
    (\<forall>k < length css. program_calls (css ! k) =
       posted h1 @ concat (replicate (Suc k) (ClearCompleted # replay_calls mx args rp))) \<and>
    replay_main csr ctid dev mx ops huge al rng opts h = Some (Inr st, h2) \<and> host_sound pool_inv h2 \<and>
    (st = EXIT_SUCCESS \<longleftrightarrow>
       (\<forall>cs \<in> set css. replays_right dev args rp (replay_inputs rng args) cs) \<and>
       (\<Sum>cs \<leftarrow> css. profile_streams dev rp 0 cs) = ra_num_streams args * ra_num_runs args \<and>
       (\<Sum>cs \<leftarrow> css. profile_streams dev rp 1 cs) = ra_num_streams args * ra_num_reads args * ra_num_runs args)"
proof -
  from wpD_Inr [OF memory_pool.wp_replay_setup [OF assms(1-3,8) replay_args_ok(1) [OF assms(4)] assms(5-7) refl] assms(9)]
  obtain p1 where prep: "host_sound pool_inv h1" "length (rp_inputs rp) = unat (ra_num_streams args)"
    "length (rp_outputs rp) = unat (ra_num_streams args * ra_num_reads args)"
    "new_blocks live (rp_inputs rp @ rp_outputs rp) (ra_stream_bytes args) p1 (host_pool h1)"
    by blast
  have blocks: "\<forall>b \<in> set (rp_inputs rp @ rp_outputs rp). live (host_pool h1) b = Some (ra_stream_bytes args)"
    using new_blocks_live(1) [OF prep(4)] by blast
  have room: "unat (ra_stream_bytes args) + unat mx \<le> 2 ^ 64" using assms(5,11) by (simp add: max_request_def)
  have outs: "length (rp_outputs rp) = unat (ra_num_streams args) * unat (ra_num_reads args)"
    using prep(3) assms(16) by (simp add: unat_word_ariths(2))
  from memory_pool.replay_runs_all [OF assms(1) prep(1) assms(4) blocks assms(10) room assms(12-15) prep(2) outs
      assms(16,17) refl, of "unat (ra_num_runs args)" rng 0 no_profile no_profile]
  obtain css w' ip' op' h2 where run: "length css = unat (ra_num_runs args)"
    "replay_runs dev mx ops args rp (replay_inputs rng args) (unat (ra_num_runs args)) (0, no_profile, no_profile) h1 =
       Some (Inr (w', ip', op'), h2)" "host_sound pool_inv h2"
    "\<forall>k < unat (ra_num_runs args). program_calls (css ! k) =
       posted h1 @ concat (replicate (Suc k) (ClearCompleted # replay_calls mx args rp))"
    "w' = 0 \<longleftrightarrow> (0 :: nat) = 0 \<and> (\<forall>cs \<in> set css. replays_right dev args rp (replay_inputs rng args) cs)"
    "profile_num_streams ip' = profile_num_streams no_profile + (\<Sum>cs \<leftarrow> css. profile_streams dev rp 0 cs)"
    "profile_num_streams op' = profile_num_streams no_profile + (\<Sum>cs \<leftarrow> css. profile_streams dev rp 1 cs)"
    by (elim exE conjE) (rule that)
  let ?st = "replay_exit_status args w' ip' op'"
  have "replay_main csr ctid dev mx ops huge al rng opts h = Some (Inr ?st, h2)"
    by (simp add: replay_main_def assms(4,9) run(2))
  moreover have "?st = EXIT_SUCCESS \<longleftrightarrow>
       (\<forall>cs \<in> set css. replays_right dev args rp (replay_inputs rng args) cs) \<and>
       (\<Sum>cs \<leftarrow> css. profile_streams dev rp 0 cs) = ra_num_streams args * ra_num_runs args \<and>
       (\<Sum>cs \<leftarrow> css. profile_streams dev rp 1 cs) = ra_num_streams args * ra_num_reads args * ra_num_runs args"
    using run(5-7) by (simp add: replay_exit_status_success no_profile_def)
  ultimately show ?thesis using run(1,3,4) by (intro exI conjI) simp_all
qed

text \<open>A device that counts everything but sends nothing back: the program returns, with a failure.\<close>

definition dead_device :: device where
  "dead_device = \<lparr>dv_completed = (\<lambda>cs _. of_nat (num_writes cs) + of_nat (num_sent_streams cs) * 2),
     dv_written = (\<lambda>_ _. None), dv_csr = (\<lambda>_ _. 0)\<rparr>"

theorem replay_program_verdict_witness:
  "\<exists>st h2. replay_main example_csr 0 dead_device 64 SimpleMemoryPool_ops (\<lambda>_. None) 64 (\<lambda>_. 7) example_opts program_host =
      Some (Inr st, h2) \<and> host_sound sp_inv h2 \<and> st \<noteq> EXIT_SUCCESS"
proof -
  have huge: "huge_range_ok SimpleMemoryPool_ops sp_inv (\<lambda>_. None)" by (simp add: huge_range_ok_def)
  have dev: "device_completes dead_device (rp_stream_transfers example_replay)"
    by (simp add: device_completes_def dead_device_def example_replay_def)
  have v: "unat (ra_stream_bytes example_args) = 128" "ra_ring_bytes example_args = 4096" "ra_num_streams example_args = 1"
    "ra_num_reads example_args = 2" "ra_num_runs example_args = 3"
    by (simp_all add: example_args_def replay_default_args_def)
  obtain css st h2 where r: "length css = 3"
    "replay_main example_csr 0 dead_device 64 SimpleMemoryPool_ops (\<lambda>_. None) 64 (\<lambda>_. 7) example_opts program_host =
      Some (Inr st, h2)" "host_sound sp_inv h2"
    "st = EXIT_SUCCESS \<Longrightarrow> (\<Sum>cs \<leftarrow> css. profile_streams dead_device example_replay 0 cs) = 3"
    using replay_program_verdict [OF simple_pool.memory_pool_axioms program_host_sound huge example_args _ _ _
        valid_alignment_64 example_setup _ _ _ _ _ _ _ dev, of "\<lambda>_. 7"]
    by (auto simp: v max_request_def) (auto simp: example_replay_def)
  have "profile_streams dead_device rp k cs = 0" for rp k cs by (simp add: profile_streams_def dead_device_def)
  then have "(\<Sum>cs \<leftarrow> css. profile_streams dead_device example_replay 0 cs) = 0" by simp
  with r show ?thesis by auto
qed

end
