(* ===== verification/Dictionary_Example.thy ===== *)
theory Dictionary_Example
  imports Host_Programs
begin

text \<open>
  The program \<open>examples/02_typed_dictionary/src/main.cpp\<close>: it sends the entries of a dictionary and a
  list of ids to the device, which sends back the entry of each id. The model has the argument
  checks, the ids with the option \<open>--distinct\<close>, the entries, the transfers of a run and the
  verification. The random draws are a list that is given, and the parser of the Zipf skew is a
  parameter, as are the floating-point numbers it returns.
\<close>

section \<open>Arguments\<close>

definition DICT_ID_BITS :: nat where "DICT_ID_BITS = 18"
definition NUM_BANKS :: u64 where "NUM_BANKS = 16"
definition IDS_PER_BEAT :: u64 where "IDS_PER_BEAT = 16"

record 'd dict_args =
  da_value_bits :: u64
  da_num_values :: u64
  da_num_ids :: u64
  da_zipf :: 'd
  da_num_runs :: u64
  da_seed :: u64
  da_distinct :: bool

definition dict_default_args :: "'d \<Rightarrow> 'd dict_args" where
  "dict_default_args zero = \<lparr>da_value_bits = 32, da_num_values = push_bit 17 1, da_num_ids = 16 * 1024 * 1024,
     da_zipf = zero, da_num_runs = 5, da_seed = 42, da_distinct = False\<rparr>"

fun dict_options ::
  "(string \<Rightarrow> cpp_error + 'd) \<Rightarrow> (char \<times> string) list \<Rightarrow> 'd dict_args \<Rightarrow> cpp_error + 'd dict_args" where
  "dict_options stod [] args = Inr args"
| "dict_options stod ((opt, optarg) # opts) args =
     (if opt = CHR ''t'' then bind_sum (stoul optarg) (\<lambda>v. dict_options stod opts (args\<lparr>da_value_bits := v\<rparr>))
      else if opt = CHR ''v'' then bind_sum (stoul optarg) (\<lambda>v. dict_options stod opts (args\<lparr>da_num_values := v\<rparr>))
      else if opt = CHR ''i'' then bind_sum (stoul optarg) (\<lambda>v. dict_options stod opts (args\<lparr>da_num_ids := v\<rparr>))
      else if opt = CHR ''z'' then bind_sum (stod optarg) (\<lambda>v. dict_options stod opts (args\<lparr>da_zipf := v\<rparr>))
      else if opt = CHR ''d'' then dict_options stod opts (args\<lparr>da_distinct := True\<rparr>)
      else if opt = CHR ''r'' then bind_sum (stoul optarg) (\<lambda>v. dict_options stod opts (args\<lparr>da_num_runs := v\<rparr>))
      else if opt = CHR ''s'' then bind_sum (stoul optarg) (\<lambda>v. dict_options stod opts (args\<lparr>da_seed := v\<rparr>))
      else if opt = CHR ''h'' then Inl (Exit 0)
      else Inl (Exit 1))"

definition dict_parse_args ::
  "(string \<Rightarrow> cpp_error + 'd) \<Rightarrow> 'd \<Rightarrow> (char \<times> string) list \<Rightarrow> cpp_error + 'd dict_args" where
  "dict_parse_args stod zero opts =
     bind_sum (dict_options stod opts (dict_default_args zero)) (\<lambda>args.
     if da_value_bits args \<noteq> 32 \<and> da_value_bits args \<noteq> 64 then Inl (Exit 1)
     else
       let capacity = push_bit (if da_value_bits args = 32 then DICT_ID_BITS else DICT_ID_BITS - 1) 1
       in if da_num_values args = 0 \<or> da_num_values args > capacity then Inl (Exit 1)
          else if da_distinct args \<and> da_num_values args < NUM_BANKS then Inl (Exit 1)
          else Inr (args\<lparr>da_num_ids :=
                 (da_num_ids args + IDS_PER_BEAT - 1) div IDS_PER_BEAT * IDS_PER_BEAT\<rparr>))"

section \<open>Ids, entries and verification\<close>

text \<open>The loop over the drawn ids with the option \<open>--distinct\<close>; \<open>next_slot\<close> has one counter per bank.\<close>

fun spread_ids :: "u64 \<Rightarrow> u32 list \<Rightarrow> u32 list \<Rightarrow> u32 list" where
  "spread_ids slots_per_bank next_slot [] = []"
| "spread_ids slots_per_bank next_slot (d # ds) =
     (let bank = ucast ((ucast d :: u64) mod NUM_BANKS) :: u32;
          slot = next_slot ! unat bank;
          d' = ucast ((ucast slot :: u64) * NUM_BANKS + ucast bank) :: u32;
          next_slot' = next_slot[unat bank := ucast ((ucast (slot + 1) :: u64) mod slots_per_bank)]
      in d' # spread_ids slots_per_bank next_slot' ds)"

text \<open>\<open>drawn\<close> are the ids drawn from the uniform or the Zipf distribution.\<close>

definition generate_ids :: "'d dict_args \<Rightarrow> u32 list \<Rightarrow> u32 list" where
  "generate_ids args drawn =
     (if da_distinct args
      then spread_ids (da_num_values args div NUM_BANKS) (replicate (unat NUM_BANKS) 0) drawn
      else drawn)"

definition fill_values :: "nat \<Rightarrow> 'a :: len word list" where
  "fill_values num_values =
     map (\<lambda>i. ucast ((of_nat i :: u64) * 0x9E3779B97F4A7C15 + 1)) [0 ..< num_values]"

definition dict_verify_output :: "'a :: len word list \<Rightarrow> u32 list \<Rightarrow> 'a word list \<Rightarrow> nat" where
  "dict_verify_output vals ids output =
     length (filter (\<lambda>i. output ! i \<noteq> vals ! unat (ids ! i)) [0 ..< length ids])"

section \<open>A run\<close>

definition dict_allocate :: "'p MemoryPool \<Rightarrow> 'd dict_args \<Rightarrow> ('p host, ptr \<times> ptr \<times> ptr) action" where
  "dict_allocate ops args =
     (let value_bytes = da_value_bits args div 8;
          values_size = da_num_values args * value_bytes;
          ids_size = da_num_ids args * 4;
          output_size = da_num_ids args * value_bytes
      in
      seqE (on_pool (pool_allocate_default ops values_size nullptr)) (\<lambda>(st, vals).
      if \<not> status_ok st then throw (Exit EXIT_FAILURE) else
      seqE (on_pool (pool_allocate_default ops ids_size nullptr)) (\<lambda>(st, ids_buffer).
      if \<not> status_ok st then throw (Exit EXIT_FAILURE) else
      seqE (on_pool (pool_allocate_default ops output_size nullptr)) (\<lambda>(st, output).
      if \<not> status_ok st then throw (Exit EXIT_FAILURE) else ret (vals, ids_buffer, output)))))"

text \<open>The stream configuration of the design; the assertions are those of the code.\<close>

definition dict_stream_config :: "csr \<Rightarrow> cpp_error + StreamConfig" where
  "dict_stream_config csr =
     bind_sum (GlobalConfig_init csr) (\<lambda>global_config.
     if system_id global_config \<noteq> 0 then Inl AssertionFailure
     else
       case get_config csr StreamConfig_class global_config of
         (Inr (AStream stream_config), _) \<Rightarrow>
           if sc_num_streams stream_config = 1 then Inr stream_config else Inl AssertionFailure
       | (Inl e, _) \<Rightarrow> Inl e
       | _ \<Rightarrow> Inl UndefinedBehaviour)"

text \<open>The program up to its buffers; \<open>huge\<close> is the range of the pool when it is one of huge pages.\<close>

definition dict_setup ::
  "csr \<Rightarrow> 'p MemoryPool \<Rightarrow> ('p \<Rightarrow> (ptr \<times> u64) option) \<Rightarrow> 'd dict_args \<Rightarrow>
   ('p host, StreamConfig \<times> ptr \<times> ptr \<times> ptr) action" where
  "dict_setup csr ops huge args =
     seqE (liftE (dict_stream_config csr)) (\<lambda>stream_config.
     seqE (premap_huge_pool ops huge) (\<lambda>_.
     seqE (dict_allocate ops args) (\<lambda>(vals, ids_buffer, output).
     ret (stream_config, vals, ids_buffer, output))))"

text \<open>The number of completed writes the host waits for.\<close>

definition dict_run ::
  "u64 \<Rightarrow> 'p MemoryPool \<Rightarrow> StreamConfig \<Rightarrow> 'd dict_args \<Rightarrow> ptr \<Rightarrow> ptr \<Rightarrow> ptr \<Rightarrow> ('p host, u64) action" where
  "dict_run mx ops sc args vals ids_buffer output =
     (let value_bytes = da_value_bits args div 8;
          value_type = (if da_value_bits args = 32 then INT32_T else INT64_T)
      in
      seqE (on_cthread (enqueue_stream_config sc 0 value_type 0)) (\<lambda>_.
      seqE (enqueue_stream_output mx ops output (da_num_ids args * value_bytes) 0) (\<lambda>num_output_transfers.
      seqE (enqueue_stream_input mx ops vals (da_num_values args * value_bytes) 0 True) (\<lambda>_.
      seqE (enqueue_stream_input mx ops ids_buffer (da_num_ids args * 4) 1 True) (\<lambda>_.
      ret num_output_transfers)))))"

section \<open>The ids of one bank\<close>

definition bank_of :: "u32 \<Rightarrow> nat" where
  "bank_of d = unat d mod 16"

text \<open>How many of the ids belong to a bank.\<close>

definition hits :: "nat \<Rightarrow> u32 list \<Rightarrow> nat" where
  "hits b ds = length (filter (\<lambda>d. bank_of d = b) ds)"

lemma hits_simps [simp]: "hits b [] = 0" "hits b (d # ds) = (if bank_of d = b then Suc (hits b ds) else hits b ds)"
  by (simp_all add: hits_def)

lemma hits_append: "hits b (as @ bs) = hits b as + hits b bs"
  by (simp add: hits_def)

lemma hits_le: "hits b ds \<le> length ds"
  by (simp add: hits_def)

lemma unat_small_32: "unat (x :: u64) < 2 ^ 32 \<Longrightarrow> unat (ucast x :: u32) = unat x"
  by (simp add: unsigned_ucast_eq take_bit_nat_eq_self)

lemma spread_step:
  fixes slot d :: u32
  assumes "unat slot < unat s" and "unat s \<le> 2 ^ 28"
  defines "bank \<equiv> ucast ((ucast d :: u64) mod NUM_BANKS) :: u32"
  shows "unat bank = bank_of d"
    "unat (ucast ((ucast (slot :: u32) :: u64) * NUM_BANKS + ucast bank) :: u32) = unat slot * 16 + bank_of d"
    "unat (ucast ((ucast (slot + 1) :: u64) mod s) :: u32) = Suc (unat slot) mod unat s"
proof -
  have m: "unat ((ucast d :: u64) mod NUM_BANKS) = bank_of d"
    by (simp add: NUM_BANKS_def unat_mod unat_ucast_32_64 bank_of_def)
  have b16: "bank_of d < 16" by (simp add: bank_of_def)
  show b: "unat bank = bank_of d" unfolding bank_def using m b16 by (subst unat_small_32) simp_all
  have mul: "unat ((ucast slot :: u64) * NUM_BANKS) = unat slot * 16"
    unfolding unat_word_ariths(2) using assms(1,2) by (simp add: NUM_BANKS_def unat_ucast_32_64)
  have sum: "unat ((ucast slot :: u64) * NUM_BANKS + ucast bank) = unat slot * 16 + bank_of d"
    using assms(1,2) b16 by (subst unat_add_no_wrap) (simp_all add: mul b unat_ucast_32_64)
  show "unat (ucast ((ucast slot :: u64) * NUM_BANKS + ucast bank) :: u32) = unat slot * 16 + bank_of d"
    using sum assms(1,2) b16 by (subst unat_small_32) simp_all
  have "unat (slot + 1) = Suc (unat slot)" using assms(1,2) by (subst unat_add_no_wrap) simp_all
  then have n: "unat ((ucast (slot + 1) :: u64) mod s) = Suc (unat slot) mod unat s"
    by (simp add: unat_mod unat_ucast_32_64)
  have "Suc (unat slot) mod unat s < 2 ^ 32"
    using assms(1,2) by (intro le_less_trans [OF mod_le_divisor]) simp_all
  then show "unat (ucast ((ucast (slot + 1) :: u64) mod s) :: u32) = Suc (unat slot) mod unat s"
    using n by (subst unat_small_32) simp_all
qed

lemma spread_ids_nth:
  assumes "length next_slot = 16" and "\<forall>b < 16. unat (next_slot ! b) < unat s" and "unat s \<le> 2 ^ 28"
    and "k < length ds"
  shows "unat (spread_ids s next_slot ds ! k) =
    (unat (next_slot ! bank_of (ds ! k)) + hits (bank_of (ds ! k)) (take k ds)) mod unat s * 16 + bank_of (ds ! k)"
  using assms
proof (induction ds arbitrary: next_slot k)
  case (Cons d ds)
  let ?b = "bank_of d"
  let ?next = "next_slot[?b := ucast ((ucast (next_slot ! ?b + 1) :: u64) mod s) :: u32]"
  have b: "?b < 16" by (simp add: bank_of_def)
  then have slot: "unat (next_slot ! ?b) < unat s" using Cons.prems(2) by simp
  note step = spread_step(1,2) [OF slot Cons.prems(3), of d] spread_step(3) [OF slot Cons.prems(3)]
  have eq: "spread_ids s next_slot (d # ds) =
      ucast ((ucast (next_slot ! ?b) :: u64) * NUM_BANKS + ucast (ucast ((ucast d :: u64) mod NUM_BANKS) :: u32)) #
      spread_ids s ?next ds"
    by (simp add: Let_def step(1))
  show ?case
  proof (cases k)
    case 0
    then show ?thesis unfolding eq using step(2) slot by simp
  next
    case (Suc j)
    let ?c = "bank_of (ds ! j)"
    have "Suc (unat (next_slot ! ?b)) mod unat s < unat s" using slot by (intro mod_less_divisor) simp
    then have next_ok: "\<forall>b < 16. unat (?next ! b) < unat s"
      using Cons.prems(1,2) step(3) b by (simp add: nth_list_update)
    have ih: "unat (spread_ids s ?next ds ! j) = (unat (?next ! ?c) + hits ?c (take j ds)) mod unat s * 16 + ?c"
      using Cons.prems Suc next_ok by (intro Cons.IH) simp_all
    have "(unat (?next ! ?c) + hits ?c (take j ds)) mod unat s =
        (unat (next_slot ! ?c) + hits ?c (take (Suc j) (d # ds))) mod unat s"
      using Cons.prems(1) b step(3) by (auto simp: nth_list_update mod_add_left_eq)
    then show ?thesis unfolding eq using ih Suc by simp
  qed
qed simp

lemma dict_arg_bounds:
  assumes "dict_parse_args stod zero opts = Inr args"
  shows "da_value_bits args = 32 \<or> da_value_bits args = 64"
    "0 < unat (da_num_values args)" "unat (da_num_values args) \<le> 2 ^ 18"
    "da_distinct args \<Longrightarrow> 16 \<le> unat (da_num_values args)"
    "unat (da_num_ids args) mod 16 = 0"
  using assms
  by (auto simp: dict_parse_args_def bind_sum_def DICT_ID_BITS_def NUM_BANKS_def IDS_PER_BEAT_def Let_def
      word_le_nat_alt word_less_nat_alt unat_word_ariths unat_div push_bit_eq_mult unat_gt_0 split: sum.splits if_splits)

lemma dict_sizes:
  assumes "dict_parse_args stod zero opts = Inr args" and "0 < da_num_ids args"
    and "unat (da_num_ids args) * 8 \<le> max_request"
  shows "0 < da_num_values args * (da_value_bits args div 8)" "0 < da_num_ids args * 4"
    "0 < da_num_ids args * (da_value_bits args div 8)"
    "unat (da_num_values args * (da_value_bits args div 8)) \<le> max_request"
    "unat (da_num_ids args * 4) \<le> max_request"
    "unat (da_num_ids args * (da_value_bits args div 8)) \<le> max_request"
proof -
  note b = dict_arg_bounds [OF assms(1)]
  have c: "da_value_bits args div 8 = 4 \<or> da_value_bits args div 8 = 8" using b(1) by auto
  have "0 < unat (da_num_ids args)" using assms(2) by (simp add: unat_gt_0)
  then show "0 < da_num_values args * (da_value_bits args div 8)" "0 < da_num_ids args * 4"
    "0 < da_num_ids args * (da_value_bits args div 8)"
    "unat (da_num_values args * (da_value_bits args div 8)) \<le> max_request"
    "unat (da_num_ids args * 4) \<le> max_request"
    "unat (da_num_ids args * (da_value_bits args div 8)) \<le> max_request"
    using b(2,3) c assms(3) by (auto simp: word_less_nat_alt unat_word_ariths(2) max_request_def)
qed

section \<open>Entries are distinct\<close>

lemma odd_cancel:
  fixes x y :: "'a :: len word"
  assumes "odd k" and "of_nat k * x = of_nat k * y"
  shows "x = y"
proof -
  have "(2 :: int) ^ LENGTH('a) dvd int k * (uint x - uint y)"
  proof -
    have "(of_int (int k * uint x) :: 'a word) = of_int (int k * uint y)" using assms(2) by simp
    then have "take_bit LENGTH('a) (int k * uint x) = take_bit LENGTH('a) (int k * uint y)"
      by (simp only: word_of_int_eq_iff)
    then show ?thesis by (simp add: take_bit_eq_mod mod_eq_dvd_iff right_diff_distrib)
  qed
  moreover have "coprime ((2 :: int) ^ LENGTH('a)) (int k)" using assms(1) by simp
  ultimately have "(2 :: int) ^ LENGTH('a) dvd uint x - uint y" by (simp add: coprime_dvd_mult_right_iff)
  then have "uint x mod 2 ^ LENGTH('a) = uint y mod 2 ^ LENGTH('a)" by (simp only: mod_eq_dvd_iff)
  then show ?thesis by (simp only: uint_idem word_uint_eq_iff)
qed

lemma fill_values_nth:
  "i < n \<Longrightarrow> (fill_values n :: 'a :: len word list) ! i = ucast ((of_nat i :: u64) * 0x9E3779B97F4A7C15 + 1)"
  by (simp add: fill_values_def)

lemma length_fill_values [simp]: "length (fill_values n) = n"
  by (simp add: fill_values_def)

lemma fill_values_inj:
  assumes "LENGTH('a :: len) \<le> 64" and "n \<le> 2 ^ LENGTH('a)" and "i < n" "j < n"
    and "(fill_values n :: 'a word list) ! i = fill_values n ! j"
  shows "i = j"
proof -
  have c: "ucast ((of_nat k :: u64) * 0x9E3779B97F4A7C15 + 1) = of_nat 0x9E3779B97F4A7C15 * (of_nat k :: 'a word) + 1"
    for k
  proof -
    have "(of_nat k :: u64) * 0x9E3779B97F4A7C15 + 1 = of_nat (k * 0x9E3779B97F4A7C15 + 1)" by simp
    then have "ucast ((of_nat k :: u64) * 0x9E3779B97F4A7C15 + 1) = (of_nat (k * 0x9E3779B97F4A7C15 + 1) :: 'a word)"
      using assms(1) by (simp only:) (rule ucast_of_nat, simp)
    then show ?thesis by (simp add: mult.commute)
  qed
  have "(of_nat 0x9E3779B97F4A7C15 :: 'a word) * of_nat i = of_nat 0x9E3779B97F4A7C15 * of_nat j"
    using assms(3-5) by (simp only: fill_values_nth c add_right_cancel)
  then have "(of_nat i :: 'a word) = of_nat j" by (rule odd_cancel [rotated]) simp
  then show ?thesis using assms(2-4) by (simp add: word_of_nat_eq_iff take_bit_nat_eq_self)
qed

section \<open>Buffers and transfers\<close>

lemma dict_config_posts:
  assumes "host_sound pinv h" and "0 < sc_num_streams sc" and "0 < num_regs sc"
  shows "\<exists>h'. posts pinv (on_cthread (enqueue_stream_config sc 0 t sel)) h ()
    [SetCSR (stream_register_value t sel) (addr_offset sc)] h'"
  by (rule csr_posts [OF assms(1)]) (use assms(2,3) in \<open>simp add: wp_simps enqueue_stream_config_def\<close>)

context memory_pool
begin

lemma dict_run_posts:
  assumes "host_sound pool_inv h" and "0 < sc_num_streams sc" and "0 < num_regs sc" and "0 < mx"
    and "live (host_pool h) v = Some vsz" "live (host_pool h) i = Some isz" "live (host_pool h) r = Some osz"
    and "unat vsz + unat mx \<le> 2 ^ 64" "unat isz + unat mx \<le> 2 ^ 64" "unat osz + unat mx \<le> 2 ^ 64"
    and "vsz = da_num_values args * (da_value_bits args div 8)" "isz = da_num_ids args * 4"
    and "osz = da_num_ids args * (da_value_bits args div 8)"
  shows "\<exists>h'. posts pool_inv (dict_run mx ops sc args v i r) h (of_nat (num_chunks (unat osz) (unat mx)))
    (SetCSR (stream_register_value (if da_value_bits args = 32 then INT32_T else INT64_T) 0) (addr_offset sc) #
      write_calls 0 (chunks_of mx r osz) @ read_calls 0 True (chunks_of mx v vsz) @
      read_calls 1 True (chunks_of mx i isz)) h'"
proof -
  let ?t = "if da_value_bits args = 32 then INT32_T else INT64_T"
  obtain h1 where h1: "posts pool_inv (on_cthread (enqueue_stream_config sc 0 ?t 0)) h ()
      [SetCSR (stream_register_value ?t 0) (addr_offset sc)] h1"
    using dict_config_posts [OF assms(1-3)] by blast
  then obtain h2 where h2: "posts pool_inv (enqueue_stream_output mx ops r osz 0) h1
      (of_nat (num_chunks (unat osz) (unat mx))) (write_calls 0 (chunks_of mx r osz)) h2"
    using transfer_posts(1) [OF _ _ assms(4,10), of h1 r 0] assms(7) by (auto simp: posts_def)
  then obtain h3 where h3: "posts pool_inv (enqueue_stream_input mx ops v vsz 0 True) h2 ()
      (read_calls 0 True (chunks_of mx v vsz)) h3"
    using transfer_posts(2) [OF _ _ assms(4,8), of h2 v 0] h1 assms(5) by (auto simp: posts_def)
  then obtain h4 where h4: "posts pool_inv (enqueue_stream_input mx ops i isz 1 True) h3 ()
      (read_calls 1 True (chunks_of mx i isz)) h4"
    using transfer_posts(2) [OF _ _ assms(4,9), of h3 i 1] h1 h2 assms(6) by (auto simp: posts_def)
  have "host_sound pool_inv h4" using h4 by (simp add: posts_def)
  then have "posts pool_inv (dict_run mx ops sc args v i r) h (of_nat (num_chunks (unat osz) (unat mx)))
    ([SetCSR (stream_register_value ?t 0) (addr_offset sc)] @ write_calls 0 (chunks_of mx r osz) @
      read_calls 0 True (chunks_of mx v vsz) @ read_calls 1 True (chunks_of mx i isz) @ []) h4"
    unfolding dict_run_def Let_def assms(11-13) [symmetric]
    by (intro posts_seq [OF h1] posts_seq [OF h2] posts_seq [OF h3] posts_seq [OF h4] posts_ret)
  then show ?thesis by auto
qed

text \<open>The three buffers of a preparation that returns.\<close>

lemma wp_dict_allocate:
  assumes "host_sound pool_inv h" and "0 < vsz" "0 < isz" "0 < osz"
    and "unat vsz \<le> max_request" "unat isz \<le> max_request" "unat osz \<le> max_request"
    and "vsz = da_num_values args * (da_value_bits args div 8)" "isz = da_num_ids args * 4"
    and "osz = da_num_ids args * (da_value_bits args div 8)"
  shows "wp (dict_allocate ops args) (\<lambda>(v, i, r) h'. host_sound pool_inv h' \<and> host_cthread h' = host_cthread h \<and>
      distinct [v, i, r] \<and> {v, i, r} \<inter> dom (live (host_pool h)) = {} \<and>
      live (host_pool h') = (live (host_pool h))(v \<mapsto> vsz, i \<mapsto> isz, r \<mapsto> osz)) (\<lambda>_ _. True) h"
  unfolding dict_allocate_def Let_def pool_allocate_default_def DEFAULT_ALIGNMENT_def assms(8-10) [symmetric]
proof (rule wp_allocate_or_exit [OF assms(1,2,5) valid_alignment_64], goal_cases)
  case (1 v h1)
  note h1 = 1
  show ?case
  proof (rule wp_allocate_or_exit [OF h1(1) assms(3,6) valid_alignment_64], goal_cases)
    case (1 i h2)
    note h2 = 1
    show ?case
    proof (rule wp_allocate_or_exit [OF h2(1) assms(4,7) valid_alignment_64], goal_cases)
      case (1 r h3)
      with h1 h2 show ?case by (simp add: wp_ret new_block domIff split: if_splits)
    qed
  qed
qed

lemma wp_dict_setup:
  assumes "host_sound pool_inv h" and "huge_range_ok ops pool_inv huge" and "0 < vsz" "0 < isz" "0 < osz"
    and "unat vsz \<le> max_request" "unat isz \<le> max_request" "unat osz \<le> max_request"
    and "vsz = da_num_values args * (da_value_bits args div 8)" "isz = da_num_ids args * 4"
    and "osz = da_num_ids args * (da_value_bits args div 8)"
  shows "wp (dict_setup csr ops huge args) (\<lambda>(sc, v, i, r) h'. host_sound pool_inv h' \<and>
      dict_stream_config csr = Inr sc \<and> distinct [v, i, r] \<and> {v, i, r} \<inter> dom (live (host_pool h)) = {} \<and>
      live (host_pool h') = (live (host_pool h))(v \<mapsto> vsz, i \<mapsto> isz, r \<mapsto> osz)) (\<lambda>_ _. True) h"
proof (cases "dict_stream_config csr")
  case (Inr sc)
  show ?thesis
    unfolding dict_setup_def Inr seqE_liftE_Inr wp_seqE
  proof (rule wp_mono [OF wp_premap_huge_pool [OF assms(1,2), of "\<lambda>_ _. True"]], goal_cases)
    case (1 _ h1)
    then have s: "host_sound pool_inv h1" "host_pool h1 = host_pool h" by simp_all
    show ?case
      by (rule wp_mono [OF wp_dict_allocate [OF s(1) assms(3-11)]]) (use s(2) in \<open>auto simp: wp_ret split: prod.splits\<close>)
  qed simp
qed (simp add: dict_setup_def wp_simps)

end

lemma dict_stream_config_streams:
  "dict_stream_config csr = Inr sc \<Longrightarrow> sc_num_streams sc = 1"
  by (auto simp: dict_stream_config_def bind_sum_def split: sum.splits prod.splits any_config.splits if_splits)

section \<open>An example\<close>

text \<open>The registers of a design with one configuration, the stream configuration from address 3.\<close>

definition dict_csr :: csr where
  "dict_csr a = (if a = 1 then 1 else if a = 2 then 5 else if a = 3 then 1 else if a = 4 then 1 else 0)"

definition dict_example_opts :: "(char \<times> string) list" where
  "dict_example_opts = [(CHR ''v'', ''32''), (CHR ''i'', ''20''), (CHR ''d'', [])]"

definition dict_example_args :: "nat dict_args" where
  "dict_example_args = (dict_default_args 0)\<lparr>da_num_values := 32, da_num_ids := 32, da_distinct := True\<rparr>"

lemma dict_example_args: "dict_parse_args (\<lambda>_. Inl (Exit 1)) 0 dict_example_opts = Inr dict_example_args"
proof -
  have "scan_number ''32'' = Some (False, 32)" "scan_number ''20'' = Some (False, 20)" by code_simp+
  then show ?thesis
    by (simp add: dict_parse_args_def dict_example_opts_def stoul_def bind_sum_def dict_example_args_def
        dict_default_args_def DICT_ID_BITS_def NUM_BANKS_def IDS_PER_BEAT_def Let_def)
qed

section \<open>Properties\<close>

lemma spread_length [simp]: "length (spread_ids s next_slot ds) = length ds"
  by (induction s next_slot ds rule: spread_ids.induct) (simp_all add: Let_def)

lemma generate_ids_nth:
  assumes "dict_parse_args stod zero opts = Inr args" and "da_distinct args" and "k < length drawn"
  shows "unat (generate_ids args drawn ! k) =
      hits (bank_of (drawn ! k)) (take k drawn) mod (unat (da_num_values args) div 16) * 16 + bank_of (drawn ! k)"
    "0 < unat (da_num_values args) div 16"
proof -
  let ?s = "da_num_values args div NUM_BANKS"
  note b = dict_arg_bounds [OF assms(1)]
  have s: "unat ?s = unat (da_num_values args) div 16" by (simp add: NUM_BANKS_def unat_div)
  show pos: "0 < unat (da_num_values args) div 16" using b(4) [OF assms(2)] by (simp add: div_greater_zero_iff)
  have "\<forall>b < 16. unat ((replicate (unat NUM_BANKS) 0 :: u32 list) ! b) < unat ?s" "unat ?s \<le> 2 ^ 28"
    using pos s b(3) by (auto simp: NUM_BANKS_def)
  moreover have "bank_of d < 16" for d by (simp add: bank_of_def)
  ultimately show "unat (generate_ids args drawn ! k) =
      hits (bank_of (drawn ! k)) (take k drawn) mod (unat (da_num_values args) div 16) * 16 + bank_of (drawn ! k)"
    using spread_ids_nth [of "replicate (unat NUM_BANKS) 0" ?s k drawn] assms(2,3)
    by (simp add: generate_ids_def s NUM_BANKS_def unat_div)
qed

lemma mod_step_apart:
  fixes m n s :: nat
  assumes "m mod s = n mod s" and "m < n"
  shows "s \<le> n - m"
  using assms dvd_imp_le [of s "n - m"] mod_eq_dvd_iff_nat [of m n s] by simp

lemma hits_take_mono:
  assumes "j < k" and "k \<le> length ds"
  shows "hits (bank_of (ds ! j)) (take j ds) < hits (bank_of (ds ! j)) (take k ds)"
proof -
  have "take k ds = take j ds @ ds ! j # take (k - Suc j) (drop (Suc j) ds)"
    using assms by (metis Cons_nth_drop_Suc append_take_drop_id add_diff_inverse_nat not_less_iff_gr_or_eq
        take_add take_Suc_Cons Suc_diff_Suc order_less_le_trans)
  then show ?thesis by (simp add: hits_append)
qed

text \<open>Distinct ids: for any draws, with the option \<open>--distinct\<close> every id stays in the bank of its draw and is
  smaller than the number of entries, and between two equal ids all entries of their bank have been
  used: a bank with \<open>s\<close> entries is drawn from at least \<open>s\<close> times from the first to the second.\<close>

theorem distinct_ids_rotate_in_their_bank:
  assumes "dict_parse_args stod zero opts = Inr args" and "da_distinct args"
    and "j < k" and "k < length drawn"
  shows "bank_of (generate_ids args drawn ! k) = bank_of (drawn ! k) \<and>
    generate_ids args drawn ! k < ucast (da_num_values args) \<and>
    (generate_ids args drawn ! j = generate_ids args drawn ! k \<longrightarrow>
       bank_of (drawn ! j) = bank_of (drawn ! k) \<and>
       unat (da_num_values args) div 16 \<le> hits (bank_of (drawn ! k)) (take k drawn) - hits (bank_of (drawn ! k)) (take j drawn))"
proof (intro conjI impI)
  let ?id = "\<lambda>k. generate_ids args drawn ! k" and ?n = "unat (da_num_values args)"
  let ?h = "\<lambda>k. hits (bank_of (drawn ! k)) (take k drawn)"
  have k: "unat (?id k) = ?h k mod (?n div 16) * 16 + bank_of (drawn ! k)" "0 < ?n div 16"
    and j: "unat (?id j) = ?h j mod (?n div 16) * 16 + bank_of (drawn ! j)"
    using generate_ids_nth [OF assms(1,2)] assms(3,4) by simp_all
  have b: "bank_of d < 16" for d by (simp add: bank_of_def)
  have bank: "bank_of (?id i) = bank_of (drawn ! i)" if "i \<le> k" for i
    using generate_ids_nth(1) [OF assms(1,2), of i drawn] that assms(4) b by (simp add: bank_of_def)
  then show "bank_of (?id k) = bank_of (drawn ! k)" by simp
  have "?h k mod (?n div 16) < ?n div 16" using k(2) by simp
  then have "unat (?id k) < ?n div 16 * 16" unfolding k(1) using b [of "drawn ! k"] by linarith
  then have "unat (?id k) < ?n" by (meson div_times_less_eq_dividend order_less_le_trans)
  moreover have "unat (ucast (da_num_values args) :: u32) = ?n"
    using dict_arg_bounds(3) [OF assms(1)] by (intro unat_small_32) simp
  ultimately show "?id k < ucast (da_num_values args)" by (simp add: word_less_nat_alt)
  assume eq: "?id j = ?id k"
  show same: "bank_of (drawn ! j) = bank_of (drawn ! k)" using bank assms(3) eq by (metis less_imp_le order_refl)
  have "?h j mod (?n div 16) = ?h k mod (?n div 16)" using j k(1) eq same by simp
  then show "?n div 16 \<le> hits (bank_of (drawn ! k)) (take k drawn) - hits (bank_of (drawn ! k)) (take j drawn)"
    using hits_take_mono [OF assms(3), of drawn] assms(4) unfolding same by (intro mod_step_apart) simp_all
qed

theorem distinct_ids_rotate_in_their_bank_witness:
  "bank_of (generate_ids dict_example_args [5, 21, 37] ! 2) = 5 \<and>
   generate_ids dict_example_args [5, 21, 37] ! 2 < 32 \<and> generate_ids dict_example_args [5, 21, 37] ! 1 \<noteq>
     generate_ids dict_example_args [5, 21, 37] ! 2"
proof -
  note rot = distinct_ids_rotate_in_their_bank [OF dict_example_args, of 1 2 "[5, 21, 37]"]
  have "da_distinct dict_example_args" "da_num_values dict_example_args = 32" by (simp_all add: dict_example_args_def)
  moreover have "bank_of 5 = 5" "bank_of 21 = 5" "bank_of 37 = 5" by (simp_all add: bank_of_def)
  ultimately show ?thesis using rot by simp
qed

text \<open>C29. The verification of the dictionary program is exact: the entries are pairwise different for every number
  of entries that the argument check lets through, so when the device answers with entries at some
  positions of the dictionary, the number of wrong values is the number of wrong positions.\<close>

theorem dictionary_verification_counts_wrong_ids:
  assumes "dict_parse_args stod zero opts = Inr args" and "LENGTH('a :: len) = unat (da_value_bits args)"
    and "length used = length ids" and "\<forall>j \<in> set ids \<union> set used. unat j < unat (da_num_values args)"
  shows "dict_verify_output (fill_values (unat (da_num_values args)) :: 'a word list) ids
      (map (\<lambda>j. fill_values (unat (da_num_values args)) ! unat j) used) =
    length (filter (\<lambda>(i, j). i \<noteq> j) (zip ids used))"
proof -
  let ?n = "unat (da_num_values args)"
  have len: "LENGTH('a) \<le> 64" "?n \<le> 2 ^ LENGTH('a)"
    using dict_arg_bounds(1,3) [OF assms(1)] unfolding assms(2) by auto
  have "(fill_values ?n :: 'a word list) ! unat (used ! i) \<noteq> fill_values ?n ! unat (ids ! i) \<longleftrightarrow> ids ! i \<noteq> used ! i"
    if "i < length ids" for i
  proof -
    have "unat (used ! i) < ?n" "unat (ids ! i) < ?n" using that assms(3,4) by simp_all
    then show ?thesis using fill_values_inj [OF len] by (metis word_unat_eq_iff)
  qed
  then have "dict_verify_output (fill_values ?n :: 'a word list) ids (map (\<lambda>j. fill_values ?n ! unat j) used) =
      length (filter (\<lambda>i. (\<lambda>(i, j). i \<noteq> j) (zip ids used ! i)) [0 ..< length ids])"
    unfolding dict_verify_output_def using assms(3) by (intro arg_cong [where f = length] filter_cong) simp_all
  also have "\<dots> = length (filter (\<lambda>(i, j). i \<noteq> j) (zip ids used))"
    using assms(3) by (simp add: length_filter_conv_card) (intro arg_cong [where f = card] Collect_cong, auto)
  finally show ?thesis .
qed

theorem dictionary_verification_counts_wrong_ids_witness:
  "dict_verify_output (fill_values 32 :: u32 list) [3, 7, 31] (map (\<lambda>j. fill_values 32 ! unat j) [3, 8, 31 :: u32]) = 1"
  using dictionary_verification_counts_wrong_ids [OF dict_example_args, of "[3, 8, 31]" "[3, 7, 31]", where 'a = 32]
  by (simp add: dict_example_args_def dict_default_args_def)

text \<open>The dictionary program's transfers: over any pool, when the preparation returns, the entries, the ids and
  the output are three new blocks of their sizes, and in every later state with these blocks a run
  returns and, apart from mappings of pages, asks the driver for exactly this, in this order: the
  type of the entries in the stream configuration, the writes that receive the whole output, the
  reads that send all entries on stream 0 and then all ids on stream 1. It waits for as many
  completions as it posts writes.\<close>

theorem dictionary_run_transfers:
  assumes "memory_pool ops pool_inv live" and "host_sound pool_inv h" and "huge_range_ok ops pool_inv huge"
    and "dict_parse_args stod zero opts = Inr args" and "0 < da_num_ids args" and "unat (da_num_ids args) * 8 \<le> max_request"
    and "dict_setup csr ops huge args h = (Inr (sc, v, i, r), h1)"
    and "0 < num_regs sc" and "0 < mx" and "unat mx \<le> 2 ^ 63"
    and vsz: "vsz = da_num_values args * (da_value_bits args div 8)" and isz: "isz = da_num_ids args * 4"
    and osz: "osz = da_num_ids args * (da_value_bits args div 8)"
    and "host_sound pool_inv h2" and "host_pool h2 = host_pool h1"
  shows "distinct [v, i, r] \<and> {v, i, r} \<inter> dom (live (host_pool h)) = {} \<and>
    live (host_pool h1) = (live (host_pool h))(v \<mapsto> vsz, i \<mapsto> isz, r \<mapsto> osz) \<and> host_sound pool_inv h1 \<and>
    (\<exists>h3. dict_run mx ops sc args v i r h2 = (Inr (of_nat (num_chunks (unat osz) (unat mx))), h3) \<and>
       host_sound pool_inv h3 \<and> host_pool h3 = host_pool h2 \<and>
       posted h3 = posted h2 @
         [SetCSR (stream_register_value (if da_value_bits args = 32 then INT32_T else INT64_T) 0) (addr_offset sc)] @
         write_calls 0 (chunks_of mx r osz) @ read_calls 0 True (chunks_of mx v vsz) @
         read_calls 1 True (chunks_of mx i isz))"
proof -
  have sizes: "0 < vsz" "0 < isz" "0 < osz" "unat vsz \<le> max_request" "unat isz \<le> max_request" "unat osz \<le> max_request"
    using dict_sizes [OF assms(4-6)] by (simp_all add: vsz isz osz)
  from wpD_Inr [OF memory_pool.wp_dict_setup [OF assms(1-3) sizes vsz isz osz] assms(7)]
  have prep: "host_sound pool_inv h1" "dict_stream_config csr = Inr sc" "distinct [v, i, r]"
    "{v, i, r} \<inter> dom (live (host_pool h)) = {}"
    "live (host_pool h1) = (live (host_pool h))(v \<mapsto> vsz, i \<mapsto> isz, r \<mapsto> osz)"
    by simp_all
  have room: "unat n + unat mx \<le> 2 ^ 64" if "unat n \<le> max_request" for n :: u64
    using that assms(10) by (simp add: max_request_def)
  have "live (host_pool h2) v = Some vsz" "live (host_pool h2) i = Some isz" "live (host_pool h2) r = Some osz"
    using prep(3,5) assms(15) by auto
  from memory_pool.dict_run_posts [OF assms(1,14) _ assms(8,9) this room room room vsz isz osz]
    dict_stream_config_streams [OF prep(2)] sizes(4-6)
  show ?thesis using prep(1,3-5) by (simp add: posts_def)
qed

definition dict_host_2 :: "SimpleMemoryPool host" where
  "dict_host_2 = snd (dict_setup dict_csr SimpleMemoryPool_ops (\<lambda>_. None) dict_example_args program_host)"

lemma example_dict_setup:
  "dict_setup dict_csr SimpleMemoryPool_ops (\<lambda>_. None) dict_example_args program_host =
     (Inr (\<lparr>addr_offset = 3, num_regs = 2, sc_num_streams = 1\<rparr>, 65536, 65664, 65792), dict_host_2)"
proof -
  have "fst (dict_setup dict_csr SimpleMemoryPool_ops (\<lambda>_. None) dict_example_args program_host) =
      Inr (\<lparr>addr_offset = 3, num_regs = 2, sc_num_streams = 1\<rparr>, 65536, 65664, 65792)"
    by code_simp
  then show ?thesis by (metis dict_host_2_def prod.collapse)
qed

theorem dictionary_run_transfers_witness:
  "\<exists>h3. dict_run 64 SimpleMemoryPool_ops \<lparr>addr_offset = 3, num_regs = 2, sc_num_streams = 1\<rparr> dict_example_args
      65536 65664 65792 dict_host_2 = (Inr 2, h3) \<and> host_sound sp_inv h3"
proof -
  have "huge_range_ok SimpleMemoryPool_ops sp_inv (\<lambda>_. None)" by (simp add: huge_range_ok_def)
  note run = dictionary_run_transfers [OF simple_pool.memory_pool_axioms program_host_sound this dict_example_args _ _
      example_dict_setup, of 64]
  have v: "da_num_ids dict_example_args = 32" "da_num_values dict_example_args = 32" "da_value_bits dict_example_args = 32"
    by (simp_all add: dict_example_args_def dict_default_args_def)
  have "host_sound sp_inv dict_host_2"
    using wpD_Inr [OF simple_pool.wp_dict_setup [OF program_host_sound \<open>huge_range_ok _ _ _\<close> _ _ _ _ _ _ refl refl refl]
        example_dict_setup] by (simp add: v max_request_def)
  from run [OF _ _ _ _ _ refl refl refl this refl] show ?thesis
    by (auto simp: v max_request_def num_chunks_def)
qed

end
