(* ===== verification/Dictionary_Program.thy ===== *)
theory Dictionary_Program
  imports Dictionary_Example Host_Device
begin

text \<open>
  The program \<open>examples/02_typed_dictionary/src/main.cpp\<close> as a whole: the ids drawn from the uniform or
  the Zipf distribution, their shares of the banks, and \<open>main\<close> with its runs, waits and comparisons up
  to the exit status. The random numbers, the floating-point operations and the device are given;
  printing and the clock are left out.
\<close>

section \<open>The drawn ids\<close>

text \<open>
  The floating-point numbers: \<open>fl_weight theta r\<close> is \<open>1.0 / std::pow((double)(r + 1), theta)\<close>.
\<close>

record 'd floats =
  fl_zero :: 'd
  fl_is_zero :: "'d \<Rightarrow> bool"
  fl_add :: "'d \<Rightarrow> 'd \<Rightarrow> 'd"
  fl_less :: "'d \<Rightarrow> 'd \<Rightarrow> bool"
  fl_weight :: "'d \<Rightarrow> nat \<Rightarrow> 'd"

text \<open>What the random number generator gives: the uniform ids, the shuffled ids, and the uniform reals.\<close>

record 'd draws =
  dr_ids :: "u32 list"
  dr_rank_to_id :: "u32 list"
  dr_reals :: "'d list"

text \<open>The loop that fills \<open>cdf\<close> with the running sums \<open>acc\<close>, from rank \<open>r\<close> on, with \<open>n\<close> ranks to go.\<close>

fun zipf_cdf :: "'d floats \<Rightarrow> 'd \<Rightarrow> nat \<Rightarrow> nat \<Rightarrow> 'd \<Rightarrow> 'd list" where
  "zipf_cdf fl theta r 0 acc = []"
| "zipf_cdf fl theta r (Suc n) acc =
     (let acc = fl_add fl acc (fl_weight fl theta r) in acc # zipf_cdf fl theta (Suc r) n acc)"

text \<open>\<open>std::upper_bound\<close>: the position of the first element that is greater.\<close>

definition upper_bound :: "('d \<Rightarrow> 'd \<Rightarrow> bool) \<Rightarrow> 'd list \<Rightarrow> 'd \<Rightarrow> nat" where
  "upper_bound lt xs v = length (takeWhile (\<lambda>x. \<not> lt v x) xs)"

fun zipf_ids :: "('d \<Rightarrow> 'd \<Rightarrow> bool) \<Rightarrow> 'd list \<Rightarrow> u32 list \<Rightarrow> 'd list \<Rightarrow> cpp_error + u32 list" where
  "zipf_ids lt cdf rank_to_id [] = Inr []"
| "zipf_ids lt cdf rank_to_id (v # vs) =
     bind_sum (vec_at rank_to_id (upper_bound lt cdf v)) (\<lambda>d.
     bind_sum (zipf_ids lt cdf rank_to_id vs) (\<lambda>ds. Inr (d # ds)))"

definition drawn_ids :: "'d floats \<Rightarrow> 'd dict_args \<Rightarrow> 'd draws \<Rightarrow> cpp_error + u32 list" where
  "drawn_ids fl args dr =
     (if fl_is_zero fl (da_zipf args) then Inr (dr_ids dr)
      else
        let cdf = zipf_cdf fl (da_zipf args) 0 (unat (da_num_values args)) (fl_zero fl)
        in zipf_ids (fl_less fl) cdf (dr_rank_to_id dr) (dr_reals dr))"

text \<open>
  What the library promises of the draws: an id of the uniform distribution is at most its upper
  bound, \<open>std::shuffle\<close> permutes, and a real is smaller than the upper end of the distribution, the
  sum of all weights.
\<close>

definition draws_ok :: "'d floats \<Rightarrow> 'd dict_args \<Rightarrow> 'd draws \<Rightarrow> bool" where
  "draws_ok fl args dr \<longleftrightarrow>
     (if fl_is_zero fl (da_zipf args)
      then length (dr_ids dr) = unat (da_num_ids args) \<and> (\<forall>d \<in> set (dr_ids dr). unat d < unat (da_num_values args))
      else length (dr_reals dr) = unat (da_num_ids args) \<and>
        mset (dr_rank_to_id dr) = mset (map of_nat [0 ..< unat (da_num_values args)]) \<and>
        (\<forall>v \<in> set (dr_reals dr).
           fl_less fl v (last (zipf_cdf fl (da_zipf args) 0 (unat (da_num_values args)) (fl_zero fl)))))"

section \<open>Shares of the banks\<close>

fun bank_counts :: "u32 list \<Rightarrow> nat list \<Rightarrow> nat list" where
  "bank_counts [] counts = counts"
| "bank_counts (d # ds) counts =
     (let b = unat ((ucast d :: u64) mod NUM_BANKS) in bank_counts ds (counts[b := Suc (counts ! b)]))"

text \<open>The largest count of \<open>print_id_distribution_stats\<close> (\<open>std::max_element\<close>).\<close>

definition hottest_bank :: "u32 list \<Rightarrow> nat" where
  "hottest_bank ids = Max (set (bank_counts ids (replicate (unat NUM_BANKS) 0)))"

section \<open>The program\<close>

text \<open>The entries of an array in memory, which is little endian.\<close>

definition read_words :: "u8 list \<Rightarrow> nat \<Rightarrow> 'a :: len word list" where
  "read_words bytes n =
     map (\<lambda>i. word_rcat (rev (take (LENGTH('a) div 8) (drop (LENGTH('a) div 8 * i) bytes)))) [0 ..< n]"

text \<open>
  The comparison after a run. The program reads the values from its buffer; here they are what it wrote
  there, \<open>fill_values\<close>, which is the same as neither the program nor the device writes to that buffer
  afterwards (the device is only given it to read).
\<close>

definition dict_verify_run :: "'d dict_args \<Rightarrow> u32 list \<Rightarrow> u8 list \<Rightarrow> nat" where
  "dict_verify_run args ids bytes =
     (if da_value_bits args = 32
      then dict_verify_output (fill_values (unat (da_num_values args)) :: u32 list) ids (read_words bytes (length ids))
      else dict_verify_output (fill_values (unat (da_num_values args)) :: u64 list) ids (read_words bytes (length ids)))"

text \<open>
  The loop over the runs; \<open>None\<close> is a run whose wait never ends. The result of a run that returns is the
  number of wrong values so far.
\<close>

fun dict_runs ::
  "device \<Rightarrow> u64 \<Rightarrow> 'p MemoryPool \<Rightarrow> StreamConfig \<Rightarrow> 'd dict_args \<Rightarrow> ptr \<Rightarrow> ptr \<Rightarrow> ptr \<Rightarrow> u32 list \<Rightarrow>
   nat \<Rightarrow> nat \<Rightarrow> 'p host \<Rightarrow> ((cpp_error + nat) \<times> 'p host) option" where
  "dict_runs dev mx ops sc args vals ids_buffer output ids 0 num_wrong_values h = Some (Inr num_wrong_values, h)"
| "dict_runs dev mx ops sc args vals ids_buffer output ids (Suc n) num_wrong_values h =
     (case seqE (on_cthread (call ClearCompleted)) (\<lambda>_. dict_run mx ops sc args vals ids_buffer output) h of
       (Inl e, h') \<Rightarrow> Some (Inl e, h')
     | (Inr num_output_transfers, h') \<Rightarrow>
         (case wait_completed (dv_completed dev (host_cthread h')) num_output_transfers 0 of
           None \<Rightarrow> None
         | Some _ \<Rightarrow>
             dict_runs dev mx ops sc args vals ids_buffer output ids n
               (num_wrong_values + dict_verify_run args ids
                  (received_bytes dev (host_cthread h') output (da_num_ids args * (da_value_bits args div 8)))) h'))"

definition dict_main ::
  "(string \<Rightarrow> cpp_error + 'd) \<Rightarrow> 'd floats \<Rightarrow> csr \<Rightarrow> device \<Rightarrow> u64 \<Rightarrow> 'p MemoryPool \<Rightarrow>
   ('p \<Rightarrow> (ptr \<times> u64) option) \<Rightarrow> 'd draws \<Rightarrow> (char \<times> string) list \<Rightarrow> 'p host \<Rightarrow>
   ((cpp_error + int) \<times> 'p host) option" where
  "dict_main stod fl csr dev mx ops huge dr opts h =
     (case dict_parse_args stod (fl_zero fl) opts of
       Inl e \<Rightarrow> Some (Inl e, h)
     | Inr args \<Rightarrow>
         (case dict_setup csr ops huge args h of
           (Inl e, h') \<Rightarrow> Some (Inl e, h')
         | (Inr (stream_config, vals, ids_buffer, output), h') \<Rightarrow>
             (case drawn_ids fl args dr of
               Inl e \<Rightarrow> Some (Inl e, h')
             | Inr drawn \<Rightarrow>
                 map_option (map_prod (map_sum id (\<lambda>n. if n = 0 then EXIT_SUCCESS else EXIT_FAILURE)) id)
                   (dict_runs dev mx ops stream_config args vals ids_buffer output (generate_ids args drawn)
                     (unat (da_num_runs args)) 0 h'))))"

section \<open>Ids index the dictionary\<close>

lemma length_zipf_cdf [simp]: "length (zipf_cdf fl theta r n acc) = n"
  by (induction n arbitrary: r acc) (simp_all add: Let_def)

lemma upper_bound_less: "xs \<noteq> [] \<Longrightarrow> lt v (last xs) \<Longrightarrow> upper_bound lt xs v < length xs"
  unfolding upper_bound_def
  by (metis last_in_set length_takeWhile_le le_neq_implies_less takeWhile_eq_all_conv takeWhile_eq_take take_all_iff order_refl)

lemma zipf_ids_returns:
  assumes "\<forall>v \<in> set vs. upper_bound lt cdf v < length rank_to_id"
  shows "\<exists>ds. zipf_ids lt cdf rank_to_id vs = Inr ds \<and> length ds = length vs \<and> set ds \<subseteq> set rank_to_id"
  using assms by (induction vs) (auto simp: vec_at_def bind_sum_def)

lemma drawn_ids_returns:
  assumes "dict_parse_args stod zero opts = Inr args" and "draws_ok fl args dr"
  obtains drawn where "drawn_ids fl args dr = Inr drawn" "length drawn = unat (da_num_ids args)"
    "\<forall>d \<in> set drawn. unat d < unat (da_num_values args)"
proof (cases "fl_is_zero fl (da_zipf args)")
  case True
  then show thesis using that assms(2) by (simp add: drawn_ids_def draws_ok_def)
next
  case False
  let ?n = "unat (da_num_values args)"
  let ?cdf = "zipf_cdf fl (da_zipf args) 0 ?n (fl_zero fl)"
  note b = dict_arg_bounds(2,3) [OF assms(1)]
  have perm: "mset (dr_rank_to_id dr) = mset (map of_nat [0 ..< ?n])"
    and reals: "\<forall>v \<in> set (dr_reals dr). fl_less fl v (last ?cdf)"
    using assms(2) by (simp_all add: draws_ok_def False)
  have len: "length (dr_rank_to_id dr) = ?n" using mset_eq_length [OF perm] by simp
  have ids: "unat d < ?n" if "d \<in> set (dr_rank_to_id dr)" for d
  proof -
    have "d \<in> of_nat ` {0 ..< ?n}" using that mset_eq_setD [OF perm] by simp
    then obtain i where "d = of_nat i" "i < ?n" by auto
    then show ?thesis using b(2) by (simp add: unat_of_nat)
  qed
  have "?cdf \<noteq> []" using b(1) by (metis length_zipf_cdf length_greater_0_conv)
  then have "\<forall>v \<in> set (dr_reals dr). upper_bound (fl_less fl) ?cdf v < length (dr_rank_to_id dr)"
    using upper_bound_less [of ?cdf "fl_less fl"] reals by (simp add: len)
  from zipf_ids_returns [OF this] show thesis
    using that ids assms(2) False by (fastforce simp: drawn_ids_def draws_ok_def Let_def)
qed

lemma length_generate_ids [simp]: "length (generate_ids args drawn) = length drawn"
  by (simp add: generate_ids_def)

lemma bank_of_less: "bank_of d < 16"
  by (simp add: bank_of_def)

text \<open>Every id stays in the bank of its draw.\<close>

lemma generate_ids_in_range:
  assumes "dict_parse_args stod zero opts = Inr args" and "\<forall>d \<in> set drawn. unat d < unat (da_num_values args)"
    and "k < length drawn"
  shows "unat (generate_ids args drawn ! k) < unat (da_num_values args) \<and>
    bank_of (generate_ids args drawn ! k) = bank_of (drawn ! k)"
proof (cases "da_distinct args")
  case True
  let ?s = "unat (da_num_values args) div 16"
  let ?h = "hits (bank_of (drawn ! k)) (take k drawn) mod ?s"
  have "?h < ?s" using generate_ids_nth(2) [OF assms(1) True assms(3)] by simp
  then have "?h * 16 + bank_of (drawn ! k) < ?s * 16" using bank_of_less [of "drawn ! k"] by linarith
  also have "\<dots> \<le> unat (da_num_values args)" by (rule div_times_less_eq_dividend)
  finally show ?thesis
    using generate_ids_nth(1) [OF assms(1) True assms(3)] bank_of_less [of "drawn ! k"] by (simp add: bank_of_def)
qed (use assms(2,3) in \<open>simp add: generate_ids_def\<close>)

lemma hits_map: "hits b ds = length (filter (\<lambda>c. c = b) (map bank_of ds))"
  by (simp add: hits_def filter_map comp_def)

lemma bank_counts_hits:
  "length counts = 16 \<Longrightarrow> length (bank_counts ds counts) = 16 \<and>
   (\<forall>b < 16. bank_counts ds counts ! b = counts ! b + hits b ds)"
proof (induction ds arbitrary: counts)
  case (Cons d ds)
  have "unat ((ucast d :: u64) mod NUM_BANKS) = bank_of d"
    by (simp add: NUM_BANKS_def unat_mod unat_ucast_32_64 bank_of_def)
  then show ?case
    using Cons.IH [of "counts[bank_of d := Suc (counts ! bank_of d)]"] Cons.prems bank_of_less [of d]
    by (simp add: Let_def nth_list_update)
qed simp

lemma hits_total: "(\<Sum>b < 16. hits b ds) = length ds"
proof (induction ds)
  case (Cons d ds)
  have "(\<Sum>b < 16. hits b (d # ds)) = (\<Sum>b < 16. (if b = bank_of d then 1 else 0) + hits b ds)"
    by (intro sum.cong) auto
  also have "\<dots> = (\<Sum>b < (16 :: nat). if b = bank_of d then 1 else 0) + length ds"
    using Cons.IH by (simp only: sum.distrib)
  finally show ?case using bank_of_less [of d] by simp
qed simp

text \<open>The hottest bank has the most hits, so at least its share of a balanced distribution.\<close>

lemma hottest_bank:
  "hottest_bank ids = Max ((\<lambda>b. hits b ids) ` {..< 16})" "length ids \<le> 16 * hottest_bank ids"
proof -
  note bc = bank_counts_hits [of "replicate 16 0" ids]
  have "set (bank_counts ids (replicate 16 0)) = (\<lambda>b. hits b ids) ` {..< 16}"
    using bc by (auto simp: set_conv_nth image_iff) metis
  then show max: "hottest_bank ids = Max ((\<lambda>b. hits b ids) ` {..< 16})"
    by (simp add: hottest_bank_def NUM_BANKS_def)
  have "(\<Sum>b < 16. hits b ids) \<le> (\<Sum>b < (16 :: nat). hottest_bank ids)"
    unfolding max by (intro sum_mono Max_ge) simp_all
  then show "length ids \<le> 16 * hottest_bank ids" by (simp add: hits_total)
qed

section \<open>The runs\<close>

lemma verify_exact: "length output = length ids \<Longrightarrow>
  dict_verify_output vals ids output = 0 \<longleftrightarrow> output = map (\<lambda>d. vals ! unat d) ids"
  unfolding dict_verify_output_def list_eq_iff_nth_eq by (auto simp: filter_empty_conv)

text \<open>The output of a run is right: every id has become its entry.\<close>

definition run_right :: "'d dict_args \<Rightarrow> u32 list \<Rightarrow> u8 list \<Rightarrow> bool" where
  "run_right args ids bytes \<longleftrightarrow>
     (if da_value_bits args = 32
      then read_words bytes (length ids) = map (\<lambda>d. (fill_values (unat (da_num_values args)) :: u32 list) ! unat d) ids
      else read_words bytes (length ids) = map (\<lambda>d. (fill_values (unat (da_num_values args)) :: u64 list) ! unat d) ids)"

lemma dict_verify_run_right: "dict_verify_run args ids bytes = 0 \<longleftrightarrow> run_right args ids bytes"
  by (simp add: dict_verify_run_def run_right_def verify_exact read_words_def)

text \<open>What a run asks of the driver, apart from mappings.\<close>

definition dict_calls :: "u64 \<Rightarrow> StreamConfig \<Rightarrow> 'd dict_args \<Rightarrow> ptr \<Rightarrow> ptr \<Rightarrow> ptr \<Rightarrow> cthread" where
  "dict_calls mx sc args v i r =
     (let b = da_value_bits args div 8 in
      SetCSR (stream_register_value (if da_value_bits args = 32 then INT32_T else INT64_T) 0) (addr_offset sc) #
      write_calls 0 (chunks_of mx r (da_num_ids args * b)) @
      read_calls 0 True (chunks_of mx v (da_num_values args * b)) @
      read_calls 1 True (chunks_of mx i (da_num_ids args * 4)))"

lemma dict_calls_simps:
  "ClearCompleted \<notin> set (dict_calls mx sc args v i r)"
  "length (filter is_write (dict_calls mx sc args v i r)) =
     num_chunks (unat (da_num_ids args * (da_value_bits args div 8))) (unat mx)"
  by (simp_all add: dict_calls_def Let_def)

context memory_pool
begin

lemma dict_runs_all:
  assumes "host_sound pool_inv h" and "0 < sc_num_streams sc" and "0 < num_regs sc" and "0 < mx"
    and "live (host_pool h) v = Some (da_num_values args * (da_value_bits args div 8))"
    and "live (host_pool h) i = Some (da_num_ids args * 4)"
    and "live (host_pool h) r = Some (da_num_ids args * (da_value_bits args div 8))"
    and "unat (da_num_values args * (da_value_bits args div 8)) + unat mx \<le> 2 ^ 64"
    and "unat (da_num_ids args * 4) + unat mx \<le> 2 ^ 64"
    and "unat (da_num_ids args * (da_value_bits args div 8)) + unat mx \<le> 2 ^ 64"
    and "device_completes dev 0"
  shows "\<exists>css h'. length css = n \<and>
    dict_runs dev mx ops sc args v i r ids n w h = (Some (Inr (w + (\<Sum>cs \<leftarrow> css. dict_verify_run args ids
      (received_bytes dev cs r (da_num_ids args * (da_value_bits args div 8))))), h')) \<and>
    host_sound pool_inv h' \<and> host_pool h' = host_pool h \<and>
    (\<forall>k < n. program_calls (css ! k) =
       posted h @ concat (replicate (Suc k) (ClearCompleted # dict_calls mx sc args v i r)))"
  using assms(1,5-7)
proof (induction n arbitrary: h w)
  case 0
  then show ?case by simp
next
  case (Suc n)
  let ?N = "num_chunks (unat (da_num_ids args * (da_value_bits args div 8))) (unat mx)"
  let ?ds = "dict_calls mx sc args v i r"
  obtain h0 where h0: "posts pool_inv (on_cthread (call ClearCompleted)) h () [ClearCompleted] h0"
    using call_posts [OF Suc.prems(1), of ClearCompleted] by auto
  then have s0: "host_sound pool_inv h0" "host_pool h0 = host_pool h" by (simp_all add: posts_def)
  obtain h1 where h1: "posts pool_inv (dict_run mx ops sc args v i r) h0 (of_nat ?N) ?ds h1"
    using dict_run_posts [OF s0(1) assms(2-4) _ _ _ assms(8-10) refl refl refl, of v i r] Suc.prems(2-4)
    unfolding s0(2) dict_calls_def Let_def by blast
  from posts_seq [OF h0 h1]
  have run: "seqE (on_cthread (call ClearCompleted)) (\<lambda>_. dict_run mx ops sc args v i r) h = (Inr (of_nat ?N), h1)"
    and s1: "host_sound pool_inv h1" "host_pool h1 = host_pool h" and p1: "posted h1 = posted h @ ClearCompleted # ?ds"
    by (simp_all add: posts_def)
  have "\<exists>k. dv_completed dev (host_cthread h1) k = of_nat ?N"
    using assms(11) num_after_clear(1) [OF p1 dict_calls_simps(1)] unfolding device_completes_def
    by (metis add.right_neutral dict_calls_simps(2) mult_zero_right)
  then obtain m where m: "wait_completed (dv_completed dev (host_cthread h1)) (of_nat ?N) 0 = Some m"
    using wait_completed_iff by blast
  let ?w = "w + dict_verify_run args ids
    (received_bytes dev (host_cthread h1) r (da_num_ids args * (da_value_bits args div 8)))"
  obtain css h' where ih: "length css = n"
    "dict_runs dev mx ops sc args v i r ids n ?w h1 = Some (Inr (?w + (\<Sum>cs \<leftarrow> css. dict_verify_run args ids
      (received_bytes dev cs r (da_num_ids args * (da_value_bits args div 8))))), h')"
    "host_sound pool_inv h'" "host_pool h' = host_pool h1"
    "\<forall>k < n. program_calls (css ! k) =
       posted h1 @ concat (replicate (Suc k) (ClearCompleted # ?ds))"
    using Suc.IH [OF s1(1) Suc.prems(2-4) [folded s1(2)], where w = ?w] by blast
  have "\<forall>k < Suc n. program_calls ((host_cthread h1 # css) ! k) =
       posted h @ concat (replicate (Suc k) (ClearCompleted # ?ds))"
    using ih(5) p1 by (simp add: nth_Cons program_calls_posted split: nat.splits)
  then show ?case
    using ih(1-4) s1(2) run m by (intro exI [of _ "host_cthread h1 # css"] exI [of _ h']) (simp add: add.assoc)
qed

end

section \<open>Properties\<close>

text \<open>C28. The generated ids index the dictionary: for every distribution, skew and draws with the library's
  guarantees, and with or without \<open>--distinct\<close>, generating the ids does not read a vector out of range
  and gives the requested number of ids, all of them smaller than the number of entries. Every id has
  the bank of its draw, so \<open>--distinct\<close> does not change the shares of the banks, and the hottest bank that
  is reported has at least a sixteenth of the ids.\<close>

theorem generated_ids_index_the_dictionary:
  assumes "dict_parse_args stod zero opts = Inr args" and "draws_ok fl args dr"
  shows "\<exists>drawn. drawn_ids fl args dr = Inr drawn \<and> length (generate_ids args drawn) = unat (da_num_ids args) \<and>
    (\<forall>d \<in> set (generate_ids args drawn). unat d < unat (da_num_values args)) \<and>
    bank_counts (generate_ids args drawn) (replicate 16 0) = map (\<lambda>b. hits b drawn) [0 ..< 16] \<and>
    unat (da_num_ids args) \<le> 16 * hottest_bank (generate_ids args drawn)"
proof -
  obtain drawn where drawn: "drawn_ids fl args dr = Inr drawn" "length drawn = unat (da_num_ids args)"
    "\<forall>d \<in> set drawn. unat d < unat (da_num_values args)"
    using drawn_ids_returns [OF assms] .
  let ?ids = "generate_ids args drawn"
  note range = generate_ids_in_range [OF assms(1) drawn(3)]
  have "map bank_of ?ids = map bank_of drawn" using range by (simp add: list_eq_iff_nth_eq)
  then have "hits b ?ids = hits b drawn" for b by (simp add: hits_map)
  then have "bank_counts ?ids (replicate 16 0) = map (\<lambda>b. hits b drawn) [0 ..< 16]"
    using bank_counts_hits [of "replicate 16 0" ?ids] by (simp add: list_eq_iff_nth_eq)
  moreover have "\<forall>d \<in> set ?ids. unat d < unat (da_num_values args)"
    using range by (auto simp: in_set_conv_nth)
  ultimately show ?thesis using drawn(1,2) hottest_bank(2) [of ?ids] by auto
qed

definition example_floats :: "nat floats" where
  "example_floats = \<lparr>fl_zero = 0, fl_is_zero = (\<lambda>z. z = 0), fl_add = (+), fl_less = (<), fl_weight = (\<lambda>_ _. 1)\<rparr>"

definition example_draws :: "nat draws" where
  "example_draws = \<lparr>dr_ids = replicate 32 0, dr_rank_to_id = [], dr_reals = []\<rparr>"

lemma example_draws_ok: "draws_ok example_floats dict_example_args example_draws"
  by (simp add: draws_ok_def example_floats_def example_draws_def dict_example_args_def dict_default_args_def)

theorem generated_ids_index_the_dictionary_witness:
  "\<exists>drawn. drawn_ids example_floats dict_example_args example_draws = Inr drawn \<and>
    bank_counts (generate_ids dict_example_args drawn) (replicate 16 0) = map (\<lambda>b. hits b drawn) [0 ..< 16] \<and>
    32 \<le> 16 * hottest_bank (generate_ids dict_example_args drawn)"
  using generated_ids_index_the_dictionary [OF dict_example_args example_draws_ok]
  by (auto simp: dict_example_args_def)

text \<open>
  The guarantee on the reals is needed: a draw that rounding has made equal to the sum of the weights
  reads the ids of the ranks out of range.
\<close>

lemma zipf_draw_out_of_range:
  assumes "\<forall>x \<in> set cdf. \<not> lt v x" and "length rank_to_id = length cdf"
  shows "zipf_ids lt cdf rank_to_id (v # vs) = Inl UndefinedBehaviour"
proof -
  have "takeWhile (\<lambda>x. \<not> lt v x) cdf = cdf" using assms(1) by simp
  then have "upper_bound lt cdf v = length cdf" by (simp only: upper_bound_def)
  then show ?thesis using assms(2) by (simp add: vec_at_def bind_sum_def)
qed

text \<open>C25. The dictionary program's verdict: over any pool, for at least one and at most 2^45 ids and with draws as
  the random library documents them, when the preparation returns, with stream registers that are not
  none, and the driver counts the writes it was asked for, every wait of the program ends and \<open>main\<close>
  returns. Before the wait of each run the driver has been asked for exactly the calls of all runs so
  far, and the program ends with success exactly when after each of these waits the output buffer, set
  to 0 before the run, holds the entry of every id in order. The entries are those of the dictionary's
  contents as \<open>main\<close> wrote them into its buffer, which nothing writes afterwards. With no ids, which
  \<open>main\<close> accepts, it ends with an uncaught exception instead (\<open>dictionary_no_ids\<close>).\<close>

theorem dictionary_program_verdict:
  assumes "memory_pool ops pool_inv live" and "host_sound pool_inv h" and "huge_range_ok ops pool_inv huge"
    and "dict_parse_args stod (fl_zero fl) opts = Inr args" and "0 < da_num_ids args"
    and "unat (da_num_ids args) * 8 \<le> max_request"
    and "dict_setup csr ops huge args h = (Inr (sc, v, i, r), h1)"
    and "0 < num_regs sc" and "0 < mx" and "unat mx \<le> 2 ^ 63"
    and "draws_ok fl args dr" and "device_completes dev 0"
  shows "\<exists>drawn css st h2. drawn_ids fl args dr = Inr drawn \<and> length css = unat (da_num_runs args) \<and>
    (\<forall>k < length css. program_calls (css ! k) =
       posted h1 @ concat (replicate (Suc k) (ClearCompleted # dict_calls mx sc args v i r))) \<and>
    dict_main stod fl csr dev mx ops huge dr opts h = Some (Inr st, h2) \<and> host_sound pool_inv h2 \<and>
    st = (if \<forall>cs \<in> set css. run_right args (generate_ids args drawn)
        (received_bytes dev cs r (da_num_ids args * (da_value_bits args div 8)))
      then EXIT_SUCCESS else EXIT_FAILURE)"
proof -
  let ?vsz = "da_num_values args * (da_value_bits args div 8)" and ?isz = "da_num_ids args * 4"
  let ?osz = "da_num_ids args * (da_value_bits args div 8)"
  note sz = dict_sizes [OF assms(4-6)]
  from wpD_Inr [OF memory_pool.wp_dict_setup [OF assms(1-3) sz refl refl refl] assms(7)]
  have prep: "host_sound pool_inv h1" "dict_stream_config csr = Inr sc" "distinct [v, i, r]"
    "live (host_pool h1) = (live (host_pool h))(v \<mapsto> ?vsz, i \<mapsto> ?isz, r \<mapsto> ?osz)"
    by simp_all
  have blocks: "live (host_pool h1) v = Some ?vsz" "live (host_pool h1) i = Some ?isz"
    "live (host_pool h1) r = Some ?osz"
    using prep(3,4) by auto
  have room: "unat n + unat mx \<le> 2 ^ 64" if "unat n \<le> max_request" for n :: u64
    using that assms(10) by (simp add: max_request_def)
  obtain drawn where drawn: "drawn_ids fl args dr = Inr drawn"
    using drawn_ids_returns [OF assms(4,11)] .
  have "0 < sc_num_streams sc" using dict_stream_config_streams [OF prep(2)] by simp
  from memory_pool.dict_runs_all [OF assms(1) prep(1) this assms(8,9) blocks sz(4-6) [THEN room] assms(12),
      of "unat (da_num_runs args)" "generate_ids args drawn" 0]
  obtain css h2 where css: "length css = unat (da_num_runs args)"
    "dict_runs dev mx ops sc args v i r (generate_ids args drawn) (unat (da_num_runs args)) 0 h1 =
       Some (Inr (\<Sum>cs \<leftarrow> css. dict_verify_run args (generate_ids args drawn) (received_bytes dev cs r ?osz)), h2)"
    "host_sound pool_inv h2"
    "\<forall>k < length css. program_calls (css ! k) =
       posted h1 @ concat (replicate (Suc k) (ClearCompleted # dict_calls mx sc args v i r))"
    by auto
  have "(\<Sum>cs \<leftarrow> css. dict_verify_run args (generate_ids args drawn) (received_bytes dev cs r ?osz)) = 0 \<longleftrightarrow>
      (\<forall>cs \<in> set css. run_right args (generate_ids args drawn) (received_bytes dev cs r ?osz))"
    by (simp add: sum_list_eq_0_iff dict_verify_run_right)
  then show ?thesis
    using drawn css assms(4,7) by (intro exI [of _ drawn] exI [of _ css] exI [of _ h2]) (simp add: dict_main_def)
qed

text \<open>A device that counts but writes nothing: the program returns, with a failure.\<close>

definition silent_device :: device where
  "silent_device = \<lparr>dv_completed = (\<lambda>cs _. of_nat (num_writes cs)), dv_written = (\<lambda>_ _. None), dv_csr = (\<lambda>_. dict_csr)\<rparr>"

lemma silent_device: "device_completes silent_device 0" "received_bytes silent_device cs p sz = replicate (unat sz) 0"
  by (simp_all add: device_completes_def silent_device_def received_bytes_def map_replicate_const)

theorem dictionary_program_verdict_witness:
  "\<exists>h2. dict_main (\<lambda>_. Inl (Exit 1)) example_floats dict_csr silent_device 64 SimpleMemoryPool_ops (\<lambda>_. None)
      example_draws dict_example_opts program_host = Some (Inr EXIT_FAILURE, h2) \<and> host_sound sp_inv h2"
proof -
  have huge: "huge_range_ok SimpleMemoryPool_ops sp_inv (\<lambda>_. None)" by (simp add: huge_range_ok_def)
  have args: "dict_parse_args (\<lambda>_. Inl (Exit 1)) (fl_zero example_floats) dict_example_opts = Inr dict_example_args"
    using dict_example_args by (simp add: example_floats_def)
  have v: "da_num_ids dict_example_args = 32" "da_num_values dict_example_args = 32" "da_value_bits dict_example_args = 32"
    "da_num_runs dict_example_args = 5"
    by (simp_all add: dict_example_args_def dict_default_args_def)
  obtain drawn css st h2 where r: "drawn_ids example_floats dict_example_args example_draws = Inr drawn"
    "length css = 5"
    "dict_main (\<lambda>_. Inl (Exit 1)) example_floats dict_csr silent_device 64 SimpleMemoryPool_ops (\<lambda>_. None)
      example_draws dict_example_opts program_host = Some (Inr st, h2)" "host_sound sp_inv h2"
    "st = (if \<forall>cs \<in> set css. run_right dict_example_args (generate_ids dict_example_args drawn)
        (received_bytes silent_device cs 65792 (da_num_ids dict_example_args * (da_value_bits dict_example_args div 8)))
      then EXIT_SUCCESS else EXIT_FAILURE)"
    using dictionary_program_verdict [OF simple_pool.memory_pool_axioms program_host_sound huge args _ _
        example_dict_setup _ _ _ example_draws_ok silent_device(1), of 64]
    by (auto simp: v max_request_def)
  have drawn: "drawn = replicate 32 0"
    using r(1) by (simp add: drawn_ids_def example_floats_def example_draws_def dict_example_args_def dict_default_args_def)
  have "\<not> run_right dict_example_args (generate_ids dict_example_args drawn) (replicate 128 0)"
    unfolding drawn by code_simp
  moreover obtain cs css' where "css = cs # css'" using r(2) by (cases css) auto
  ultimately have "st = EXIT_FAILURE" using r(5) by (auto simp: v silent_device(2))
  with r(3,4) show ?thesis by blast
qed


text \<open>
  The option \<open>--ids 0\<close> is accepted and the preparation returns, but the buffers of the ids and of the
  output are empty, so the first run ends with the exception of \<open>ensure_tlb_mapping\<close>, which nothing catches.
\<close>

definition no_ids_opts :: "(char \<times> string) list" where
  "no_ids_opts = [(CHR ''v'', ''32''), (CHR ''i'', ''0'')]"

definition no_ids_args :: "nat dict_args" where
  "no_ids_args = (dict_default_args 0)\<lparr>da_num_values := 32, da_num_ids := 0\<rparr>"

lemma no_ids_args: "dict_parse_args (\<lambda>_. Inl (Exit 1)) 0 no_ids_opts = Inr no_ids_args"
proof -
  have "scan_number ''32'' = Some (False, 32)" "scan_number ''0'' = Some (False, 0)" by code_simp+
  then show ?thesis
    by (simp add: dict_parse_args_def no_ids_opts_def stoul_def bind_sum_def no_ids_args_def
        dict_default_args_def DICT_ID_BITS_def NUM_BANKS_def IDS_PER_BEAT_def Let_def)
qed

lemma no_ids_run:
  "case dict_setup dict_csr SimpleMemoryPool_ops (\<lambda>_. None) no_ids_args program_host of
     (Inr (sc, v, i, r), h1) \<Rightarrow>
       (case seqE (on_cthread (call ClearCompleted)) (\<lambda>_. dict_run 64 SimpleMemoryPool_ops sc no_ids_args v i r) h1
        of (Inl (RuntimeError _), _) \<Rightarrow> True | _ \<Rightarrow> False)
   | _ \<Rightarrow> False"
  by code_simp

lemma dictionary_no_ids:
  "\<exists>m h. dict_main (\<lambda>_. Inl (Exit 1)) example_floats dict_csr dev 64 SimpleMemoryPool_ops (\<lambda>_. None)
     example_draws no_ids_opts program_host = Some (Inl (RuntimeError m), h)"
proof -
  obtain x h1 where prep: "dict_setup dict_csr SimpleMemoryPool_ops (\<lambda>_. None) no_ids_args program_host = (x, h1)"
    by fastforce
  with no_ids_run obtain sc v i r where x: "x = Inr (sc, v, i, r)" by (cases x) auto
  let ?run = "seqE (on_cthread (call ClearCompleted)) (\<lambda>_. dict_run 64 SimpleMemoryPool_ops sc no_ids_args v i r) h1"
  obtain y h2 where run: "?run = (y, h2)" by fastforce
  with no_ids_run prep x obtain m where "y = Inl (RuntimeError m)"
    by (cases y) (auto split: cpp_error.splits)
  with run have "dict_runs dev 64 SimpleMemoryPool_ops sc no_ids_args v i r ids (Suc 4) 0 h1 =
      Some (Inl (RuntimeError m), h2)" for ids
    by (subst dict_runs.simps(2)) simp
  moreover have "unat (da_num_runs no_ids_args) = Suc 4" "da_zipf no_ids_args = 0"
    by (simp_all add: no_ids_args_def dict_default_args_def)
  ultimately show ?thesis
    using no_ids_args prep x by (simp add: dict_main_def drawn_ids_def example_floats_def del: dict_runs.simps)
qed

end
