(* ===== verification/Output_Example.thy ===== *)
theory Output_Example
  imports Output_Buffer_Manager Host_Programs
begin

text \<open>
  The program \<open>examples/01_output_buffer_manager/src/main.cpp\<close>: it sends the same input over all streams,
  one run after the other, takes the output from the handles of the output buffer manager in a
  second thread and compares it with the input. The model has the arguments, the preparation, the
  transfers, the loop of the fetching thread, the comparison and the sums of the cycle counters.
  A buffer that was not taken is \<open>None\<close>, the null pointer of the code.
\<close>

section \<open>Arguments\<close>

record obm_args =
  oa_num_enqueued_buffers :: u64
  oa_buffer_size :: u64
  oa_num_streams :: u64
  oa_size :: u64
  oa_num_runs :: u64

definition obm_default_args :: obm_args where
  "obm_default_args = \<lparr>oa_num_enqueued_buffers = 2, oa_buffer_size = ucast MAXIMUM_OUTPUT_WRITER_BUFFER_SIZE,
     oa_num_streams = 1, oa_size = 512 * 1024 * 1024, oa_num_runs = 8\<rparr>"

text \<open>The options are read as \<open>int\<close> and become \<open>size_t\<close>.\<close>

definition stoi_size :: "string \<Rightarrow> cpp_error + u64" where
  "stoi_size optarg = bind_sum (stoi optarg) (\<lambda>k. Inr (word_of_int k))"

fun obm_options :: "(char \<times> string) list \<Rightarrow> obm_args \<Rightarrow> cpp_error + obm_args" where
  "obm_options [] args = Inr args"
| "obm_options ((opt, optarg) # opts) args =
     (if opt = CHR ''e'' then bind_sum (stoi_size optarg) (\<lambda>v. obm_options opts (args\<lparr>oa_num_enqueued_buffers := v\<rparr>))
      else if opt = CHR ''b'' then bind_sum (stoi_size optarg) (\<lambda>v. obm_options opts (args\<lparr>oa_buffer_size := v\<rparr>))
      else if opt = CHR ''S'' then bind_sum (stoi_size optarg) (\<lambda>v. obm_options opts (args\<lparr>oa_num_streams := v\<rparr>))
      else if opt = CHR ''s'' then bind_sum (stoi_size optarg) (\<lambda>v. obm_options opts (args\<lparr>oa_size := v\<rparr>))
      else if opt = CHR ''r'' then bind_sum (stoi_size optarg) (\<lambda>v. obm_options opts (args\<lparr>oa_num_runs := v\<rparr>))
      else if opt = CHR ''h'' then Inl (Exit 0)
      else Inl (Exit 1))"

definition obm_parse_args :: "(char \<times> string) list \<Rightarrow> cpp_error + obm_args" where
  "obm_parse_args opts = obm_options opts obm_default_args"

section \<open>Preparation and transfers\<close>

text \<open>The configurations of the design.\<close>

definition obm_configs :: "csr \<Rightarrow> cpp_error + (GlobalConfig \<times> MemConfig \<times> Config)" where
  "obm_configs csr =
     bind_sum (GlobalConfig_init csr) (\<lambda>global_config.
     case get_config csr MemConfig_class global_config of
       (Inr (AMem mem_config), global_config) \<Rightarrow>
         (case get_config csr PlainConfig_class global_config of
            (Inr (APlain perf_config), global_config) \<Rightarrow> Inr (global_config, mem_config, perf_config)
          | (Inl e, _) \<Rightarrow> Inl e
          | _ \<Rightarrow> Inl UndefinedBehaviour)
     | (Inl e, _) \<Rightarrow> Inl e
     | _ \<Rightarrow> Inl UndefinedBehaviour)"

text \<open>The program up to its input buffer; all streams are managed.\<close>

definition obm_setup ::
  "csr \<Rightarrow> 'p MemoryPool \<Rightarrow> ('p \<Rightarrow> (ptr \<times> u64) option) \<Rightarrow> obm_args \<Rightarrow> ('p host, obm_params \<times> Config \<times> ptr) action" where
  "obm_setup csr ops huge args =
     seqE (liftE (obm_configs csr)) (\<lambda>(global_config, mem_config, perf_config).
     seqE (liftE (OutputBufferManager_init mem_config (NOT 0) (oa_num_enqueued_buffers args) (oa_buffer_size args)))
       (\<lambda>output_buffer_manager.
     seqE (on_cthread (write_register perf_config (ConfigRegister_of 0 (oa_num_runs args)))) (\<lambda>_.
     seqE (assertE (system_id global_config = 0)) (\<lambda>_.
     seqE (assertE (oa_num_streams args > 0 \<and> oa_num_streams args \<le> ucast (num_streams mem_config))) (\<lambda>_.
     seqE (premap_huge_pool ops huge) (\<lambda>_.
     seqE (on_cthread (MemConfig_flush_buffers (obm_mem_config output_buffer_manager))) (\<lambda>_.
     seqE (on_pool (pool_allocate_default ops (oa_size args) nullptr)) (\<lambda>(st, input).
     if \<not> status_ok st then throw (Exit EXIT_FAILURE)
     else ret (output_buffer_manager, perf_config, input)))))))))"

definition obm_fill_input :: "obm_args \<Rightarrow> u64 list" where
  "obm_fill_input args = map of_nat [0 ..< unat (oa_size args div 8)]"

text \<open>The mask is computed as an \<open>int\<close>, which overflows from 31 streams on.\<close>

definition obm_mask_all :: "obm_args \<Rightarrow> cpp_error + stream_mask_t" where
  "obm_mask_all args =
     (if oa_num_streams args < 31 then Inr (push_bit (unat (oa_num_streams args)) 1 - 1) else Inl UndefinedBehaviour)"

fun obm_acquire_handles ::
  "obm_params \<Rightarrow> 'p MemoryPool \<Rightarrow> stream_mask_t \<Rightarrow> nat \<Rightarrow> ('p obm, nat list) action" where
  "obm_acquire_handles c ops mask_all 0 = ret []"
| "obm_acquire_handles c ops mask_all (Suc n) =
     seqE (acquire_output_handle c ops mask_all) (\<lambda>h.
     seqE (obm_acquire_handles c ops mask_all n) (\<lambda>hs. ret (h # hs)))"

definition obm_post_inputs :: "u64 \<Rightarrow> 'p MemoryPool \<Rightarrow> obm_args \<Rightarrow> ptr \<Rightarrow> ('p host, unit) action" where
  "obm_post_inputs mx ops args input =
     for_each [0 ..< unat (oa_num_runs args)] (\<lambda>i.
       for_each [0 ..< unat (oa_num_streams args)] (\<lambda>j.
         enqueue_stream_input mx ops input (oa_size args) (of_nat j) True))"

section \<open>Fetching and comparing\<close>

text \<open>The inner loop of the fetching thread over the streams of a handle.\<close>

fun fetch_streams :: "stream_t list \<Rightarrow> (OutputHandle, Buffer option list blocking) action" where
  "fetch_streams [] = ret (Returns [])"
| "fetch_streams (j # js) =
     seqE (get_next_stream_output j) (\<lambda>r.
     case r of
       Blocks \<Rightarrow> ret Blocks
     | Returns b \<Rightarrow>
         seqE (fetch_streams js) (\<lambda>rs.
         case rs of Blocks \<Rightarrow> ret Blocks | Returns bs \<Rightarrow> ret (Returns (b # bs))))"

text \<open>
  The loop of the fetching thread for one handle; \<open>None\<close> would be a loop that does not end, and \<open>Blocks\<close>
  is a call that has to wait for another thread.
\<close>

partial_function (option) fetch_outputs ::
  "stream_t list \<Rightarrow> Buffer option list \<Rightarrow> OutputHandle \<Rightarrow>
   ((cpp_error + Buffer option list blocking) \<times> OutputHandle) option" where
  "fetch_outputs js output h =
     (case any_stream_has_more_output h of
        (Inl e, h1) \<Rightarrow> Some (Inl e, h1)
      | (Inr Blocks, h1) \<Rightarrow> Some (Inr Blocks, h1)
      | (Inr (Returns has_more), h1) \<Rightarrow>
          if \<not> has_more then Some (Inr (Returns output), h1)
          else
            (case fetch_streams js h1 of
               (Inl e, h2) \<Rightarrow> Some (Inl e, h2)
             | (Inr Blocks, h2) \<Rightarrow> Some (Inr Blocks, h2)
             | (Inr (Returns bs), h2) \<Rightarrow> fetch_outputs js (output @ bs) h2))"

text \<open>The words of a buffer; \<open>word\<close> is what the memory holds at an address.\<close>

definition buffer_words :: "(ptr \<Rightarrow> u64) \<Rightarrow> Buffer \<Rightarrow> u64 list" where
  "buffer_words word b = map (\<lambda>j. word (buf_ptr b + 8 * of_nat j)) [0 ..< unat (buf_size b div 8)]"

fun obm_verify_stream ::
  "(ptr \<Rightarrow> u64) \<Rightarrow> Buffer option list \<Rightarrow> u64 \<Rightarrow> nat \<Rightarrow> cpp_error + u64 \<times> nat" where
  "obm_verify_stream word [] i num_wrong_values = Inr (i, num_wrong_values)"
| "obm_verify_stream word (None # bs) i num_wrong_values = Inl UndefinedBehaviour"
| "obm_verify_stream word (Some b # bs) i num_wrong_values =
     (let ws = buffer_words word b in
      obm_verify_stream word bs (i + of_nat (length ws))
        (num_wrong_values + length (filter (\<lambda>j. ws ! j \<noteq> i + of_nat j) [0 ..< length ws])))"

text \<open>The loop over the streams; the output is that of the runs, and the stream is used as its index.\<close>

fun obm_verify ::
  "(ptr \<Rightarrow> u64) \<Rightarrow> obm_args \<Rightarrow> Buffer option list list \<Rightarrow> nat list \<Rightarrow> nat \<Rightarrow> cpp_error + nat" where
  "obm_verify word args output [] num_wrong_values = Inr num_wrong_values"
| "obm_verify word args output (s # ss) num_wrong_values =
     bind_sum (vec_at output s) (\<lambda>stream_output.
     bind_sum (obm_verify_stream word stream_output 0 num_wrong_values) (\<lambda>(i, n).
     if i \<noteq> oa_size args div 8 then Inl AssertionFailure
     else obm_verify word args output ss n))"

text \<open>The counters: cycles with a handshake, starved, stalled and idle.\<close>

fun obm_cycles ::
  "csr \<Rightarrow> Config \<Rightarrow> nat list \<Rightarrow> u64 \<times> u64 \<times> u64 \<times> u64 \<Rightarrow> cpp_error + u64 \<times> u64 \<times> u64 \<times> u64" where
  "obm_cycles csr perf_config [] sums = Inr sums"
| "obm_cycles csr perf_config (i # is) (handshake, starved, stalled, idle) =
     (let counter = (\<lambda>k. map_sum id reg_value (read_register csr perf_config (of_nat (4 * i + k)))) in
      bind_sum (counter 1) (\<lambda>c1. bind_sum (counter 2) (\<lambda>c2.
      bind_sum (counter 3) (\<lambda>c3. bind_sum (counter 4) (\<lambda>c4.
      obm_cycles csr perf_config is (handshake + c1, starved + c2, stalled + c3, idle + c4))))))"

section \<open>The fetching thread\<close>

text \<open>The first buffer of a queue, if it has one.\<close>

definition front_opt :: "'a list \<Rightarrow> 'a option" where
  "front_opt q = (case q of [] \<Rightarrow> None | b # _ \<Rightarrow> Some b)"

text \<open>The handle of the first \<open>n\<close> streams has received everything: all its streams are finished.\<close>

definition handle_complete :: "nat \<Rightarrow> OutputHandle \<Rightarrow> bool" where
  "handle_complete n h \<longleftrightarrow> length (oh_output_buffers h) = unat (oh_NUM_STREAMS h) \<and> unat (oh_NUM_STREAMS h) \<le> 64 \<and>
     n \<le> unat (oh_NUM_STREAMS h) \<and> (\<forall>j < n. bit (oh_active_streams h) j) \<and>
     (\<forall>j < unat (oh_NUM_STREAMS h). bit (oh_active_streams h) j \<longrightarrow> bit (oh_finished_streams h) j) \<and>
     list_all (\<lambda>q. q = []) (drop n (oh_output_buffers h))"

lemma get_next_complete:
  assumes "handle_complete n h" and "j < n"
  shows "get_next_stream_output (of_nat j) h =
    (Inr (Returns (front_opt (oh_output_buffers h ! j))),
     h\<lparr>oh_output_buffers := (oh_output_buffers h)[j := tl (oh_output_buffers h ! j)]\<rparr>)"
proof -
  have j: "unat (of_nat j :: stream_t) = j" "j < unat (oh_NUM_STREAMS h)" "j < 64"
    "j < length (oh_output_buffers h)"
    using assms by (auto simp: handle_complete_def unat_of_nat)
  have "(oh_output_buffers h)[j := []] = oh_output_buffers h" if "oh_output_buffers h ! j = []"
    using that by (metis list_update_id)
  moreover have "\<not> oh_NUM_STREAMS h \<le> of_nat j" using j(1,2) by (simp add: word_le_nat_alt)
  moreover have "bit (oh_active_streams h) j" "bit (oh_finished_streams h) j"
    using assms j(2) by (simp_all add: handle_complete_def)
  ultimately show ?thesis
    using j(1,3,4)
    by (cases "oh_output_buffers h ! j")
      (simp_all add: get_next_stream_output_def transferred_mem_front_to_shared_ptr_def check_stream_def vec_at_def
        method_defs mask_test_def MAXIMUM_FPGA_NUM_STREAMS_def stream_finished_def front_opt_def buffer_eta)
qed

text \<open>One round takes the front of every stream's queue.\<close>

lemma fetch_streams_complete:
  assumes "handle_complete n h" and "a \<le> n"
  shows "fetch_streams (map of_nat [a ..< n]) h =
    (Inr (Returns (map front_opt (drop a (take n (oh_output_buffers h))))),
     h\<lparr>oh_output_buffers := take a (oh_output_buffers h) @ map tl (drop a (oh_output_buffers h))\<rparr>)"
  using assms
proof (induction "n - a" arbitrary: a h)
  case 0
  then have "a = n" by simp
  moreover have "map tl (drop n (oh_output_buffers h)) = drop n (oh_output_buffers h)"
    using 0(2) by (intro map_idI) (auto simp: handle_complete_def list_all_iff)
  ultimately show ?case by (simp add: ret_def)
next
  case (Suc d)
  let ?qs = "oh_output_buffers h"
  let ?h = "h\<lparr>oh_output_buffers := ?qs[a := tl (?qs ! a)]\<rparr>"
  have a: "a < n" "a < length ?qs" using Suc.hyps(2) Suc.prems by (auto simp: handle_complete_def)
  have c: "handle_complete n ?h"
    using Suc.prems(1) a(1) by (simp add: handle_complete_def drop_update_cancel)
  have ih: "fetch_streams (map of_nat [Suc a ..< n]) ?h =
    (Inr (Returns (map front_opt (drop (Suc a) (take n (oh_output_buffers ?h))))),
     ?h\<lparr>oh_output_buffers := take (Suc a) (oh_output_buffers ?h) @ map tl (drop (Suc a) (oh_output_buffers ?h))\<rparr>)"
    using Suc.hyps(2) a(1) by (intro Suc.hyps(1) c) simp_all
  have up: "[a ..< n] = a # [Suc a ..< n]" using a(1) by (simp add: upt_conv_Cons)
  have d1: "drop a (take n ?qs) = ?qs ! a # drop (Suc a) (take n ?qs)"
    using a by (simp add: Cons_nth_drop_Suc [symmetric])
  have d2: "take a ?qs @ map tl (drop a ?qs) = take (Suc a) (?qs[a := tl (?qs ! a)]) @ map tl (drop (Suc a) ?qs)"
    using a(2) by (simp add: Cons_nth_drop_Suc [symmetric] take_Suc_conv_app_nth)
  show ?case
    unfolding up list.map fetch_streams.simps seqE_def get_next_complete [OF Suc.prems(1) a(1)] prod.case sum.case
      blocking.case ih
    by (simp add: ret_def d1 d2 take_update_swap)
qed

text \<open>The rounds until every queue is empty.\<close>

definition rounds :: "'a list list \<Rightarrow> nat" where
  "rounds qs = foldr max (map length qs) 0"

lemma rounds_simps [simp]: "rounds [] = 0" "rounds (q # qs) = max (length q) (rounds qs)"
  by (simp_all add: rounds_def)

lemma rounds_append: "rounds (xs @ ys) = max (rounds xs) (rounds ys)"
  by (induction xs) auto

lemma rounds_tl: "rounds (map tl qs) = rounds qs - 1"
  by (induction qs) (auto simp: max_def)

lemma rounds_0: "rounds qs = 0 \<longleftrightarrow> (\<forall>q \<in> set qs. q = [])"
  by (induction qs) auto

lemma length_le_rounds: "q \<in> set qs \<Longrightarrow> length q \<le> rounds qs"
  by (induction qs) auto

lemma rounds_witness: "rounds qs = 0 \<or> (\<exists>q \<in> set qs. length q = rounds qs)"
  by (induction qs) (auto simp: max_def)

text \<open>The \<open>r\<close>-th element of every queue, round by round.\<close>

definition by_rounds :: "'a list list \<Rightarrow> nat \<Rightarrow> 'a option list" where
  "by_rounds qs m = concat (map (\<lambda>r. map (\<lambda>q. front_opt (drop r q)) qs) [0 ..< m])"

lemma by_rounds_Suc: "by_rounds qs (Suc m) = map front_opt qs @ by_rounds (map tl qs) m"
proof -
  have "[0 ..< Suc m] = 0 # map Suc [0 ..< m]" by (simp add: map_Suc_upt upt_conv_Cons)
  then show ?thesis by (simp add: by_rounds_def o_def drop_Suc)
qed

lemma no_memory_in_flight:
  assumes "handle_complete n h"
  shows "any_memory_in_flight h = Inr False"
proof -
  have "in_flight_from h is = Inr False" if "\<forall>i \<in> set is. i < unat (oh_NUM_STREAMS h)" for "is"
    using that assms
    by (induction "is") (auto simp: mask_test_def MAXIMUM_FPGA_NUM_STREAMS_def handle_complete_def)
  then show ?thesis using assms by (simp add: any_memory_in_flight_def handle_complete_def)
qed

lemma fetch_outputs_complete:
  assumes "handle_complete n h"
  shows "fetch_outputs (map of_nat [0 ..< n]) out h =
    Some (Inr (Returns (out @ by_rounds (take n (oh_output_buffers h)) (rounds (oh_output_buffers h)))),
      h\<lparr>oh_output_buffers := map (\<lambda>_. []) (oh_output_buffers h)\<rparr>)"
  using assms
proof (induction "rounds (oh_output_buffers h)" arbitrary: h out)
  case 0
  let ?qs = "oh_output_buffers h"
  have "rounds ?qs = 0" using 0(1) by simp
  then have e: "\<forall>q \<in> set ?qs. [] = q" by (auto simp: rounds_0)
  then have "\<not> any_stream_output_available h"
    by (auto simp: any_stream_output_available_def list_ex_iff)
  moreover have "map (\<lambda>_. []) ?qs = ?qs" using e by (intro map_idI) simp
  ultimately show ?case
    using no_memory_in_flight [OF 0(2)] 0(1)
    by (subst fetch_outputs.simps) (simp add: any_stream_has_more_output_def method_defs by_rounds_def)
next
  case (Suc m)
  let ?qs = "oh_output_buffers h"
  let ?h = "h\<lparr>oh_output_buffers := map tl ?qs\<rparr>"
  have "rounds ?qs \<noteq> 0" using Suc.hyps(2) by simp
  then have "any_stream_output_available h"
    unfolding rounds_0 by (auto simp: any_stream_output_available_def list_ex_iff)
  then have more: "any_stream_has_more_output h = (Inr (Returns True), h)"
    by (simp add: any_stream_has_more_output_def method_defs)
  have c: "handle_complete n ?h"
    using Suc.prems by (auto simp: handle_complete_def list_all_iff drop_map)
  have m: "m = rounds (oh_output_buffers ?h)" using Suc.hyps(2) by (simp add: rounds_tl)
  have streams: "fetch_streams (map of_nat [0 ..< n]) h = (Inr (Returns (map front_opt (take n ?qs))), ?h)"
    using fetch_streams_complete [OF Suc.prems, of 0] by simp
  have r: "rounds ?qs = Suc m" using Suc.hyps(2) by simp
  show ?case
    using Suc.hyps(1) [OF m c, of "out @ map front_opt (take n ?qs)"] m
    by (subst fetch_outputs.simps) (simp add: more streams r by_rounds_Suc take_map o_def)
qed

lemma front_opt_None: "front_opt q = None \<longleftrightarrow> q = []"
  by (cases q) (simp_all add: front_opt_def)

lemma by_rounds_None: "None \<in> set (by_rounds qs (rounds qs)) \<longleftrightarrow> (\<exists>q \<in> set qs. length q < rounds qs)"
proof -
  have "None \<in> set (by_rounds qs m) \<longleftrightarrow> (\<exists>q \<in> set qs. length q < m)" for m
    by (auto simp: by_rounds_def image_iff eq_commute [of None] front_opt_None not_less)
      (meson order_le_less_trans)
  then show ?thesis by simp
qed

lemma by_rounds_single: "by_rounds [q] (length q) = map Some q"
proof (induction q)
  case (Cons b q)
  then show ?case by (simp add: by_rounds_Suc front_opt_def)
qed (simp add: by_rounds_def)

section \<open>The comparison\<close>

lemma mismatches_append:
  "length (filter (\<lambda>k. (xs @ ys) ! k \<noteq> i + of_nat k) [0 ..< length (xs @ ys)]) =
    length (filter (\<lambda>k. xs ! k \<noteq> i + of_nat k) [0 ..< length xs]) +
    length (filter (\<lambda>k. ys ! k \<noteq> (i + of_nat (length xs)) + of_nat k) [0 ..< length ys])"
  for xs :: "u64 list"
proof -
  have "[0 ..< length (xs @ ys)] = [0 ..< length xs] @ map (\<lambda>k. k + length xs) [0 ..< length ys]"
    using upt_add_eq_append [of 0 "length xs" "length ys"] map_add_upt [of "length xs" "length ys"]
    by (simp add: add.commute)
  moreover have "filter (\<lambda>k. (xs @ ys) ! k \<noteq> i + of_nat k) [0 ..< length xs] =
      filter (\<lambda>k. xs ! k \<noteq> i + of_nat k) [0 ..< length xs]"
    by (rule filter_cong) (simp_all add: nth_append)
  ultimately show ?thesis by (simp add: filter_map o_def nth_append ac_simps)
qed

lemma verify_stream_taken:
  "obm_verify_stream word (map Some bs) i n =
    Inr (i + of_nat (length (concat (map (buffer_words word) bs))),
      n + length (filter (\<lambda>k. concat (map (buffer_words word) bs) ! k \<noteq> i + of_nat k)
        [0 ..< length (concat (map (buffer_words word) bs))]))"
proof (induction bs arbitrary: i n)
  case (Cons b bs)
  then show ?case
    by (simp only: list.map obm_verify_stream.simps Let_def concat.simps mismatches_append)
      (simp add: ac_simps)
qed simp

text \<open>A null pointer in the output of a stream is dereferenced.\<close>

lemma verify_stream_null: "None \<in> set bs \<Longrightarrow> obm_verify_stream word bs i n = Inl UndefinedBehaviour"
  by (induction word bs i n rule: obm_verify_stream.induct) (simp_all add: Let_def)

lemma verify_out_of_range:
  "s \<in> set ss \<Longrightarrow> length output \<le> s \<Longrightarrow> \<exists>e. obm_verify word args output ss n = Inl e"
proof (induction ss arbitrary: n)
  case (Cons t ss)
  show ?case
  proof (cases "s \<in> set ss")
    case True
    show ?thesis
      using Cons.IH [OF True Cons.prems(2)]
      by (cases "obm_verify_stream word (output ! t) 0 n") (simp_all add: vec_at_def bind_sum_def split: prod.split)
  next
    case False
    then show ?thesis using Cons.prems by (simp add: vec_at_def bind_sum_def)
  qed
qed simp

lemma no_mismatch_iff:
  "length (filter (\<lambda>k. ws ! k \<noteq> of_nat k) [0 ..< length ws]) = 0 \<longleftrightarrow>
    ws = map (of_nat :: nat \<Rightarrow> u64) [0 ..< length ws]"
proof
  assume "length (filter (\<lambda>k. ws ! k \<noteq> of_nat k) [0 ..< length ws]) = 0"
  then have "\<forall>k < length ws. ws ! k = of_nat k" by (simp add: filter_empty_conv)
  then show "ws = map (of_nat :: nat \<Rightarrow> u64) [0 ..< length ws]" by (intro nth_equalityI) simp_all
next
  assume "ws = map (of_nat :: nat \<Rightarrow> u64) [0 ..< length ws]"
  then have "ws ! k = of_nat k" if "k < length ws" for k
    using that by (metis add_0 length_map nth_map nth_upt)
  then show "length (filter (\<lambda>k. ws ! k \<noteq> of_nat k) [0 ..< length ws]) = 0" by (simp add: filter_empty_conv)
qed

section \<open>Preparation and posted transfers\<close>

context memory_pool
begin

lemma wp_obm_setup:
  assumes "host_sound pool_inv h" and "huge_range_ok ops pool_inv huge" and "0 < oa_size args"
    and "unat (oa_size args) \<le> max_request"
  shows "wp (obm_setup csr ops huge args) (\<lambda>(c, perf, input) h'. host_sound pool_inv h' \<and>
      (\<exists>gc mc. obm_configs csr = Inr (gc, mc, perf) \<and> system_id gc = 0 \<and>
         OutputBufferManager_init mc (NOT 0) (oa_num_enqueued_buffers args) (oa_buffer_size args) = Inr c \<and>
         posted h' = posted h @ [SetCSR (oa_num_runs args) (addr_offset perf),
           SetCSR 0 (addr_offset mc + ucast (num_streams mc))]) \<and>
      0 < oa_num_streams args \<and> oa_num_streams args \<le> ucast (NUM_STREAMS c) \<and>
      live (host_pool h) input = None \<and> live (host_pool h') = (live (host_pool h))(input \<mapsto> oa_size args)) (\<lambda>_ _. True) h"
proof (cases "obm_configs csr")
  case (Inr x)
  obtain gc mc perf where x: "x = (gc, mc, perf)" by (metis prod_cases3)
  show ?thesis
  proof (cases "OutputBufferManager_init mc (NOT 0) (oa_num_enqueued_buffers args) (oa_buffer_size args)")
    case (Inr c)
    have c: "obm_mem_config c = mc" "NUM_STREAMS c = num_streams mc"
      using Inr by (auto simp: OutputBufferManager_init_def split: if_splits)
    let ?n = "oa_num_streams args"
    show ?thesis
      unfolding obm_setup_def \<open>obm_configs csr = Inr x\<close> x prod.case seqE_liftE_Inr Inr
      MemConfig_flush_buffers_def pool_allocate_default_def DEFAULT_ALIGNMENT_def
    proof (rule wp_register_write, rule wp_assertion, rule wp_assertion, goal_cases)
      case 1
      note checks = 1
      let ?h = "h\<lparr>host_cthread := host_cthread h @ [SetCSR (oa_num_runs args) (addr_offset perf)]\<rparr>"
      have sound: "host_sound pool_inv ?h" using host_sound_calls [OF assms(1)] by simp
      show ?case
        unfolding reg_simps add_0_right
      proof (rule wp_seqI [OF wp_premap_huge_pool [OF sound assms(2)]], goal_cases)
        case (1 _ h1)
        note h1 = 1
        let ?h1 = "h1\<lparr>host_cthread := host_cthread h1 @ [SetCSR 0 (addr_offset mc + ucast (num_streams mc))]\<rparr>"
        have sound1: "host_sound pool_inv ?h1" using host_sound_calls [of pool_inv h1] h1 by simp
        show ?case
          unfolding c
        proof (rule wp_register_write, unfold reg_simps, rule wp_allocate_or_exit [OF sound1 assms(3,4) valid_alignment_64],
            goal_cases)
          case (1 q h2)
          then show ?case
            using h1 checks c Inr \<open>obm_configs csr = _\<close> x by (simp add: wp_ret new_block posted_def)
        qed
      qed
    qed
  qed (simp add: obm_setup_def wp_simps Inr x)
qed (simp add: obm_setup_def wp_simps)

end

context memory_pool
begin

lemma obm_post_inputs_posts:
  assumes "host_sound pool_inv h" and "live (host_pool h) b = Some (oa_size args)" and "0 < mx"
    and "unat (oa_size args) + unat mx \<le> 2 ^ 64"
  shows "\<exists>h'. posts pool_inv (obm_post_inputs mx ops args b) h ()
    (concat (map (\<lambda>_. concat (map (\<lambda>j. read_calls (of_nat j) True (chunks_of mx b (oa_size args)))
      [0 ..< unat (oa_num_streams args)])) [0 ..< unat (oa_num_runs args)])) h'"
  unfolding obm_post_inputs_def
proof (rule posts_for_each [OF assms(1) _ refl])
  fix i h1 assume s: "host_sound pool_inv h1" and p: "host_pool h1 = host_pool h"
  show "\<exists>h'. posts pool_inv (for_each [0 ..< unat (oa_num_streams args)] (\<lambda>j.
        enqueue_stream_input mx ops b (oa_size args) (of_nat j) True)) h1 ()
      (concat (map (\<lambda>j. read_calls (of_nat j) True (chunks_of mx b (oa_size args))) [0 ..< unat (oa_num_streams args)])) h'"
    by (rule posts_for_each [OF s _ p]) (use transfer_posts(2) [OF _ _ assms(3,4)] assms(2) in simp)
qed

end

section \<open>Properties\<close>

text \<open>The result of the fetching thread for a handle that is finished.\<close>

lemma fetcher_result:
  assumes "handle_complete n h"
  shows "fetch_outputs (map of_nat [0 ..< n]) [] h =
    Some (Inr (Returns (by_rounds (take n (oh_output_buffers h)) (rounds (take n (oh_output_buffers h))))),
      h\<lparr>oh_output_buffers := map (\<lambda>_. []) (oh_output_buffers h)\<rparr>)"
proof -
  let ?qs = "oh_output_buffers h"
  have "rounds (drop n ?qs) = 0" using assms by (simp add: rounds_0 handle_complete_def list_all_iff)
  then have r: "rounds ?qs = rounds (take n ?qs)"
    using rounds_append [of "take n ?qs" "drop n ?qs"] by simp
  show ?thesis using fetch_outputs_complete [OF assms, of "[]"] by (simp add: r)
qed

text \<open>The fetching thread ends and takes everything: once all streams of a handle are finished, its loop returns
  after as many rounds as the longest stream has buffers, without waiting, having taken from every
  round the next buffer of every stream in order, and leaves nothing in the handle. A null pointer is
  among what it took exactly when the streams had different numbers of buffers.\<close>

theorem fetcher_takes_all_output:
  assumes "handle_complete n h"
  shows "fetch_outputs (map of_nat [0 ..< n]) [] h =
      Some (Inr (Returns (by_rounds (take n (oh_output_buffers h)) (rounds (take n (oh_output_buffers h))))),
        h\<lparr>oh_output_buffers := map (\<lambda>_. []) (oh_output_buffers h)\<rparr>) \<and>
    (None \<in> set (by_rounds (take n (oh_output_buffers h)) (rounds (take n (oh_output_buffers h)))) \<longleftrightarrow>
       (\<exists>i < n. \<exists>j < n. length (oh_output_buffers h ! i) \<noteq> length (oh_output_buffers h ! j)))"
proof
  let ?qs = "oh_output_buffers h"
  have len: "n \<le> length ?qs" using assms by (simp add: handle_complete_def)
  show "fetch_outputs (map of_nat [0 ..< n]) [] h =
      Some (Inr (Returns (by_rounds (take n ?qs) (rounds (take n ?qs)))),
        h\<lparr>oh_output_buffers := map (\<lambda>_. []) ?qs\<rparr>)"
    by (rule fetcher_result [OF assms])
  show "None \<in> set (by_rounds (take n ?qs) (rounds (take n ?qs))) \<longleftrightarrow>
      (\<exists>i < n. \<exists>j < n. length (?qs ! i) \<noteq> length (?qs ! j))"
  proof
    assume "None \<in> set (by_rounds (take n ?qs) (rounds (take n ?qs)))"
    then obtain q where q: "q \<in> set (take n ?qs)" "length q < rounds (take n ?qs)" by (auto simp: by_rounds_None)
    then obtain q' where "q' \<in> set (take n ?qs)" "length q < length q'"
      using rounds_witness [of "take n ?qs"] by auto
    with q(1) show "\<exists>i < n. \<exists>j < n. length (?qs ! i) \<noteq> length (?qs ! j)"
      by (auto simp: in_set_conv_nth) (metis less_irrefl)
  next
    assume "\<exists>i < n. \<exists>j < n. length (?qs ! i) \<noteq> length (?qs ! j)"
    then obtain i j where ij: "i < n" "j < n" "length (?qs ! i) < length (?qs ! j)"
      by (metis linorder_neqE_nat)
    then have m: "?qs ! i \<in> set (take n ?qs)" "?qs ! j \<in> set (take n ?qs)"
      using len nth_mem [of i "take n ?qs"] nth_mem [of j "take n ?qs"] by simp_all
    with ij(3) length_le_rounds [OF m(2)] show "None \<in> set (by_rounds (take n ?qs) (rounds (take n ?qs)))"
      unfolding by_rounds_None by (intro bexI [of _ "?qs ! i"]) simp_all
  qed
qed

text \<open>A finished handle of two streams, with two buffers in the first and one in the second.\<close>

definition example_output_handle :: OutputHandle where
  "example_output_handle = \<lparr>oh_NUM_STREAMS = 2, oh_callback = [], oh_callback_thread = None, oh_invoked = [],
     oh_active_streams = 3, oh_finished_streams = 3,
     oh_output_buffers = [[make_buffer 4096 8 64, make_buffer 8192 8 64], [make_buffer 12288 8 64]]\<rparr>"

lemma example_output_complete: "handle_complete 2 example_output_handle"
proof -
  have "(\<forall>j < 2. P j) \<longleftrightarrow> P 0 \<and> P 1" for P :: "nat \<Rightarrow> bool" by (auto simp: less_2_cases_iff)
  then show ?thesis by (simp add: handle_complete_def example_output_handle_def)
qed

theorem fetcher_takes_all_output_witness:
  "\<exists>out h. fetch_outputs [0, 1] [] example_output_handle = Some (Inr (Returns out), h) \<and>
    out = [Some (make_buffer 4096 8 64), Some (make_buffer 12288 8 64), Some (make_buffer 8192 8 64), None]"
  using fetcher_takes_all_output [OF example_output_complete]
  by (simp add: example_output_handle_def upt_rec by_rounds_def front_opt_def make_buffer_def)

text \<open>C31. The comparison of the example, for one stream: over the buffers the fetching thread takes from the finished
  handle of the first run, it fails its assertion when the buffers do not have as many words as the
  input, and otherwise counts the words that differ from the input; it finds none wrong exactly when
  the buffers, put together in the order they were filled, hold the input.\<close>

theorem output_example_compares_all_words:
  assumes "handle_complete 1 h" and "fetch_outputs [0] [] h = Some (Inr (Returns out), h')"
    and "ws = concat (map (buffer_words word) (oh_output_buffers h ! 0))" and "length ws < 2 ^ 64"
  shows "obm_verify word args (out # outs) [0] 0 =
      (if length ws \<noteq> unat (oa_size args div 8) then Inl AssertionFailure
       else Inr (length (filter (\<lambda>k. ws ! k \<noteq> of_nat k) [0 ..< length ws]))) \<and>
    (obm_verify word args (out # outs) [0] 0 = Inr 0 \<longleftrightarrow> ws = obm_fill_input args)"
proof -
  let ?q = "oh_output_buffers h ! 0"
  have len: "0 < length (oh_output_buffers h)" using assms(1) by (auto simp: handle_complete_def)
  then have t: "take (Suc 0) (oh_output_buffers h) = [?q]" by (cases "oh_output_buffers h") simp_all
  have out: "out = map Some ?q"
    using fetcher_result [OF assms(1)] assms(2) by (simp add: t by_rounds_single)
  have n: "of_nat (length ws) = oa_size args div 8 \<longleftrightarrow> length ws = unat (oa_size args div 8)"
    using assms(4) by (simp add: word_unat_eq_iff unat_of_nat)
  have v: "obm_verify word args (out # outs) [0] 0 =
      (if length ws \<noteq> unat (oa_size args div 8) then Inl AssertionFailure
       else Inr (length (filter (\<lambda>k. ws ! k \<noteq> of_nat k) [0 ..< length ws])))"
    by (simp add: vec_at_def bind_sum_def out verify_stream_taken n flip: assms(3))
  show ?thesis
    using v no_mismatch_iff [of ws] by (auto simp: obm_fill_input_def)
qed

theorem output_example_compares_all_words_witness:
  "obm_verify (\<lambda>a. if a = 4096 then 0 else 7) (obm_default_args\<lparr>oa_size := 16\<rparr>)
    [[Some (make_buffer 4096 8 64), Some (make_buffer 8192 8 64)]] [0] 0 = Inr 1"
proof -
  define h where "h = example_output_handle\<lparr>oh_NUM_STREAMS := 1, oh_active_streams := 1, oh_finished_streams := 1,
    oh_output_buffers := [[make_buffer 4096 8 64, make_buffer 8192 8 64]]\<rparr>"
  have c: "handle_complete 1 h" by (simp add: handle_complete_def h_def)
  have f: "fetch_outputs [0] [] h =
      Some (Inr (Returns [Some (make_buffer 4096 8 64), Some (make_buffer 8192 8 64)]),
        h\<lparr>oh_output_buffers := [[]]\<rparr>)"
    using fetcher_result [OF c] by (simp add: h_def by_rounds_def front_opt_def make_buffer_def)
  show ?thesis
    using output_example_compares_all_words [OF c f refl, of "\<lambda>a. if a = 4096 then 0 else 7" "obm_default_args\<lparr>oa_size := 16\<rparr>" "[]"]
    by (simp add: h_def buffer_words_def make_buffer_def)
qed

text \<open>C30. The preparation of the output example: over any pool, for an input of at least 1 and at most 2^48
  bytes, when it returns, the manager accepts its parameters, the number of streams is positive and not
  larger than the memory configuration's, the input is a new block, and apart from mappings of pages the
  driver was asked to write the number of runs and then to flush the buffers of the device. In every later
  state with this block, the runs send the whole input over every stream, stream by stream and run by run,
  each time with the end of the stream. An empty input, which the program accepts, is not a block, and
  sending it throws (\<open>output_example_no_input\<close>).\<close>

theorem output_example_sends_input:
  assumes "memory_pool ops pool_inv live" and "host_sound pool_inv h" and "huge_range_ok ops pool_inv huge"
    and "0 < oa_size args" and "unat (oa_size args) \<le> max_request" and "0 < mx" and "unat mx \<le> 2 ^ 63"
    and "obm_setup csr ops huge args h = (Inr (c, perf, b), h1)"
    and "host_sound pool_inv h2" and "live (host_pool h2) b = Some (oa_size args)"
  shows "host_sound pool_inv h1 \<and> 0 < oa_num_streams args \<and> oa_num_streams args \<le> ucast (NUM_STREAMS c) \<and>
    live (host_pool h) b = None \<and> live (host_pool h1) = (live (host_pool h))(b \<mapsto> oa_size args) \<and>
    (\<exists>mc. OutputBufferManager_init mc (NOT 0) (oa_num_enqueued_buffers args) (oa_buffer_size args) = Inr c \<and>
       posted h1 = posted h @ [SetCSR (oa_num_runs args) (addr_offset perf),
         SetCSR 0 (addr_offset mc + ucast (num_streams mc))]) \<and>
    (\<exists>h3. obm_post_inputs mx ops args b h2 = (Inr (), h3) \<and> host_sound pool_inv h3 \<and> host_pool h3 = host_pool h2 \<and>
       posted h3 = posted h2 @
         concat (map (\<lambda>_. concat (map (\<lambda>j. read_calls (of_nat j) True (chunks_of mx b (oa_size args)))
           [0 ..< unat (oa_num_streams args)])) [0 ..< unat (oa_num_runs args)]))"
proof -
  have "unat (oa_size args) + unat mx \<le> 2 ^ 64" using assms(5,7) by (simp add: max_request_def)
  note inputs = memory_pool.obm_post_inputs_posts [OF assms(1,9,10,6) this]
  show ?thesis
    using wpD_Inr [OF memory_pool.wp_obm_setup [OF assms(1-5)] assms(8)] inputs by (auto simp: posts_def)
qed

text \<open>A design with a memory configuration and a plain one.\<close>

definition obm_csr :: csr where
  "obm_csr a = (if a = 1 then 2 else if a = 2 then 8 else if a = 3 then 12 else if a = 5 then 1
     else if a = 6 then 16 else if a = 8 then - 1 else 0)"

definition obm_example_args :: obm_args where
  "obm_example_args = \<lparr>oa_num_enqueued_buffers = 2, oa_buffer_size = 65536, oa_num_streams = 1, oa_size = 128,
     oa_num_runs = 2\<rparr>"

abbreviation obm_example_setup :: "(SimpleMemoryPool host, obm_params \<times> Config \<times> ptr) action" where
  "obm_example_setup \<equiv> obm_setup obm_csr SimpleMemoryPool_ops (\<lambda>_. None) obm_example_args"

definition obm_host_2 :: "SimpleMemoryPool host" where
  "obm_host_2 = snd (obm_example_setup program_host)"

definition obm_example_params :: obm_params where
  "obm_example_params = \<lparr>obm_mem_config = \<lparr>addr_offset = 4, num_regs = 4, num_streams = 1,
       maximum_num_enqueued_buffers = 16, empty_stream_consumes_buffer = False\<rparr>,
     NUM_STREAMS = 1, MANAGED_STREAMS = - 1, NUM_BUFFERS_TO_ENQUEUE = 2, BUFFER_CAPACITY = 65536\<rparr>"

lemma obm_example_setup:
  "obm_example_setup program_host = (Inr (obm_example_params, \<lparr>addr_offset = 8, num_regs = 4\<rparr>, 65536), obm_host_2)"
proof -
  have "fst (obm_example_setup program_host) = Inr (obm_example_params, \<lparr>addr_offset = 8, num_regs = 4\<rparr>, 65536)"
    by code_simp
  then show ?thesis by (metis obm_host_2_def prod.collapse)
qed

theorem output_example_sends_input_witness:
  "sp_live (host_pool obm_host_2) 65536 = Some 128 \<and>
    (\<exists>h3. obm_post_inputs 64 SimpleMemoryPool_ops obm_example_args 65536 obm_host_2 = (Inr (), h3) \<and>
      posted h3 = posted obm_host_2 @ read_calls 0 True (chunks_of 64 65536 128) @ read_calls 0 True (chunks_of 64 65536 128))"
proof -
  have "huge_range_ok SimpleMemoryPool_ops sp_inv (\<lambda>_. None)" by (simp add: huge_range_ok_def)
  moreover have args: "oa_size obm_example_args = 128" "oa_num_runs obm_example_args = 2" "oa_num_streams obm_example_args = 1"
    by (simp_all add: obm_example_args_def)
  ultimately have h2: "host_sound sp_inv obm_host_2" "sp_live (host_pool obm_host_2) 65536 = Some 128"
    using wpD_Inr [OF simple_pool.wp_obm_setup [OF program_host_sound] obm_example_setup]
    by (simp_all add: max_request_def)
  have "\<exists>h3. obm_post_inputs 64 SimpleMemoryPool_ops obm_example_args 65536 obm_host_2 = (Inr (), h3) \<and>
      posted h3 = posted obm_host_2 @ read_calls 0 True (chunks_of 64 65536 128) @ read_calls 0 True (chunks_of 64 65536 128)"
    using output_example_sends_input [OF simple_pool.memory_pool_axioms program_host_sound \<open>huge_range_ok _ _ _\<close> _ _ _ _
        obm_example_setup h2(1), of 64] h2(2)
    by (auto simp: args max_request_def upt_rec)
  with h2(2) show ?thesis by simp
qed


text \<open>
  The option \<open>-s 0\<close> is accepted and the preparation returns, but the input is the null pointer, so the
  first transfer ends with the exception of \<open>ensure_tlb_mapping\<close>, which nothing catches.
\<close>

definition obm_empty_args :: obm_args where "obm_empty_args = obm_example_args\<lparr>oa_size := 0\<rparr>"

lemma output_example_no_input:
  "case obm_setup obm_csr SimpleMemoryPool_ops (\<lambda>_. None) obm_empty_args program_host of
     (Inr (c, perf, b), h1) \<Rightarrow> b = nullptr \<and>
       (case obm_post_inputs 64 SimpleMemoryPool_ops obm_empty_args b h1 of (Inl (RuntimeError _), _) \<Rightarrow> True | _ \<Rightarrow> False)
   | _ \<Rightarrow> False"
  by code_simp

end
