(* ===== verification/Output_Types.thy ===== *)
theory Output_Types
  imports Output_System Output_Example
begin

text \<open>
  The data of the output path keeps its shape and its operations stay defined. The vectors have an entry
  for every stream, the queues only contain handles that exist, every handle has a queue for every
  stream; so no public method indexes a vector out of range or takes the front of an empty queue,
  whatever its arguments, over any pool, and also after a method has thrown. The one exception is
  the interrupt for which \<open>move_current_buffer_to_handle\<close> finds a handle but no buffer.

  This is the program with its assertions (a Debug build). The default build of
  \<open>src/software/CMakeLists.txt\<close> is Release, which has none: there, an interrupt for a stream that does
  not exist or for which no handle waits, and a sized transfer on a stream that does not exist, are
  not stopped and index out of range. The theorem below therefore also says which interrupts are
  stopped by an assertion, and that the methods of a handle do not rely on any.
\<close>

section \<open>Pools whose operations are defined\<close>

locale defined_pool =
  fixes ops :: "'p MemoryPool"
  assumes allocate_defined: "fst (pool_allocate ops sz al out p) \<noteq> Inl UndefinedBehaviour"
    and reallocate_defined: "fst (pool_reallocate ops n sz al q p) \<noteq> Inl UndefinedBehaviour"
    and free_defined: "fst (pool_free ops q sz al p) \<noteq> Inl UndefinedBehaviour"
    and get_page_boundaries_defined: "pool_get_page_boundaries ops x p \<noteq> Inl UndefinedBehaviour"

text \<open>The shape of the manager, with the number of handles.\<close>

definition obm_typed :: "obm_params \<Rightarrow> nat \<Rightarrow> 'p obm \<Rightarrow> bool" where
  "obm_typed c n s \<longleftrightarrow> obm_shape c s \<and> length (handles s) = n"

text \<open>A method that keeps the shape in both cases and has no undefined behaviour.\<close>

abbreviation stays_typed :: "obm_params \<Rightarrow> nat \<Rightarrow> ('p obm, 'a) action \<Rightarrow> 'p obm \<Rightarrow> bool" where
  "stays_typed c n m s \<equiv> wp m (\<lambda>_. obm_typed c n) (\<lambda>e t. obm_typed c n t \<and> e \<noteq> UndefinedBehaviour) s"

lemma wp_frame:
  assumes "fst (m s) \<noteq> Inl UndefinedBehaviour" and "\<And>x. Q x (snd (m s))" and "\<And>e. E e (snd (m s))"
  shows "wp m Q (\<lambda>e t. E e t \<and> e \<noteq> UndefinedBehaviour) s"
  using assms by (cases "m s") (auto simp: wp_def split: sum.splits)

lemma wp_defined:
  "fst (m s) \<noteq> Inl UndefinedBehaviour \<Longrightarrow> wp m (\<lambda>_ _. True) (\<lambda>e _. e \<noteq> UndefinedBehaviour) s"
  by (auto simp: wp_def split: prod.splits sum.splits)

lemma obm_typed_host [simp]:
  "obm_typed c n (s\<lparr>host_pool := p\<rparr>) = obm_typed c n s"
  "obm_typed c n (s\<lparr>host_cthread := cs\<rparr>) = obm_typed c n s"
  "obm_typed c n (after_maps new s) = obm_typed c n s"
  by (simp_all add: obm_typed_def obm_shape_def)

lemma obm_typed_buffers [simp]:
  "obm_typed c n (s\<lparr>enqueued_buffers := (enqueued_buffers s)[i := q]\<rparr>) = obm_typed c n s"
  by (simp add: obm_typed_def obm_shape_def)

lemma obm_typed_handle_queue:
  assumes "obm_typed c n s" and "\<forall>r \<in> set q. r < n"
  shows "obm_typed c n (s\<lparr>enqueued_handles := (enqueued_handles s)[i := q]\<rparr>)"
  using assms by (auto simp: obm_typed_def obm_shape_def dest!: set_update_subset_insert [THEN subsetD])

lemma obm_typed_handle:
  assumes "obm_typed c n s" and "handle_shape (NUM_STREAMS c) h"
  shows "obm_typed c n (s\<lparr>handles := (handles s)[r := h]\<rparr>)"
  using assms by (auto simp: obm_typed_def obm_shape_def dest!: set_update_subset_insert [THEN subsetD])

text \<open>What the shape gives: every index is in range.\<close>

lemma obm_typed_index:
  assumes "obm_typed c n s"
  shows "unat i < unat (NUM_STREAMS c) \<Longrightarrow> unat i < length (enqueued_buffers s)"
    and "unat i < unat (NUM_STREAMS c) \<Longrightarrow> unat i < length (enqueued_handles s)"
    and "unat i < unat (NUM_STREAMS c) \<Longrightarrow> r \<in> set (enqueued_handles s ! unat i) \<Longrightarrow> r < n"
    and "r < n \<Longrightarrow> r < length (handles s)"
    and "r < n \<Longrightarrow> handle_shape (NUM_STREAMS c) (handles s ! r)"
  using assms by (auto simp: obm_typed_def obm_shape_def)

lemma parse_defined: "\<exists>v. parse_interrupt_value w = Inr v"
  by (simp add: parse_interrupt_value_def extract_bits_from_uint32_def bind_sum_def stf_consts Let_def word_le_nat_alt)

section \<open>The methods of a handle\<close>

lemma push_buffer_typed:
  "handle_shape n h \<Longrightarrow> unat i < unat n \<Longrightarrow>
   wp (push_buffer i b) (\<lambda>_. handle_shape n) (\<lambda>e g. handle_shape n g \<and> e \<noteq> UndefinedBehaviour) h"
  by (simp add: wp_simps handle_shape_def)

lemma mark_done_typed:
  "handle_shape n h \<Longrightarrow> wp (mark_done i) (\<lambda>_. handle_shape n) (\<lambda>e g. handle_shape n g \<and> e \<noteq> UndefinedBehaviour) h"
  by (simp add: mark_done_def wp_simps mask_set_def join_callback_thread_def handle_shape_def split: option.splits)

lemma get_next_typed:
  "handle_shape n h \<Longrightarrow>
   wp (get_next_stream_output i) (\<lambda>_. handle_shape n) (\<lambda>e g. handle_shape n g \<and> e \<noteq> UndefinedBehaviour) h"
  by (auto simp: get_next_stream_output_def transferred_mem_front_to_shared_ptr_def check_stream_def mask_test_def
      vec_at_def wp_simps handle_shape_def word_less_nat_alt not_le split: list.splits sum.splits if_splits)

lemma stream_has_more_typed:
  "handle_shape n h \<Longrightarrow>
   wp (stream_has_more_output i) (\<lambda>_. handle_shape n) (\<lambda>e g. handle_shape n g \<and> e \<noteq> UndefinedBehaviour) h"
  by (auto simp: stream_has_more_output_def check_stream_def mask_test_def vec_at_def wp_simps handle_shape_def
      word_less_nat_alt not_le split: list.splits sum.splits if_splits)

lemma in_flight_defined: "in_flight_from h is \<noteq> Inl UndefinedBehaviour"
  by (induction h "is" rule: in_flight_from.induct) (auto simp: mask_test_def)

lemma any_stream_has_more_typed:
  "handle_shape n h \<Longrightarrow>
   wp any_stream_has_more_output (\<lambda>_. handle_shape n) (\<lambda>e g. handle_shape n g \<and> e \<noteq> UndefinedBehaviour) h"
  using in_flight_defined
  by (auto simp: any_stream_has_more_output_def any_memory_in_flight_def wp_simps split: sum.splits)

lemma on_handle_typed:
  assumes s: "obm_typed c n s" and r: "r < n"
    and m: "\<And>h. handle_shape (NUM_STREAMS c) h \<Longrightarrow> wp m (\<lambda>_. handle_shape (NUM_STREAMS c))
      (\<lambda>e g. handle_shape (NUM_STREAMS c) g \<and> e \<noteq> UndefinedBehaviour) h"
  shows "stays_typed c n (on_handle r m) s"
  using wp_mono [OF m [OF obm_typed_index(5) [OF s r]]] obm_typed_handle [OF s] obm_typed_index(4) [OF s r]
  by (simp add: wp_on_handle)

text \<open>The interrupt finds a handle that waits for the stream, but no buffer.\<close>

definition lacks_buffer :: "obm_params \<Rightarrow> u32 \<Rightarrow> 'q obm \<Rightarrow> bool" where
  "lacks_buffer c w s \<longleftrightarrow>
     (case parse_interrupt_value w of
        Inl e \<Rightarrow> False
      | Inr v \<Rightarrow> iv_stream_id v < NUM_STREAMS c \<and> enqueued_handles s ! unat (iv_stream_id v) \<noteq> [] \<and>
          enqueued_buffers s ! unat (iv_stream_id v) = [])"

text \<open>The interrupt is for a stream that does not exist, or for one that no handle waits for.\<close>

definition unexpected :: "obm_params \<Rightarrow> u32 \<Rightarrow> 'q obm \<Rightarrow> bool" where
  "unexpected c w s \<longleftrightarrow>
     (case parse_interrupt_value w of
        Inl e \<Rightarrow> False
      | Inr v \<Rightarrow> NUM_STREAMS c \<le> iv_stream_id v \<or> enqueued_handles s ! unat (iv_stream_id v) = [])"

lemma interrupt_unexpected:
  assumes s: "obm_shape c s" and w: "unexpected c w s"
  shows "handle_fpga_interrupt c ops w s = (Inl AssertionFailure, s)"
proof -
  obtain v where v: "parse_interrupt_value w = Inr v" using parse_defined by blast
  let ?i = "iv_stream_id v"
  show ?thesis
  proof (cases "?i < NUM_STREAMS c")
    case False
    then show ?thesis by (simp add: handle_fpga_interrupt_def v method_defs)
  next
    case True
    then have "unat ?i < length (enqueued_handles s)" using s by (simp add: obm_shape_def word_less_nat_alt)
    with True w show ?thesis
      by (auto simp: handle_fpga_interrupt_def move_current_buffer_to_handle_def handle_queue_def vec_at_def
          unexpected_def v method_defs)
  qed
qed

section \<open>The private methods of the manager\<close>

context defined_pool
begin

lemma get_pages_typed: "ensure_tlb_rec ops a n h = Some r \<Longrightarrow> fst r \<noteq> Inl UndefinedBehaviour"
proof (rule ensure_tlb_rec.raw_induct [where P = "\<lambda>o' a n h r. o' = ops \<longrightarrow> fst r \<noteq> Inl UndefinedBehaviour",
      THEN mp, OF _ _ refl], goal_cases)
  case (1 rec o' a n h r)
  then show ?case
    using get_page_boundaries_defined [of a "host_pool h"]
    by (cases r) (fastforce simp: Let_def split: sum.splits if_splits)
qed simp

lemma tlb_typed: "obm_typed c k s \<Longrightarrow> stays_typed c k (ensure_tlb_mapping ops a n) s"
proof (rule wp_frame)
  show "fst (ensure_tlb_mapping ops a n s) \<noteq> Inl UndefinedBehaviour"
    using get_pages_typed by (cases "ensure_tlb_rec ops a n s") (simp_all add: ensure_tlb_mapping_def)
qed (rule ensure_tlb_mapping_after_maps [of ops a n s], rule surjective_pairing, simp_all)+

lemma enqueue_typed: "obm_typed c k s \<Longrightarrow> stays_typed c k (on_cthread (enqueue_buffer mc i b)) s"
  by (simp add: enqueue_buffer_def write_register_def call_def wp_simps)

lemma pool_typed:
  assumes "\<And>p. fst (m p) \<noteq> Inl UndefinedBehaviour" and "obm_typed c k s"
  shows "stays_typed c k (on_pool m) s"
  using wp_frame [of m "host_pool s" "\<lambda>_ _. True" "\<lambda>_ _. True"] assms by (auto simp: wp_on_pool elim!: wp_mono)

lemma enqueue_buffer_for_stream_typed:
  assumes "obm_typed c k s" and "unat i < unat (NUM_STREAMS c)"
  shows "stays_typed c k (enqueue_buffer_for_stream c ops i) s"
  unfolding enqueue_buffer_for_stream_def
proof (rule wp_seqI [OF pool_typed [OF _ assms(1)]], goal_cases)
  case (2 x t)
  then show ?case
    using assms(2) obm_typed_index(1) enqueue_typed tlb_typed
    by (cases x) (auto simp: wp_simps Let_def simp del: wp_on_cthread intro!: wp_mono [OF tlb_typed] enqueue_typed)
qed (simp add: pool_allocate_default_def allocate_defined)

lemma ensure_stream_has_buffers_typed:
  assumes "obm_typed c k s" and i: "unat i < unat (NUM_STREAMS c)"
  shows "stays_typed c k (ensure_stream_has_buffers c ops i) s"
  using assms(1)
proof (induction "unat (NUM_BUFFERS_TO_ENQUEUE c) - length (enqueued_buffers s ! unat i)" arbitrary: s rule: less_induct)
  case less
  note len = obm_typed_index(1) [OF less.prems i]
  have "wp (ensure_stream_has_buffers c ops i) (\<lambda>_. obm_typed c k) (\<lambda>e t. obm_typed c k t \<and> e \<noteq> UndefinedBehaviour) t"
    if "length (enqueued_buffers s ! unat i) < unat (NUM_BUFFERS_TO_ENQUEUE c)"
      "enqueue_buffer_for_stream c ops i s = (Inr u, t)" for t u
    using less.hyps [of t] that enqueue_buffer_for_stream_grows [OF that(2)]
      wpD_Inr [OF enqueue_buffer_for_stream_typed [OF less.prems i] that(2)] by simp
  then show ?case
    using len less.prems wpD_Inl [OF enqueue_buffer_for_stream_typed [OF less.prems i]]
    by (auto simp: wp_ensure_stream_has_buffers_step [of c ops i _ _ s] intro: wpI)
qed

lemma deliver_front_typed:
  assumes "obm_typed c k s" and "unat i < unat (NUM_STREAMS c)" and "r < k"
  shows "stays_typed c k (deliver_front ops i r b bs n) s"
proof -
  have dest: "stays_typed c k (on_handle r (push_buffer i b')) t" if "obm_typed c k t" for b' t
    by (rule on_handle_typed [OF that assms(3)], rule push_buffer_typed [OF _ assms(2)])
  have rest: "wp (on_handle r (push_buffer i b')) (\<lambda>_. stays_typed c k (set_buffer_queue i bs))
      (\<lambda>e t. obm_typed c k t \<and> e \<noteq> UndefinedBehaviour) (t\<lparr>enqueued_buffers := (enqueued_buffers t)[unat i := q]\<rparr>)"
    if "obm_typed c k t" for b' q t
    by (rule wp_mono [OF dest]) (simp_all add: that wp_set_queues)
  have shrink: "stays_typed c k (on_pool (pool_reallocate ops m l al q)) s" for m l al q
    by (rule pool_typed [OF reallocate_defined assms(1)])
  show ?thesis
    unfolding deliver_front_def
    by (simp add: wp_seqE wp_if Let_def)
      (auto simp: wp_simps simp del: wp_on_handle wp_on_pool intro!: wp_mono [OF shrink] rest assms(1))
qed

lemma recycle_front_typed: "obm_typed c k s \<Longrightarrow> stays_typed c k (recycle_front ops i b bs) s"
  unfolding recycle_front_def by (rule wp_seqI [OF pool_typed [OF free_defined]]) (simp_all add: wp_simps)

lemma finish_stream_typed:
  assumes "obm_typed c k s" and "r < k" and "\<forall>r \<in> set hs. r < k"
  shows "stays_typed c k (finish_stream i r hs) s"
  unfolding finish_stream_def
  by (rule wp_seqI [OF on_handle_typed [OF assms(1,2)]])
    (use assms(3) in \<open>simp_all add: wp_simps mark_done_typed obm_typed_handle_queue\<close>)

lemma interrupt_typed:
  assumes s: "obm_typed c k s" and "\<not> lacks_buffer c w s"
  shows "stays_typed c k (handle_fpga_interrupt c ops w) s"
proof -
  obtain v where v: "parse_interrupt_value w = Inr v" using parse_defined by blast
  let ?i = "iv_stream_id v" and ?l = "iv_last v"
  have ens: "stays_typed c k (ensure_stream_has_buffers c ops ?i) t" if "obm_typed c k t" "?i < NUM_STREAMS c" for t
    using ensure_stream_has_buffers_typed [OF that(1)] that(2) by (simp add: word_less_nat_alt)
  have tail: "stays_typed c k (seqE (liftE (mask_test (MANAGED_STREAMS c) (unat ?i))) (\<lambda>managed.
      if managed then ensure_stream_has_buffers c ops ?i else ret ())) t" if "obm_typed c k t" "?i < NUM_STREAMS c" for t
    using ens [OF that] that(1) by (simp add: wp_simps mask_test_def)
  have move: "stays_typed c k (move_current_buffer_to_handle c ops ?i (iv_bytes_written v) ?l) s" if i: "?i < NUM_STREAMS c"
  proof (cases "enqueued_handles s ! unat ?i")
    case (Cons r hs)
    then obtain b bs where b: "enqueued_buffers s ! unat ?i = b # bs"
      using assms(2) v i by (cases "enqueued_buffers s ! unat ?i") (auto simp: lacks_buffer_def)
    have n: "unat ?i < unat (NUM_STREAMS c)" using i by (simp add: word_less_nat_alt)
    have r: "r < k" "\<forall>r \<in> set hs. r < k" using obm_typed_index(3) [OF s n] Cons by auto
    show ?thesis
      using obm_typed_index(1,2) [OF s n] s Cons b
      by (auto simp: move_current_buffer_to_handle_def handle_queue_def buffer_queue_def vec_at_def front_of_def wp_simps
          simp del: wp_on_handle wp_on_pool intro!: wp_mono [OF deliver_front_typed [OF s n r(1)]]
            wp_mono [OF recycle_front_typed [OF s]] finish_stream_typed r)
  qed (use s obm_typed_index(2) [OF s] i in \<open>simp add: move_current_buffer_to_handle_def handle_queue_def vec_at_def
    wp_simps word_less_nat_alt\<close>)
  show ?thesis
    unfolding handle_fpga_interrupt_def v
    using s by (simp add: wp_seqE [of "liftE (Inr v)"] wp_seqE [of "assertE b" for b] wp_assertE wp_liftE [of "Inr v"])
      (auto intro!: wp_seqI [OF move] tail)
qed

lemma interrupt_lacking_buffer:
  assumes s: "obm_typed c k s" and l: "lacks_buffer c w s"
  shows "handle_fpga_interrupt c ops w s = (Inl UndefinedBehaviour, s)"
proof -
  obtain v where v: "parse_interrupt_value w = Inr v" using parse_defined by blast
  let ?i = "iv_stream_id v"
  have i: "?i < NUM_STREAMS c" using l v by (simp add: lacks_buffer_def)
  with obm_typed_index(1,2) [OF s, of ?i] l v
  show ?thesis
    by (cases "enqueued_handles s ! unat ?i")
      (auto simp: handle_fpga_interrupt_def move_current_buffer_to_handle_def handle_queue_def buffer_queue_def
        vec_at_def front_of_def lacks_buffer_def method_defs word_less_nat_alt)
qed

lemma new_handle_typed:
  assumes "obm_typed c k s"
  shows "obm_typed c (Suc k) (s\<lparr>handles := handles s @ [OutputHandle_init m (NUM_STREAMS c)]\<rparr>)"
  using assms by (auto simp: obm_typed_def obm_shape_def handle_shape_def OutputHandle_init_def less_Suc_eq)

lemma push_handle_typed:
  assumes "obm_typed c k s" and "unat i < unat (NUM_STREAMS c)" and "r < k"
  shows "stays_typed c k (push_handle i r) s"
  using assms obm_typed_index(2,3) [OF assms(1,2)]
  by (auto simp: wp_push_handle intro!: obm_typed_handle_queue)

lemma acquire_streams_typed:
  assumes "obm_typed c k s" and "\<forall>i \<in> set is. i < unat (NUM_STREAMS c)" and "r < k"
  shows "stays_typed c k (acquire_streams c ops m r is) s"
  using assms
proof (induction "is" arbitrary: s)
  case (Cons i "is")
  have "i < unat (NUM_STREAMS c)" using Cons.prems(2) by simp
  then have i: "unat (of_nat i :: stream_t) < unat (NUM_STREAMS c)" by (simp add: unat_of_nat_below)
  have rest: "stays_typed c k (acquire_streams c ops m r is) t" if "obm_typed c k t" for t
    using Cons that by simp
  have push: "wp (push_handle (of_nat i) r) (\<lambda>_. stays_typed c k (acquire_streams c ops m r is))
      (\<lambda>e t. obm_typed c k t \<and> e \<noteq> UndefinedBehaviour) t" if "obm_typed c k t" for t
    by (rule wp_mono [OF push_handle_typed [OF that i Cons.prems(3)]]) (simp_all add: rest)
  show ?case
    using Cons.prems(1) rest
    by (simp add: wp_seqE wp_if wp_ret wp_liftE mask_test_def)
      (intro impI wp_mono [OF ensure_stream_has_buffers_typed [OF Cons.prems(1) i]], simp_all add: push)
qed (simp add: wp_simps)

lemma enqueue_chunk_typed:
  assumes "obm_typed c k s" and i: "unat i < unat (NUM_STREAMS c)" and r: "r < k"
  shows "stays_typed c k (enqueue_chunk c ops i r n) s"
  unfolding enqueue_chunk_def Let_def
proof (rule wp_seqI [OF pool_typed [OF _ assms(1)]], goal_cases)
  case (2 x t)
  have push: "stays_typed c k (seqE (push_handle i r) (\<lambda>_. on_cthread (enqueue_buffer mc i b))) u" if "obm_typed c k u" for u b mc
    by (rule wp_seqI [OF push_handle_typed [OF that i r]]) (rule enqueue_typed)
  have "stays_typed c k (seqE (push_enqueued_buffer i b) (\<lambda>_. seqE (push_handle i r) (\<lambda>_.
      on_cthread (enqueue_buffer mc i b)))) u" if "obm_typed c k u" for u b mc
    using push [of "u\<lparr>enqueued_buffers := (enqueued_buffers u)[unat i := enqueued_buffers u ! unat i @ [b]]\<rparr>"] that
      obm_typed_index(1) [OF that i] by (subst wp_seqE) (simp add: wp_push_enqueued_buffer)
  then show ?case
    using 2 by (cases x) (auto simp: wp_throw intro!: wp_seqI [OF tlb_typed])
qed (simp add: pool_allocate_default_def allocate_defined)

lemma acquire_chunks_typed:
  assumes "obm_typed c k s" and "unat i < unat (NUM_STREAMS c)" and "r < k"
  shows "stays_typed c k (acquire_chunks c ops i r n) s"
  using assms(1)
proof (induction "unat n" arbitrary: n s rule: less_induct)
  case less
  have "unat (n - chunk_of n) < unat n" if "0 < n"
  proof -
    have "0 < chunk_of n" "chunk_of n \<le> n" using that by (auto simp: chunk_of_def min_def stf_consts)
    then show ?thesis by (simp add: unat_sub word_less_nat_alt word_le_nat_alt)
  qed
  with less show ?case
    by (subst acquire_chunks.simps)
      (auto simp: Let_def wp_ret intro!: wp_seqI [OF enqueue_chunk_typed [OF less.prems assms(2,3)]])
qed

lemma free_queue_defined: "fst (free_buffers_in_queue ops bs p) \<noteq> Inl UndefinedBehaviour"
proof (induction bs arbitrary: p)
  case (Cons b bs)
  then show ?case
    using free_defined [of "buf_ptr b" "buf_capacity b" DEFAULT_ALIGNMENT p]
    by (auto simp: seqE_def split: prod.splits sum.splits)
qed (simp add: ret_def)

end

section \<open>The calls of a client\<close>

text \<open>Everything the clients and the interrupt thread call of the manager and its handles.\<close>

datatype manager_call =
    HandleInterrupt u32
  | AcquireMask stream_mask_t
  | AcquireSized stream_t u64
  | FlushBuffers
  | NextOutput nat stream_t
  | MoreOutput nat stream_t
  | AnyMoreOutput nat
  | AddCallback nat nat
  | RunCallback nat
  | DropHandle nat

definition discard :: "('s, 'a) action \<Rightarrow> ('s, unit) action" where
  "discard m = seqE m (\<lambda>_. ret ())"

fun call_manager :: "obm_params \<Rightarrow> 'p MemoryPool \<Rightarrow> manager_call \<Rightarrow> ('p obm, unit) action" where
  "call_manager c ops (HandleInterrupt w) = handle_fpga_interrupt c ops w"
| "call_manager c ops (AcquireMask m) = discard (acquire_output_handle c ops m)"
| "call_manager c ops (AcquireSized i sz) = discard (acquire_output_handle_sized c ops i sz)"
| "call_manager c ops FlushBuffers = obm_flush_buffers c"
| "call_manager c ops (NextOutput r i) = discard (on_handle r (get_next_stream_output i))"
| "call_manager c ops (MoreOutput r i) = discard (on_handle r (stream_has_more_output i))"
| "call_manager c ops (AnyMoreOutput r) = discard (on_handle r any_stream_has_more_output)"
| "call_manager c ops (AddCallback r k) = on_handle r (modifyE (add_callback k))"
| "call_manager c ops (RunCallback r) = on_handle r (modifyE run_callback)"
| "call_manager c ops (DropHandle r) = release_handle ops r"

fun handle_of :: "manager_call \<Rightarrow> nat option" where
  "handle_of (NextOutput r i) = Some r"
| "handle_of (MoreOutput r i) = Some r"
| "handle_of (AnyMoreOutput r) = Some r"
| "handle_of (AddCallback r k) = Some r"
| "handle_of (RunCallback r) = Some r"
| "handle_of (DropHandle r) = Some r"
| "handle_of _ = None"

lemma wp_discard [wp_simps]: "wp (discard m) Q E s = wp m (\<lambda>_. Q ()) E s"
  by (simp add: wp_def discard_def seqE_def ret_def split: prod.splits sum.splits)

lemma wp_ret_fun: "wp (ret x) Q E = Q x"
  by (rule ext) (simp add: wp_ret)

lemma wp_new_handle:
  "wp (new_handle c m) Q E s =
     Q (length (handles s)) (s\<lparr>handles := handles s @ [OutputHandle_init m (NUM_STREAMS c)]\<rparr>)"
  by (simp add: new_handle_def wp_def)

lemma callbacks_shape: "handle_shape n (add_callback k h) = handle_shape n h" "handle_shape n (run_callback h) = handle_shape n h"
  by (auto simp: add_callback_def run_callback_def handle_shape_def split: option.splits list.splits)

text \<open>A call that takes or makes a handle leaves a well-typed manager and is defined.\<close>

definition defined_call :: "obm_params \<Rightarrow> ('p obm, 'a) action \<Rightarrow> 'p obm \<Rightarrow> bool" where
  "defined_call c m s \<longleftrightarrow> wp m (\<lambda>_. obm_shape c) (\<lambda>e t. obm_shape c t \<and> e \<noteq> UndefinedBehaviour) s"

lemma defined_callI: "stays_typed c n m s \<Longrightarrow> defined_call c m s"
  unfolding defined_call_def by (erule wp_mono) (simp_all add: obm_typed_def)

context defined_pool
begin

lemma acquire_defined:
  assumes "obm_shape c s"
  shows "defined_call c (acquire_output_handle c ops m) s"
proof -
  let ?s = "s\<lparr>handles := handles s @ [OutputHandle_init m (NUM_STREAMS c)]\<rparr>"
  have s: "obm_typed c (length (handles s)) s" using assms by (simp add: obm_typed_def)
  have "defined_call c (acquire_streams c ops m (length (handles s)) [0 ..< unat (NUM_STREAMS c)]) ?s"
    by (rule defined_callI, rule acquire_streams_typed [OF new_handle_typed [OF s]]) simp_all
  then show ?thesis
    using assms by (simp add: defined_call_def acquire_output_handle_def wp_ret_fun wp_new_handle wp_simps)
qed

lemma acquire_sized_defined:
  assumes "obm_shape c s"
  shows "defined_call c (acquire_output_handle_sized c ops i n) s"
proof -
  let ?s = "\<lambda>m. s\<lparr>handles := handles s @ [OutputHandle_init m (NUM_STREAMS c)]\<rparr>"
  have s: "obm_typed c (length (handles s)) s" using assms by (simp add: obm_typed_def)
  have "defined_call c (acquire_chunks c ops i (length (handles s)) n) (?s m)" if "i < NUM_STREAMS c" for m
    by (rule defined_callI, rule acquire_chunks_typed [OF new_handle_typed [OF s]])
      (use that in \<open>simp_all add: word_less_nat_alt\<close>)
  then show ?thesis
    using assms by (simp add: defined_call_def acquire_output_handle_sized_def wp_ret_fun wp_new_handle mask_test_def mask_set_def
        wp_simps)
qed

lemma release_defined:
  assumes "obm_shape c s" and "r < length (handles s)"
  shows "defined_call c (release_handle ops r) s"
proof -
  let ?h = "handles s ! r" and ?n = "length (handles s)"
  have s: "obm_typed c ?n s" using assms(1) by (simp add: obm_typed_def)
  let ?g = "(join_callback_thread ?h)\<lparr>oh_output_buffers := map (\<lambda>_. []) (oh_output_buffers (join_callback_thread ?h))\<rparr>"
  have g: "handle_shape (NUM_STREAMS c) ?g"
    using obm_typed_index(5) [OF s assms(2)] by (simp add: handle_shape_def join_callback_thread_def split: option.splits)
  have "obm_typed c ?n (s\<lparr>host_pool := p, handles := (handles s)[r := ?g]\<rparr>)" for p
    using obm_typed_handle [of c ?n "s\<lparr>host_pool := p\<rparr>" ?g r] s g by simp
  then have "stays_typed c ?n (release_handle ops r) s"
    using assms(2) s free_queue_defined
    by (auto simp: release_handle_def vec_at_def OutputHandle_destroy_def Let_def wp_ret_fun wp_simps intro!: wp_defined)
  then show ?thesis by (rule defined_callI)
qed

lemma call_defined:
  assumes "obm_shape c s" and "\<forall>r. handle_of k = Some r \<longrightarrow> r < length (handles s)"
    and "\<And>w. k = HandleInterrupt w \<Longrightarrow> \<not> lacks_buffer c w s"
  shows "defined_call c (call_manager c ops k) s"
proof -
  let ?n = "length (handles s)"
  have s: "obm_typed c ?n s" using assms(1) by (simp add: obm_typed_def)
  note handle = on_handle_typed [OF s, THEN defined_callI]
  have d: "defined_call c (discard m) s = defined_call c m s" for m :: "('p obm, 'x) action"
    by (simp add: defined_call_def wp_simps)
  show ?thesis
  proof (cases k)
    case (HandleInterrupt w)
    with interrupt_typed [OF s assms(3)] show ?thesis by (auto intro: defined_callI)
  next
    case FlushBuffers
    have "stays_typed c ?n (obm_flush_buffers c) s"
      using s by (simp add: obm_flush_buffers_def MemConfig_flush_buffers_def write_register_def call_def wp_simps)
    with FlushBuffers show ?thesis by (auto intro: defined_callI)
  qed (use assms in \<open>auto simp: d wp_simps callbacks_shape intro!: handle acquire_defined acquire_sized_defined release_defined
      get_next_typed stream_has_more_typed any_stream_has_more_typed\<close>)
qed

end

text \<open>The methods of a handle check their arguments with exceptions, so no build drops the checks.\<close>

lemma handle_methods_throw:
  "fst (on_handle r (get_next_stream_output i) s) \<noteq> Inl AssertionFailure"
  "fst (on_handle r (stream_has_more_output i) s) \<noteq> Inl AssertionFailure"
  "fst (on_handle r any_stream_has_more_output s) \<noteq> Inl AssertionFailure"
proof -
  have flight: "in_flight_from h is \<noteq> Inl AssertionFailure" for h "is"
    by (induction h "is" rule: in_flight_from.induct) (auto simp: mask_test_def)
  show "fst (on_handle r (get_next_stream_output i) s) \<noteq> Inl AssertionFailure"
    by (auto simp: on_handle_def get_next_stream_output_def transferred_mem_front_to_shared_ptr_def check_stream_def
        mask_test_def vec_at_def method_defs split: list.splits sum.splits if_splits prod.splits)
  show "fst (on_handle r (stream_has_more_output i) s) \<noteq> Inl AssertionFailure"
    by (auto simp: on_handle_def stream_has_more_output_def check_stream_def
        mask_test_def vec_at_def method_defs split: list.splits sum.splits if_splits prod.splits)
  show "fst (on_handle r any_stream_has_more_output s) \<noteq> Inl AssertionFailure"
    using flight by (auto simp: on_handle_def any_stream_has_more_output_def any_memory_in_flight_def method_defs
        split: sum.splits if_splits prod.splits)
qed

definition asks_handle :: "manager_call \<Rightarrow> bool" where
  "asks_handle k \<longleftrightarrow> (\<exists>r i. k = NextOutput r i \<or> k = MoreOutput r i \<or> k = AnyMoreOutput r)"

lemma discard_throws: "fst (discard m s) = Inl e \<longleftrightarrow> fst (m s) = Inl e"
  by (simp add: discard_def seqE_def ret_def split: prod.splits sum.splits)

lemma asks_handle_throws: "asks_handle k \<Longrightarrow> fst (call_manager c ops k s) \<noteq> Inl AssertionFailure"
  by (auto simp: asks_handle_def discard_throws handle_methods_throw)

lemma sized_unexpected:
  "NUM_STREAMS c \<le> i \<Longrightarrow> call_manager c ops (AcquireSized i n) s = (Inl AssertionFailure, s)"
  by (auto simp: acquire_output_handle_sized_def discard_def method_defs not_less [symmetric])

text \<open>The simple pool only fails with errors of its own.\<close>

lemmas simple_pool_methods = SimpleMemoryPool_allocate_def SimpleMemoryPool_free_def SimpleMemoryPool_reallocate_def
  SimpleMemoryPool_get_page_boundaries_def linear_allocate_def linear_free_def LinearAllocator_allocate_def
  LinearAllocator_free_def

lemma simple_pool_defined:
  "fst (SimpleMemoryPool_allocate sz al out p) \<noteq> Inl UndefinedBehaviour"
  "fst (SimpleMemoryPool_free q sz al p) \<noteq> Inl UndefinedBehaviour"
  "SimpleMemoryPool_get_page_boundaries x p \<noteq> Inl UndefinedBehaviour"
  by (auto simp: simple_pool_methods method_defs Let_def split: option.splits)

interpretation simple_defined: defined_pool SimpleMemoryPool_ops
proof
  have free: "SimpleMemoryPool_free q sz al p \<noteq> (Inl UndefinedBehaviour, p')" for q sz al p p'
    using simple_pool_defined(2) by (metis fst_conv)
  show "fst (pool_reallocate SimpleMemoryPool_ops n sz al q p) \<noteq> Inl UndefinedBehaviour" for n sz al q p
    using simple_pool_defined(1) free
    by (auto simp: SimpleMemoryPool_ops_def SimpleMemoryPool_reallocate_def linear_allocate_def linear_free_def
        LinearAllocator_allocate_def LinearAllocator_free_def method_defs Let_def split: prod.splits sum.splits)
qed (use simple_pool_defined in \<open>simp_all add: SimpleMemoryPool_ops_def\<close>)

section \<open>The property\<close>

lemma obm_start_shape: "obm_shape c (obm_start c h)"
  by (auto simp: obm_shape_def obm_start_def host.defs)

text \<open>Runs of the manager: any public calls of handles that exist, as long as they are defined, also when they throw.\<close>

abbreviation names_existing :: "manager_call \<Rightarrow> 'p obm \<Rightarrow> bool" where
  "names_existing k s \<equiv> pred_option (\<lambda>r. r < length (handles s)) (handle_of k)"

inductive manager_run :: "obm_params \<Rightarrow> 'p MemoryPool \<Rightarrow> 'p host \<Rightarrow> manager_call list \<Rightarrow> 'p obm \<Rightarrow> bool"
  for c :: obm_params and ops :: "'p MemoryPool" and h :: "'p host" where
  run_start: "manager_run c ops h [] (obm_start c h)"
| run_call:
    "manager_run c ops h ks s \<Longrightarrow> names_existing k s \<Longrightarrow> call_manager c ops k s = (r, s') \<Longrightarrow>
     r \<noteq> Inl UndefinedBehaviour \<Longrightarrow> manager_run c ops h (ks @ [k]) s'"

context defined_pool
begin

lemma undefined_call_iff:
  assumes "obm_shape c s" and "names_existing k s"
  shows "fst (call_manager c ops k s) = Inl UndefinedBehaviour \<longleftrightarrow> (\<exists>w. k = HandleInterrupt w \<and> lacks_buffer c w s)"
proof (cases "\<exists>w. k = HandleInterrupt w \<and> lacks_buffer c w s")
  case True
  with interrupt_lacking_buffer [of c "length (handles s)" s] assms(1) show ?thesis by (auto simp: obm_typed_def)
next
  case False
  with call_defined [OF assms(1), of k] assms(2)
  have "defined_call c (call_manager c ops k) s" by (auto simp: option.pred_set)
  with False show ?thesis by (cases "call_manager c ops k s") (auto simp: defined_call_def wp_def)
qed

lemma manager_run_shape: "manager_run c ops h ks s \<Longrightarrow> obm_shape c s"
proof (induction rule: manager_run.induct)
  case (run_call ks s k r s')
  with undefined_call_iff [OF run_call.IH run_call.hyps(2)]
  have "\<forall>w. k = HandleInterrupt w \<longrightarrow> \<not> lacks_buffer c w s" by auto
  with call_defined [OF run_call.IH, of k] run_call.hyps(2)
  have "defined_call c (call_manager c ops k) s" by (auto simp: option.pred_set)
  with run_call.hyps(3) show ?case by (cases r) (auto simp: defined_call_def dest: wpD_Inl wpD_Inr)
qed (rule obm_start_shape)

end

text \<open>C9. The output path is well-typed: over any pool whose operations are defined, after any sequence of public
  calls, with any arguments and also when some of them threw, the manager has a queue of handles and
  a queue of buffers for every stream, its queues only contain handles that exist, and every handle
  has a queue for every stream. With the assertions on, the next call, of a handle that exists, has no
  undefined behaviour (no index out of range, no front of an empty queue) with exactly one exception: an
  interrupt for a stream for which a handle waits and no buffer is enqueued. It is an assertion that
  stops an interrupt for a stream that does not exist or that no handle waits for, and the acquisition of
  a sized transfer on a stream that does not exist, with nothing changed; so in the default Release
  build, which drops assertions, these calls are not covered and are undefined too. The methods that ask a handle for output check with exceptions and need no assertion.\<close>

theorem output_path_well_typed:
  assumes "defined_pool ops" and "manager_run c ops h ks s"
  shows "length (enqueued_handles s) = unat (NUM_STREAMS c) \<and> length (enqueued_buffers s) = unat (NUM_STREAMS c) \<and>
    (\<forall>q \<in> set (enqueued_handles s). \<forall>r \<in> set q. r < length (handles s)) \<and>
    (\<forall>g \<in> set (handles s). oh_NUM_STREAMS g = NUM_STREAMS c \<and> length (oh_output_buffers g) = unat (NUM_STREAMS c)) \<and>
    (\<forall>k. names_existing k s \<longrightarrow> (fst (call_manager c ops k s) = Inl UndefinedBehaviour \<longleftrightarrow>
       (\<exists>w. k = HandleInterrupt w \<and> lacks_buffer c w s))) \<and>
    (\<forall>w. unexpected c w s \<longrightarrow> call_manager c ops (HandleInterrupt w) s = (Inl AssertionFailure, s)) \<and>
    (\<forall>i n. NUM_STREAMS c \<le> i \<longrightarrow> call_manager c ops (AcquireSized i n) s = (Inl AssertionFailure, s)) \<and>
    (\<forall>k. asks_handle k \<longrightarrow> fst (call_manager c ops k s) \<noteq> Inl AssertionFailure)"
proof -
  have shape: "obm_shape c s" by (rule defined_pool.manager_run_shape [OF assms])
  then show ?thesis
    using defined_pool.undefined_call_iff [OF assms(1) shape] interrupt_unexpected [OF shape, of _ ops]
      asks_handle_throws [of _ c ops s] sized_unexpected [of c _ ops _ s]
    by (simp add: obm_shape_def handle_shape_def)
qed

text \<open>The exception is there: a stream that is not managed has one buffer for a transfer of one chunk, and the
  code does not check that there is another one for a report that follows. The stream writer of the
  design only reports when it has a buffer.\<close>

definition one_chunk_params :: obm_params where
  "one_chunk_params = obm_example_params\<lparr>MANAGED_STREAMS := 0\<rparr>"

theorem output_path_well_typed_witness:
  "\<exists>s. manager_run one_chunk_params SimpleMemoryPool_ops program_host
      [AcquireSized 0 65536, HandleInterrupt (notify_value 0 65536 False)] s \<and>
    fst (call_manager one_chunk_params SimpleMemoryPool_ops (NextOutput 0 0) s) \<noteq> Inl UndefinedBehaviour \<and>
    fst (call_manager one_chunk_params SimpleMemoryPool_ops (HandleInterrupt (notify_value 0 0 True)) s) =
      Inl UndefinedBehaviour \<and>
    call_manager one_chunk_params SimpleMemoryPool_ops (HandleInterrupt (notify_value 7 0 True)) s =
      (Inl AssertionFailure, s)"
proof -
  let ?c = "one_chunk_params" and ?o = "SimpleMemoryPool_ops" and ?s0 = "obm_start one_chunk_params program_host"
  let ?call = "call_manager ?c ?o"
  define s1 where "s1 = snd (?call (AcquireSized 0 65536) ?s0)"
  define s2 where "s2 = snd (?call (HandleInterrupt (notify_value 0 65536 False)) s1)"
  have "fst (?call (AcquireSized 0 65536) ?s0) = Inr ()" by code_simp
  then have "?call (AcquireSized 0 65536) ?s0 = (Inr (), s1)" by (metis s1_def prod.collapse)
  from run_call [OF run_start _ this] have r1: "manager_run ?c ?o program_host [AcquireSized 0 65536] s1" by simp
  have "fst (?call (HandleInterrupt (notify_value 0 65536 False)) s1) = Inr ()" unfolding s1_def by code_simp
  then have "?call (HandleInterrupt (notify_value 0 65536 False)) s1 = (Inr (), s2)" by (metis s2_def prod.collapse)
  from run_call [OF r1 _ this]
  have r2: "manager_run ?c ?o program_host [AcquireSized 0 65536, HandleInterrupt (notify_value 0 65536 False)] s2" by simp
  have n: "length (handles s2) = 1" and l: "lacks_buffer ?c (notify_value 0 0 True) s2"
    unfolding s2_def s1_def by code_simp+
  have x: "unexpected ?c (notify_value 7 0 True) s2"
    by (simp add: unexpected_def parse_notify_value one_chunk_params_def obm_example_params_def)
  note typed = output_path_well_typed [OF simple_defined.defined_pool_axioms r2]
  from typed have def_iff: "\<forall>k. names_existing k s2 \<longrightarrow> (fst (?call k s2) = Inl UndefinedBehaviour \<longleftrightarrow>
      (\<exists>w. k = HandleInterrupt w \<and> lacks_buffer ?c w s2))"
    and stopped: "\<forall>w. unexpected ?c w s2 \<longrightarrow> ?call (HandleInterrupt w) s2 = (Inl AssertionFailure, s2)" by blast+
  have "fst (?call (NextOutput 0 0) s2) \<noteq> Inl UndefinedBehaviour"
    using def_iff [rule_format, of "NextOutput 0 0"] n by simp
  moreover have "fst (?call (HandleInterrupt (notify_value 0 0 True)) s2) = Inl UndefinedBehaviour"
    using def_iff [rule_format, of "HandleInterrupt (notify_value 0 0 True)"] l by simp
  ultimately show ?thesis using r2 stopped x by blast
qed

end
