(* ===== verification/Output_Threads.thy ===== *)
theory Output_Threads
  imports Stream_Refinement Output_Example
begin

text \<open>
  The threads of \<open>examples/01_output_buffer_manager/src/main.cpp\<close> over the output path: the main thread
  acquires one handle for each run, starts the fetching thread, posts the inputs and then waits for it;
  the fetching thread takes the output of one run after the other; the device and the driver's
  interrupts run beside them. Each is a step relation of its own, and the program is their
  interleaving. A call that has to wait has no step until what it waits for has happened.
\<close>

section \<open>Threads\<close>

text \<open>
  The points the threads have reached: \<open>Acquires k\<close> has \<open>k\<close> handles to acquire, \<open>Posts ps\<close> the transfers
  \<open>ps\<close> to post, each a run and a stream; \<open>Asks i\<close> is before the condition of the inner \<open>while\<close> for run \<open>i\<close>
  (with \<open>i\<close> the number of runs the thread has ended), \<open>Takes i js\<close> has the streams \<open>js\<close> of a round left.
\<close>

datatype main_point = Acquires nat | Posts "(nat \<times> nat) list"

datatype fetch_point = NotStarted | Asks nat | Takes nat "nat list"

record 'p program =
  pg_system :: "'p system"
  pg_main :: main_point
  pg_handles :: "nat list"
  pg_fetch :: fetch_point
  pg_output :: "Buffer option list list"

definition pg_host :: "'p program \<Rightarrow> 'p obm" where
  "pg_host s = sys_host (pg_system s)"

definition set_host :: "'p obm \<Rightarrow> 'p program \<Rightarrow> 'p program" where
  "set_host h s = s\<lparr>pg_system := (pg_system s)\<lparr>sys_host := h\<rparr>\<rparr>"

definition program_start :: "obm_params \<Rightarrow> obm_args \<Rightarrow> 'p host \<Rightarrow> 'p program" where
  "program_start c args h =
     \<lparr>pg_system = \<lparr>sys_host = obm_start c h, sys_fetched = (\<lambda>_. 0), sys_irqs = [], sys_client = []\<rparr>,
      pg_main = Acquires (unat (oa_num_runs args)), pg_handles = [], pg_fetch = NotStarted,
      pg_output = replicate (unat (oa_num_runs args)) []\<rparr>"

definition all_inputs :: "obm_args \<Rightarrow> (nat \<times> nat) list" where
  "all_inputs args = List.product [0 ..< unat (oa_num_runs args)] [0 ..< unat (oa_num_streams args)]"

inductive main_step ::
  "obm_params \<Rightarrow> 'p MemoryPool \<Rightarrow> u64 \<Rightarrow> obm_args \<Rightarrow> stream_mask_t \<Rightarrow> ptr \<Rightarrow> pipe_event list \<Rightarrow>
   'p program \<Rightarrow> 'p program \<Rightarrow> bool"
  for c :: obm_params and ops :: "'p MemoryPool" and mx :: u64 and args :: obm_args and mask_all :: stream_mask_t
    and input :: ptr where
  main_acquires:
    "pg_main s = Acquires (Suc k) \<Longrightarrow> acquire_output_handle c ops mask_all (pg_host s) = (Inr r, h') \<Longrightarrow>
     main_step c ops mx args mask_all input [Opened (filter (bit mask_all) [0 ..< unat (NUM_STREAMS c)])]
       s ((set_host h' s)\<lparr>pg_main := Acquires k, pg_handles := pg_handles s @ [r]\<rparr>)"
| main_spawns:
    "pg_main s = Acquires 0 \<Longrightarrow>
     main_step c ops mx args mask_all input [] s (s\<lparr>pg_main := Posts (all_inputs args), pg_fetch := Asks 0\<rparr>)"
| main_posts:
    "pg_main s = Posts ((i, j) # ps) \<Longrightarrow>
     enqueue_stream_input mx ops input (oa_size args) (of_nat j) True (pg_host s) = (Inr (), h') \<Longrightarrow>
     main_step c ops mx args mask_all input [Sent] s ((set_host h' s)\<lparr>pg_main := Posts ps\<rparr>)"

text \<open>The round that begins when there is more output, and where the thread is after a call of it.\<close>

definition next_take :: "nat \<Rightarrow> nat list \<Rightarrow> fetch_point" where
  "next_take i js = (if js = [] then Asks i else Takes i js)"

definition add_output :: "nat \<Rightarrow> Buffer option \<Rightarrow> 'p program \<Rightarrow> 'p program" where
  "add_output i b s = s\<lparr>pg_output := (pg_output s)[i := pg_output s ! i @ [b]]\<rparr>"

inductive fetch_step :: "obm_args \<Rightarrow> pipe_event list \<Rightarrow> 'p program \<Rightarrow> 'p program \<Rightarrow> bool"
  for args :: obm_args where
  fetch_asks:
    "pg_fetch s = Asks i \<Longrightarrow> i < unat (oa_num_runs args) \<Longrightarrow>
     on_handle (pg_handles s ! i) any_stream_has_more_output (pg_host s) = (Inr (Returns has_more), h') \<Longrightarrow>
     fetch_step args [] s ((set_host h' s)\<lparr>pg_fetch :=
       if has_more then next_take i [0 ..< unat (oa_num_streams args)] else Asks (Suc i)\<rparr>)"
| fetch_takes:
    "pg_fetch s = Takes i (j # js) \<Longrightarrow>
     on_handle (pg_handles s ! i) (get_next_stream_output (of_nat j)) (pg_host s) = (Inr (Returns (Some b)), h') \<Longrightarrow>
     fetch_step args [Took (pg_handles s ! i) (unat (of_nat j :: stream_t)) (unat (buf_size b))] s
       (add_output i (Some b) (s\<lparr>pg_system := (pg_system s)\<lparr>sys_host := h', sys_client := b # sys_client (pg_system s)\<rparr>,
          pg_fetch := next_take i js\<rparr>))"
| fetch_takes_null:
    "pg_fetch s = Takes i (j # js) \<Longrightarrow>
     on_handle (pg_handles s ! i) (get_next_stream_output (of_nat j)) (pg_host s) = (Inr (Returns None), h') \<Longrightarrow>
     fetch_step args [] s (add_output i None ((set_host h' s)\<lparr>pg_fetch := next_take i js\<rparr>))"

text \<open>The steps of the device and of the interrupts.\<close>

fun of_device :: "pipe_event \<Rightarrow> bool" where
  "of_device (Raised i n l) = True"
| "of_device (Delivered i n l) = True"
| "of_device _ = False"

inductive program_step ::
  "obm_params \<Rightarrow> 'p MemoryPool \<Rightarrow> u64 \<Rightarrow> obm_args \<Rightarrow> stream_mask_t \<Rightarrow> ptr \<Rightarrow> pipe_event list \<Rightarrow>
   'p program \<Rightarrow> 'p program \<Rightarrow> bool"
  for c :: obm_params and ops :: "'p MemoryPool" and mx :: u64 and args :: obm_args and mask_all :: stream_mask_t
    and input :: ptr where
  by_device:
    "sys_event c ops e (pg_system s) t \<Longrightarrow> of_device e \<Longrightarrow>
     program_step c ops mx args mask_all input [e] s (s\<lparr>pg_system := t\<rparr>)"
| by_main:
    "main_step c ops mx args mask_all input es s s' \<Longrightarrow> program_step c ops mx args mask_all input es s s'"
| by_fetcher:
    "fetch_step args es s s' \<Longrightarrow> program_step c ops mx args mask_all input es s s'"

inductive program_trace ::
  "obm_params \<Rightarrow> 'p MemoryPool \<Rightarrow> u64 \<Rightarrow> obm_args \<Rightarrow> stream_mask_t \<Rightarrow> ptr \<Rightarrow> 'p host \<Rightarrow> pipe_event list \<Rightarrow>
   'p program \<Rightarrow> bool"
  for c :: obm_params and ops :: "'p MemoryPool" and mx :: u64 and args :: obm_args and mask_all :: stream_mask_t
    and input :: ptr and h :: "'p host" where
  program_starts: "program_trace c ops mx args mask_all input h [] (program_start c args h)"
| program_steps: "program_trace c ops mx args mask_all input h evs s \<Longrightarrow>
     program_step c ops mx args mask_all input es s s' \<Longrightarrow>
     program_trace c ops mx args mask_all input h (evs @ es) s'"

section \<open>The program as a run of the output path\<close>

lemma any_more_wp:
  "wp any_stream_has_more_output (\<lambda>r h'. h' = h \<and>
      (case r of
         Returns b \<Rightarrow> b = any_stream_output_available h \<and> (\<not> b \<longrightarrow> any_memory_in_flight h = Inr False)
       | Blocks \<Rightarrow> \<not> any_stream_output_available h \<and> any_memory_in_flight h = Inr True))
    (\<lambda>e h'. any_memory_in_flight h = Inl e) h"
  by (cases "any_memory_in_flight h") (auto simp: any_stream_has_more_output_def wp_simps wp_ret)

lemma ask_keeps:
  assumes "on_handle r any_stream_has_more_output s = (Inr x, s')"
  shows "s' = s" and "r < length (handles s)"
    and "case x of
      Returns b \<Rightarrow> b = any_stream_output_available (handles s ! r) \<and>
        (\<not> b \<longrightarrow> any_memory_in_flight (handles s ! r) = Inr False)
    | Blocks \<Rightarrow> \<not> any_stream_output_available (handles s ! r) \<and> any_memory_in_flight (handles s ! r) = Inr True"
proof -
  obtain g where r: "r < length (handles s)" and g: "any_stream_has_more_output (handles s ! r) = (Inr x, g)"
    and s': "s' = s\<lparr>handles := (handles s)[r := g]\<rparr>"
    using assms by (auto simp: on_handle_def onE_def split: if_splits prod.splits)
  note post = wpD_Inr [OF any_more_wp g]
  then show "s' = s" by (simp add: s')
  show "r < length (handles s)" by (rule r)
  show "case x of
      Returns b \<Rightarrow> b = any_stream_output_available (handles s ! r) \<and>
        (\<not> b \<longrightarrow> any_memory_in_flight (handles s ! r) = Inr False)
    | Blocks \<Rightarrow> \<not> any_stream_output_available (handles s ! r) \<and> any_memory_in_flight (handles s ! r) = Inr True"
    using post by simp
qed

lemma take_null:
  assumes "on_handle r (get_next_stream_output i) s = (Inr (Returns None), s')"
  shows "s' = s" and "oh_output_buffers (handles s ! r) ! unat i = [] \<and>
    bit (oh_finished_streams (handles s ! r)) (unat i)"
  using assms wpD_Inr [OF get_next_wp]
  by (fastforce simp: on_handle_def onE_def stream_finished_def split: if_splits prod.splits)+

lemma take_buffer:
  assumes "on_handle r (get_next_stream_output i) s = (Inr (Returns (Some b)), s')"
  shows "\<exists>rest. oh_output_buffers (handles s ! r) ! unat i = b # rest \<and>
    s' = s\<lparr>handles := (handles s)[r := (handles s ! r)\<lparr>oh_output_buffers :=
      (oh_output_buffers (handles s ! r))[unat i := rest]\<rparr>]\<rparr>"
proof -
  obtain g where "get_next_stream_output i (handles s ! r) = (Inr (Returns (Some b)), g)"
    "s' = s\<lparr>handles := (handles s)[r := g]\<rparr>"
    using assms by (auto simp: on_handle_def onE_def split: if_splits prod.splits)
  with wpD_Inr [OF get_next_wp] show ?thesis by fastforce
qed

lemma set_host_simps [simp]:
  "pg_output (set_host h s) = pg_output s" "pg_handles (set_host h s) = pg_handles s"
  "pg_main (set_host h s) = pg_main s" "pg_fetch (set_host h s) = pg_fetch s" "pg_host (set_host h s) = h"
  by (simp_all add: set_host_def pg_host_def)

lemma pg_host_simps [simp]:
  "pg_host (s\<lparr>pg_fetch := f\<rparr>) = pg_host s" "pg_host (s\<lparr>pg_output := x\<rparr>) = pg_host s" "pg_host (s\<lparr>pg_main := p\<rparr>) = pg_host s"
  "pg_host (s\<lparr>pg_handles := y\<rparr>) = pg_host s" "pg_host (s\<lparr>pg_system := t\<rparr>) = sys_host t"
  by (simp_all add: pg_host_def)

lemma set_same_host [simp]: "set_host (pg_host s) s = s"
  by (simp add: set_host_def pg_host_def)

lemma program_step_system:
  assumes "program_step c ops mx args mask_all input es s s'"
  shows "es = [] \<and> pg_system s' = pg_system s \<or> (\<exists>e. es = [e] \<and> sys_event c ops e (pg_system s) (pg_system s'))"
  using assms
proof cases
  case by_main
  then show ?thesis
    by cases (auto simp: set_host_def pg_host_def intro: sys_event.intros)
next
  case by_fetcher
  then show ?thesis
  proof cases
    case (fetch_asks i has_more h')
    then show ?thesis using ask_keeps(1) [OF fetch_asks(5)] by simp
  next
    case (fetch_takes i j js b h')
    then show ?thesis using ev_takes by (fastforce simp: add_output_def pg_host_def)
  next
    case (fetch_takes_null i j js h')
    then show ?thesis using take_null(1) [OF fetch_takes_null(4)] by (simp add: add_output_def)
  qed
qed auto

lemma program_trace_system:
  "program_trace c ops mx args mask_all input h evs s \<Longrightarrow> sys_trace c ops h evs (pg_system s)"
proof (induction rule: program_trace.induct)
  case program_starts
  show ?case by (simp add: program_start_def trace_start)
next
  case (program_steps evs s es s')
  from program_step_system [OF program_steps.hyps(2)] program_steps.IH show ?case
    by (auto intro: trace_next)
qed

section \<open>What a run receives\<close>

text \<open>What the reports that were delivered give to run \<open>i\<close> from stream \<open>j\<close>, and whether they have ended it.\<close>

definition received_by :: "pipe_event list \<Rightarrow> nat \<Rightarrow> nat \<Rightarrow> nat list" where
  "received_by evs i j = received i (opened j 0 evs) (delivered j evs)"

definition ended_at :: "pipe_event list \<Rightarrow> nat \<Rightarrow> nat \<Rightarrow> bool" where
  "ended_at evs i j \<longleftrightarrow> i \<in> set (take (num_ended (delivered j evs)) (opened j 0 evs))"

definition drained :: "pipe_event list \<Rightarrow> nat \<Rightarrow> nat \<Rightarrow> bool" where
  "drained evs i j \<longleftrightarrow> ended_at evs i j \<and> taken i j evs = received_by evs i j"

lemma served_snocD:
  "served as (ds @ [(n, l)]) \<Longrightarrow> served as ds \<and> drop (num_ended ds) as \<noteq> []"
  by (induction as ds rule: served.induct) (auto split: if_splits)

text \<open>A report that is delivered adds to what was received, but not of a transfer that has ended.\<close>

definition grown :: "pipe_event list \<Rightarrow> pipe_event list \<Rightarrow> bool" where
  "grown evs evs' \<longleftrightarrow> (\<forall>i j. taken i j evs' = taken i j evs) \<and>
     (\<forall>i j. length (received_by evs i j) \<le> length (received_by evs' i j)) \<and>
     (\<forall>i j. ended_at evs i j \<longrightarrow> distinct (opened j 0 evs) \<longrightarrow>
        ended_at evs' i j \<and> received_by evs' i j = received_by evs i j)"

lemma grown_quiet:
  assumes "\<And>i. delivered i es = []" and "\<And>i r. opened i r es = []" and "\<And>i r. taken r i es = []"
  shows "grown evs (evs @ es)"
  using assms by (simp add: grown_def received_by_def ended_at_def history_append opened_append)

lemma grown_delivered:
  assumes "served (opened j 0 evs) (delivered j evs @ [(n, l)])"
  shows "grown evs (evs @ [Delivered j n l])"
proof -
  let ?as = "opened j 0 evs" and ?ds = "delivered j evs"
  have s: "served ?as ?ds" and "drop (num_ended ?ds) ?as \<noteq> []" using served_snocD [OF assms] by simp_all
  then obtain a rest where d: "drop (num_ended ?ds) ?as = a # rest" by (meson neq_Nil_conv)
  have got: "received i ?as (?ds @ [(n, l)]) = received i ?as ?ds @ (if a = i then amount n else [])" for i
    by (rule received_snoc [OF s d])
  have "a \<notin> set (take (num_ended ?ds) ?as)" if "distinct ?as"
    using set_take_disj_set_drop_if_distinct [OF that order_refl, of "num_ended ?ds"] d by auto
  moreover have "set (take (num_ended ?ds) ?as) \<subseteq> set (take (num_ended (?ds @ [(n, l)])) ?as)"
    by (rule set_take_subset_set_take) (simp add: num_ended_append)
  ultimately show ?thesis
    using got by (auto simp: grown_def received_by_def ended_at_def history_append opened_append)
qed

section \<open>Rounds of the fetching thread\<close>

lemma by_rounds_snoc: "by_rounds qs (Suc m) = by_rounds qs m @ map (\<lambda>q. front_opt (drop m q)) qs"
  by (simp add: by_rounds_def)

lemma by_rounds_take: "by_rounds qs m = by_rounds (map (take m) qs) m"
proof -
  have "front_opt (drop r (take m q)) = front_opt (drop r q)" if "r < m" for r and q :: "'a list"
    using that by (cases "drop r q"; cases "m - r") (simp_all add: front_opt_def drop_take)
  then show ?thesis by (auto simp: by_rounds_def intro!: arg_cong [where f = concat])
qed

text \<open>
  What the thread has of run \<open>i\<close> after \<open>k\<close> rounds and the first \<open>m\<close> streams of the next one: from each
  stream one buffer for each round, or all of a stream that has ended.
\<close>

definition round_state :: "pipe_event list \<Rightarrow> nat \<Rightarrow> nat \<Rightarrow> nat \<Rightarrow> nat \<Rightarrow> nat option list \<Rightarrow> bool" where
  "round_state evs n i k m out \<longleftrightarrow>
     (let qs = map (\<lambda>j. taken i j evs) [0 ..< n] in
      out = by_rounds qs k @ map (\<lambda>q. front_opt (drop k q)) (take m qs)) \<and>
     (\<forall>j < n. let b = (if j < m then Suc k else k) in
        length (taken i j evs) \<le> b \<and> (length (taken i j evs) = b \<or> drained evs i j))"

definition run_complete :: "pipe_event list \<Rightarrow> nat \<Rightarrow> nat \<Rightarrow> nat option list \<Rightarrow> bool" where
  "run_complete evs n i out \<longleftrightarrow> (\<forall>j < n. drained evs i j) \<and>
     (let qs = map (received_by evs i) [0 ..< n] in out = by_rounds qs (rounds qs))"

definition run_untouched :: "pipe_event list \<Rightarrow> nat \<Rightarrow> nat \<Rightarrow> nat option list \<Rightarrow> bool" where
  "run_untouched evs n i out \<longleftrightarrow> out = [] \<and> (\<forall>j < n. taken i j evs = [])"

lemma round_start: "run_untouched evs n i out \<Longrightarrow> round_state evs n i 0 0 out"
  by (simp add: run_untouched_def round_state_def by_rounds_def)

lemma round_end: "round_state evs n i k n out \<Longrightarrow> round_state evs n i (Suc k) 0 out"
  by (simp add: round_state_def by_rounds_snoc Let_def)

lemma round_complete:
  assumes "round_state evs n i k 0 out" and "\<forall>j < n. drained evs i j" and "k = 0 \<or> (\<exists>j < n. length (taken i j evs) = k)"
  shows "run_complete evs n i out"
proof -
  let ?qs = "map (\<lambda>j. taken i j evs) [0 ..< n]"
  have "rounds ?qs \<le> k"
    using rounds_witness [of ?qs] assms(1) by (fastforce simp: round_state_def Let_def)
  moreover have "k \<le> rounds ?qs"
    using assms(3) length_le_rounds [of _ ?qs] by fastforce
  moreover have "?qs = map (received_by evs i) [0 ..< n]"
    using assms(2) by (simp add: drained_def)
  ultimately show ?thesis
    using assms(1,2) unfolding run_complete_def round_state_def Let_def by (simp only: order_antisym) simp
qed

text \<open>The next stream of a round gives a buffer, or a null pointer when it has ended and all was taken.\<close>

lemma round_takes:
  assumes r: "round_state evs n i k m out" and m: "m < n" and more: "length (taken i m evs) < length (received_by evs i m)"
    and got: "\<And>j. received_by (evs @ [Took i m x]) i j = received_by evs i j"
      "\<And>j. ended_at (evs @ [Took i m x]) i j = ended_at evs i j"
  shows "round_state (evs @ [Took i m x]) n i k (Suc m) (out @ [Some x])" and "length (taken i m evs) = k"
proof -
  let ?evs = "evs @ [Took i m x]"
  let ?qs = "map (\<lambda>j. taken i j evs) [0 ..< n]" and ?qs' = "map (\<lambda>j. taken i j ?evs) [0 ..< n]"
  have tk: "taken i j ?evs = taken i j evs @ (if j = m then [x] else [])" for j by (simp add: history_append)
  have "\<not> drained evs i m" using more by (auto simp: drained_def)
  then show k: "length (taken i m evs) = k" using r m by (auto simp: round_state_def Let_def)
  have le: "length (taken i j evs) \<le> (if j < m then Suc k else k)" if "j < n" for j
    using r that by (simp add: round_state_def Let_def)
  have "map (take k) ?qs' = map (take k) ?qs" using k by (simp add: tk)
  then have a: "by_rounds ?qs' k = by_rounds ?qs k" by (metis by_rounds_take)
  have b: "map (\<lambda>q. front_opt (drop k q)) (take (Suc m) ?qs') = map (\<lambda>q. front_opt (drop k q)) (take m ?qs) @ [Some x]"
    using m k by (simp add: take_Suc_conv_app_nth tk take_map [symmetric]) (simp add: take_map tk front_opt_def)
  have dr: "drained ?evs i j = drained evs i j" if "j \<noteq> m" for j
    using that by (simp add: drained_def got tk)
  show "round_state ?evs n i k (Suc m) (out @ [Some x])"
    using r k dr a b by (auto simp: round_state_def Let_def tk less_Suc_eq)
qed

lemma round_null:
  assumes r: "round_state evs n i k m out" and m: "m < n" and d: "drained evs i m"
  shows "round_state evs n i k (Suc m) (out @ [None])"
proof -
  let ?qs = "map (\<lambda>j. taken i j evs) [0 ..< n]"
  have "length (taken i m evs) \<le> k" using r m by (auto simp: round_state_def Let_def)
  then have "map (\<lambda>q. front_opt (drop k q)) (take (Suc m) ?qs) = map (\<lambda>q. front_opt (drop k q)) (take m ?qs) @ [None]"
    using m by (simp add: take_Suc_conv_app_nth front_opt_def)
  then show ?thesis
    using r d by (auto simp: round_state_def Let_def less_Suc_eq)
qed

text \<open>The other threads do not disturb it.\<close>

lemma drained_grown: "grown evs evs' \<Longrightarrow> distinct (opened j 0 evs) \<Longrightarrow> drained evs i j \<Longrightarrow> drained evs' i j"
  by (auto simp: grown_def drained_def)

lemma rounds_grown:
  assumes "grown evs evs'" and "\<forall>j < n. distinct (opened j 0 evs)"
  shows "round_state evs n i k m out \<Longrightarrow> round_state evs' n i k m out"
    and "run_untouched evs n i out \<Longrightarrow> run_untouched evs' n i out"
    and "run_complete evs n i out \<Longrightarrow> run_complete evs' n i out"
proof -
  have t: "taken i j evs' = taken i j evs" for i j using assms(1) by (simp add: grown_def)
  have d: "drained evs i j \<Longrightarrow> drained evs' i j" if "j < n" for j
    using drained_grown [OF assms(1)] assms(2) that by blast
  show "round_state evs n i k m out \<Longrightarrow> round_state evs' n i k m out"
    using d unfolding round_state_def Let_def t by blast
  show "run_untouched evs n i out \<Longrightarrow> run_untouched evs' n i out" by (simp add: run_untouched_def t)
  assume c: "run_complete evs n i out"
  then have "received_by evs' i j = received_by evs i j" if "j < n" for j
    using assms that by (simp add: run_complete_def drained_def grown_def)
  then have "map (received_by evs' i) [0 ..< n] = map (received_by evs i) [0 ..< n]" by simp
  with c d show "run_complete evs' n i out" by (simp only: run_complete_def) blast
qed

section \<open>The points of the fetching thread\<close>

text \<open>
  Before the condition of the loop, some stream has given a buffer in each of the rounds; inside a round some
  stream has given one or will, because the condition held.
\<close>

definition between_rounds :: "pipe_event list \<Rightarrow> nat \<Rightarrow> nat \<Rightarrow> nat option list \<Rightarrow> bool" where
  "between_rounds evs n i out \<longleftrightarrow>
     (\<exists>k. round_state evs n i k 0 out \<and> (k = 0 \<or> (\<exists>j < n. length (taken i j evs) = k)))"

definition in_round :: "pipe_event list \<Rightarrow> nat \<Rightarrow> nat \<Rightarrow> nat list \<Rightarrow> nat option list \<Rightarrow> bool" where
  "in_round evs n i js out \<longleftrightarrow>
     (\<exists>k m. m < n \<and> js = [m ..< n] \<and> round_state evs n i k m out \<and>
        (\<exists>j < n. length (taken i j evs) = Suc k \<or> m \<le> j \<and> length (taken i j evs) < length (received_by evs i j)))"

definition other_runs :: "pipe_event list \<Rightarrow> nat \<Rightarrow> nat \<Rightarrow> nat \<Rightarrow> nat option list list \<Rightarrow> bool" where
  "other_runs evs n R i out \<longleftrightarrow> length out = R \<and> (\<forall>i' < i. run_complete evs n i' (out ! i')) \<and>
     (\<forall>i' < R. i < i' \<longrightarrow> run_untouched evs n i' (out ! i'))"

fun fetch_inv :: "pipe_event list \<Rightarrow> nat \<Rightarrow> nat \<Rightarrow> fetch_point \<Rightarrow> nat option list list \<Rightarrow> bool" where
  "fetch_inv evs n R NotStarted out \<longleftrightarrow> length out = R \<and> (\<forall>i < R. run_untouched evs n i (out ! i))"
| "fetch_inv evs n R (Asks i) out \<longleftrightarrow> i \<le> R \<and> other_runs evs n R i out \<and>
     (i < R \<longrightarrow> between_rounds evs n i (out ! i))"
| "fetch_inv evs n R (Takes i js) out \<longleftrightarrow> i < R \<and> other_runs evs n R i out \<and> in_round evs n i js (out ! i)"

lemma fetch_inv_grown:
  assumes "grown evs evs'" and "\<forall>j < n. distinct (opened j 0 evs)" and "fetch_inv evs n R pt out"
  shows "fetch_inv evs' n R pt out"
proof -
  note keep = rounds_grown [OF assms(1,2)]
  have t: "taken i j evs' = taken i j evs" and le: "length (received_by evs i j) \<le> length (received_by evs' i j)" for i j
    using assms(1) by (simp_all add: grown_def)
  have "between_rounds evs n i o' \<Longrightarrow> between_rounds evs' n i o'" for i o'
    using keep(1) unfolding between_rounds_def t by blast
  moreover have "in_round evs n i js o' \<Longrightarrow> in_round evs' n i js o'" for i js o'
    using keep(1) le unfolding in_round_def t by (metis (no_types, lifting) less_le_trans)
  moreover have "other_runs evs n R i out \<Longrightarrow> other_runs evs' n R i out" for i
    using keep(2,3) by (simp add: other_runs_def)
  ultimately show ?thesis
    using assms(3) keep(2) by (cases pt) auto
qed

lemma fetch_inv_opened:
  "fetch_inv evs n R NotStarted out \<Longrightarrow> fetch_inv (evs @ [Opened is]) n R NotStarted out"
  by (simp add: run_untouched_def history_append)

lemma between_rounds_start: "run_untouched evs n i out \<Longrightarrow> between_rounds evs n i out"
  using round_start unfolding between_rounds_def by blast

lemma fetch_inv_starts: "fetch_inv evs n R NotStarted out \<Longrightarrow> fetch_inv evs n R (Asks 0) out"
  using between_rounds_start by (auto simp: other_runs_def)

lemma fetch_inv_more:
  assumes "fetch_inv evs n R (Asks i) out" and "i < R" and "j < n" and "length (taken i j evs) < length (received_by evs i j)"
  shows "fetch_inv evs n R (next_take i [0 ..< n]) out"
proof -
  obtain k where "round_state evs n i k 0 (out ! i)" using assms(1,2) by (auto simp: between_rounds_def)
  then have "in_round evs n i [0 ..< n] (out ! i)"
    using assms(3,4) unfolding in_round_def by (intro exI [of _ k] exI [of _ 0]) auto
  then show ?thesis using assms by (simp add: next_take_def)
qed

lemma fetch_inv_run_ends:
  assumes "fetch_inv evs n R (Asks i) out" and "i < R" and "\<forall>j < n. drained evs i j"
  shows "fetch_inv evs n R (Asks (Suc i)) out"
proof -
  have "run_complete evs n i (out ! i)"
    using assms round_complete unfolding between_rounds_def fetch_inv.simps by blast
  then have "other_runs evs n R (Suc i) out"
    using assms(1) by (auto simp: other_runs_def less_Suc_eq)
  moreover have "between_rounds evs n (Suc i) (out ! Suc i)" if "Suc i < R"
    using assms(1) that between_rounds_start by (auto simp: other_runs_def)
  ultimately show ?thesis using assms(2) by simp
qed

text \<open>The end of a call inside a round, with or without a buffer.\<close>

lemma in_round_next:
  assumes "round_state evs n i k (Suc m) out" and "m < n"
    and "j < n" "length (taken i j evs) = Suc k \<or> Suc m \<le> j \<and> length (taken i j evs) < length (received_by evs i j)"
  shows "if Suc m = n then between_rounds evs n i out else in_round evs n i [Suc m ..< n] out"
proof (cases "Suc m = n")
  case True
  then have "round_state evs n i (Suc k) 0 out" using assms(1) round_end by simp
  moreover have "length (taken i j evs) = Suc k" using assms(3,4) True by auto
  ultimately show ?thesis using True assms(3) by (auto simp: between_rounds_def)
next
  case False
  then show ?thesis
    using assms unfolding in_round_def by (simp add: exI [of _ k] exI [of _ "Suc m"]) (metis Suc_lessI)
qed

lemma fetch_inv_next:
  assumes "if Suc m = n then between_rounds evs n i (out ! i) else in_round evs n i [Suc m ..< n] (out ! i)"
    and "i < R" and "other_runs evs n R i out" and "m < n"
  shows "fetch_inv evs n R (next_take i [Suc m ..< n]) out"
  using assms by (simp add: next_take_def split: if_splits)

lemma fetch_inv_takes:
  assumes f: "fetch_inv evs n R (Takes i (j # js)) out" and more: "length (taken i j evs) < length (received_by evs i j)"
  shows "fetch_inv (evs @ [Took i j x]) n R (next_take i js) (out[i := out ! i @ [Some x]])"
proof -
  let ?evs = "evs @ [Took i j x]" and ?out = "out[i := out ! i @ [Some x]]"
  have got: "received_by ?evs i' j' = received_by evs i' j'" "ended_at ?evs i' j' = ended_at evs i' j'"
    "taken i' j' ?evs = taken i' j' evs @ (if i' = i \<and> j' = j then [x] else [])" for i' j'
    by (simp_all add: received_by_def ended_at_def history_append opened_append)
  have "in_round evs n i (j # js) (out ! i)" and i: "i < R" and o: "other_runs evs n R i out" using f by auto
  then obtain k m j' where m: "m < n" "j # js = [m ..< n]" and r: "round_state evs n i k m (out ! i)"
    and j': "j' < n" "length (taken i j' evs) = Suc k \<or> m \<le> j' \<and> length (taken i j' evs) < length (received_by evs i j')"
    unfolding in_round_def by blast
  have jm: "j = m" "js = [Suc m ..< n]" using m by (auto simp: upt_conv_Cons)
  note step = round_takes [OF r m(1) more [unfolded jm] got(1,2) [unfolded jm]]
  have len: "length out = R" using o by (simp add: other_runs_def)
  have "length (taken i m ?evs) = Suc k" using step(2) by (simp add: history_append jm)
  moreover have "round_state ?evs n i k (Suc m) (?out ! i)" using step(1) i len jm by simp
  ultimately have n: "if Suc m = n then between_rounds ?evs n i (?out ! i) else in_round ?evs n i [Suc m ..< n] (?out ! i)"
    by (intro in_round_next [OF _ m(1) m(1)]) simp_all
  have "other_runs ?evs n R i ?out"
    using o by (auto simp: other_runs_def run_complete_def run_untouched_def drained_def got Let_def cong: map_cong)
  then show ?thesis using fetch_inv_next [OF n i _ m(1)] jm by simp
qed

lemma fetch_inv_null:
  assumes f: "fetch_inv evs n R (Takes i (j # js)) out" and d: "drained evs i j"
  shows "fetch_inv evs n R (next_take i js) (out[i := out ! i @ [None]])"
proof -
  let ?out = "out[i := out ! i @ [None]]"
  have "in_round evs n i (j # js) (out ! i)" and i: "i < R" and o: "other_runs evs n R i out" using f by auto
  then obtain k m j' where m: "m < n" "j # js = [m ..< n]" and r: "round_state evs n i k m (out ! i)"
    and j': "j' < n" "length (taken i j' evs) = Suc k \<or> m \<le> j' \<and> length (taken i j' evs) < length (received_by evs i j')"
    unfolding in_round_def by blast
  have jm: "j = m" "js = [Suc m ..< n]" using m by (auto simp: upt_conv_Cons)
  have len: "length out = R" using o by (simp add: other_runs_def)
  have "round_state evs n i k (Suc m) (?out ! i)" using round_null [OF r m(1)] d jm i len by simp
  moreover have "length (taken i j' evs) = Suc k \<or> Suc m \<le> j' \<and> length (taken i j' evs) < length (received_by evs i j')"
    using j'(2) d jm by (cases "j' = m") (auto simp: drained_def)
  ultimately have n: "if Suc m = n then between_rounds evs n i (?out ! i) else in_round evs n i [Suc m ..< n] (?out ! i)"
    by (intro in_round_next [OF _ m(1) j'(1)])
  have "other_runs evs n R i ?out" using o by (auto simp: other_runs_def)
  then show ?thesis using fetch_inv_next [OF n i _ m(1)] jm by simp
qed

section \<open>The invariant of the program\<close>

text \<open>A buffer as the specification sees it: the number of its bytes.\<close>

definition buffer_sizes :: "Buffer option list \<Rightarrow> nat option list" where
  "buffer_sizes = map (map_option (unat \<circ> buf_size))"

text \<open>The mask selects the first streams, which exist.\<close>

definition streams_ok :: "obm_params \<Rightarrow> obm_args \<Rightarrow> stream_mask_t \<Rightarrow> bool" where
  "streams_ok c args mask_all \<longleftrightarrow> 0 < oa_num_streams args \<and> unat (oa_num_streams args) \<le> unat (NUM_STREAMS c) \<and>
     (\<forall>j. bit mask_all j \<longleftrightarrow> j < unat (oa_num_streams args))"

lemma mask_all_streams:
  assumes "obm_mask_all args = Inr m" and "0 < oa_num_streams args" and "oa_num_streams args \<le> ucast (NUM_STREAMS c)"
  shows "streams_ok c args m"
proof -
  let ?n = "unat (oa_num_streams args)"
  have "m = mask ?n" using assms(1) by (simp add: obm_mask_all_def mask_eq_exp_minus_1 push_bit_eq_mult split: if_splits)
  moreover have "?n \<le> unat (NUM_STREAMS c)"
  proof -
    have "unat (ucast (NUM_STREAMS c) :: u64) \<le> unat (NUM_STREAMS c)"
      by (simp add: unsigned_ucast_eq take_bit_nat_less_eq_self)
    then show ?thesis using assms(3) by (simp add: word_le_nat_alt)
  qed
  moreover have "?n < 64"
    using assms(1) by (simp add: obm_mask_all_def word_less_nat_alt split: if_splits)
  ultimately show ?thesis using assms(2) by (auto simp: streams_ok_def bit_mask_iff)
qed

definition program_inv ::
  "obm_params \<Rightarrow> obm_args \<Rightarrow> stream_mask_t \<Rightarrow> pipe_event list \<Rightarrow> 'p program \<Rightarrow> bool" where
  "program_inv c args mask_all evs s \<longleftrightarrow>
     (let k = num_opened evs; n = unat (oa_num_streams args); R = unat (oa_num_runs args) in
        pg_handles s = [0 ..< k] \<and> (\<forall>g \<in> set (handles (pg_host s)). oh_active_streams g = mask_all) \<and>
        (\<forall>j < unat (NUM_STREAMS c). opened j 0 evs = (if j < n then [0 ..< k] else [])) \<and>
        (\<forall>r. Released r \<notin> set evs) \<and>
        (case pg_main s of
           Acquires a \<Rightarrow> k + a = R \<and> pg_fetch s = NotStarted
         | Posts ps \<Rightarrow> k = R \<and> pg_fetch s \<noteq> NotStarted) \<and>
        fetch_inv evs n R (pg_fetch s) (map buffer_sizes (pg_output s)))"

lemma program_start_inv: "program_inv c args mask_all [] (program_start c args h)"
  by (simp add: program_inv_def program_start_def pg_host_def obm_start_def host.defs buffer_sizes_def
      run_untouched_def)

text \<open>What the state of the host says of the history, for a program that destroys no handle before its end.\<close>

definition linked :: "obm_params \<Rightarrow> pipe_event list \<Rightarrow> 'p obm \<Rightarrow> bool" where
  "linked c evs H \<longleftrightarrow> length (handles H) = num_opened evs \<and> unat (NUM_STREAMS c) \<le> 256 \<and>
     (\<forall>g \<in> set (handles H). handle_shape (NUM_STREAMS c) g) \<and>
     (\<forall>j < unat (NUM_STREAMS c). served (opened j 0 evs) (delivered j evs) \<and>
        (\<forall>i < num_opened evs.
           taken i j evs @ map (unat \<circ> buf_size) (oh_output_buffers (handles H ! i) ! j) = received_by evs i j \<and>
           (bit (oh_finished_streams (handles H ! i)) j \<longleftrightarrow> ended_at evs i j)))"

context memory_pool
begin

lemma sys_trace_linked:
  assumes "sys_trace c ops h evs t" and "params_ok c" and "pool_inv (host_pool h)" and "tlb_inv h"
    and "\<And>i. i < NUM_STREAMS c \<Longrightarrow> csr_writes (stream_csr c i) (host_cthread h) = []"
    and "\<forall>r. Released r \<notin> set evs"
  shows "linked c evs (sys_host t)"
proof -
  have "pipe_run (unat (NUM_STREAMS c)) evs (pipe_start (unat (NUM_STREAMS c))) = Some (pipe_of c t)"
    by (rule refine_trace [OF assms(1-5)])
  from history_run [OF this] have hist: "pipe_history (unat (NUM_STREAMS c)) evs (pipe_of c t)" .
  have "obm_shape c (sys_host t)"
    using sys_reachable_inv [OF sys_trace_reachable [OF assms(1)] assms(2-5)] by (simp add: sys_inv_def obm_inv_def)
  then have shape: "\<forall>g \<in> set (handles (sys_host t)). handle_shape (NUM_STREAMS c) g" by (simp add: obm_shape_def)
  have len: "length (handles (sys_host t)) = num_opened evs" using hist by (simp add: pipe_history_def)
  have "served (opened j 0 evs) (delivered j evs) \<and> (\<forall>i < num_opened evs.
      taken i j evs @ map (unat \<circ> buf_size) (oh_output_buffers (handles (sys_host t) ! i) ! j) = received_by evs i j \<and>
      (bit (oh_finished_streams (handles (sys_host t) ! i)) j \<longleftrightarrow> ended_at evs i j))"
    if j: "j < unat (NUM_STREAMS c)" for j
  proof -
    have sh: "stream_history evs (pipe_of c t) j" using hist j by (simp add: pipe_history_def)
    have "j < length (oh_output_buffers (handles (sys_host t) ! i))" if "i < num_opened evs" for i
      using shape that len j by (simp add: handle_shape_def)
    then show ?thesis
      using sh assms(6) j len
      by (auto simp: stream_history_def transfer_history_def Let_def received_by_def ended_at_def ended_streams_def)
  qed
  moreover have "unat (NUM_STREAMS c) < 2 ^ 8" by (rule less_le_trans [OF unsigned_less]) simp
  ultimately show ?thesis
    unfolding linked_def using shape len by simp
qed

text \<open>The streams a handle is active for do not change.\<close>

lemma interrupt_active:
  assumes inv: "sys_inv pool_inv live c X t" and ok: "params_ok c"
    and h: "handle_fpga_interrupt c ops w (sys_host t) = (Inr (), h')" and iv: "parse_interrupt_value w = Inr iv"
    and a: "\<forall>g \<in> set (handles (sys_host t)). oh_active_streams g = m"
  shows "iv_stream_id iv < NUM_STREAMS c" and "\<forall>g \<in> set (handles h'). oh_active_streams g = m"
proof -
  have oi: "obm_inv pool_inv live c (image_mset out_block (mset (sys_client t)) + X) (sys_host t)"
    using inv by (simp add: sys_inv_def)
  have cap: "0 < BUFFER_CAPACITY c" using ok by (simp add: params_ok_def)
  from wpD_Inr [OF handle_fpga_interrupt_wp [OF oi cap params_ok_request [OF ok]] h]
  obtain u bs where i: "iv_stream_id iv < NUM_STREAMS c"
    and mv: "moved_to_handle c ops (iv_stream_id iv) (iv_bytes_written iv) (iv_last iv) (sys_host t) u"
    and bs: "buffers_enqueued c (iv_stream_id iv) bs u h'" by (auto simp: iv)
  show "iv_stream_id iv < NUM_STREAMS c" by (rule i)
  obtain r hs where r: "enqueued_handles (sys_host t) ! unat (iv_stream_id iv) = r # hs"
    using mv by (cases "enqueued_handles (sys_host t) ! unat (iv_stream_id iv)") (auto simp: moved_to_handle_def)
  have "obm_shape c (sys_host t)" using oi by (simp add: obm_inv_def)
  from shape_handle(1) [OF this i r] have "oh_active_streams (handles (sys_host t) ! r) = m" using a by simp
  moreover obtain g where "handles h' = (handles (sys_host t))[r := g]"
    "oh_active_streams g = oh_active_streams (handles (sys_host t) ! r)"
    using mv bs by (auto simp: moved_to_handle_def Let_def r buffers_enqueued_def handle_moved_def)
  ultimately show "\<forall>g \<in> set (handles h'). oh_active_streams g = m"
    using a by (auto dest!: set_update_subset_insert [THEN subsetD])
qed

lemma program_inv_device:
  assumes p: "program_inv c args m evs s" and inv: "sys_inv pool_inv live c X (pg_system s)" and ok: "params_ok c"
    and st: "streams_ok c args m" and ev: "sys_event c ops e (pg_system s) t" "of_device e"
    and l: "linked c (evs @ [e]) (sys_host t)"
  shows "program_inv c args m (evs @ [e]) (s\<lparr>pg_system := t\<rparr>)"
proof -
  let ?n = "unat (oa_num_streams args)"
  have a: "\<forall>g \<in> set (handles (pg_host s)). oh_active_streams g = m"
    and op: "\<forall>j < unat (NUM_STREAMS c). opened j 0 evs = (if j < ?n then [0 ..< num_opened evs] else [])"
    using p by (simp_all add: program_inv_def Let_def)
  have d: "\<forall>j < ?n. distinct (opened j 0 evs)" using op st by (simp add: streams_ok_def)
  have "grown evs (evs @ [e]) \<and> (\<forall>g \<in> set (handles (sys_host t)). oh_active_streams g = m) \<and>
      num_opened [e] = 0 \<and> (\<forall>j r. opened j r [e] = []) \<and> (\<forall>r. Released r \<noteq> e)"
    using ev(1)
  proof cases
    case (ev_interrupt w v rest h' iv)
    note act = interrupt_active [OF inv ok ev_interrupt(4,5) a [unfolded pg_host_def]]
    note i = act(1) and a' = act(2)
    have "unat (iv_stream_id iv) < unat (NUM_STREAMS c)" using i by (simp add: word_less_nat_alt)
    then have "served (opened (unat (iv_stream_id iv)) 0 (evs @ [e])) (delivered (unat (iv_stream_id iv)) (evs @ [e]))"
      using l unfolding linked_def by blast
    then have "served (opened (unat (iv_stream_id iv)) 0 evs)
        (delivered (unat (iv_stream_id iv)) evs @ [(unat (iv_bytes_written iv), iv_last iv)])"
      by (simp add: ev_interrupt(1) history_append opened_append)
    from grown_delivered [OF this] show ?thesis using ev_interrupt a' by simp
  qed (use ev(2) a in \<open>simp_all add: grown_quiet pg_host_def\<close>)
  then show ?thesis
    using p fetch_inv_grown [OF _ d]
    by (auto simp: program_inv_def Let_def pg_host_def history_append opened_append split: main_point.splits)
qed

lemma program_inv_main:
  assumes p: "program_inv c args m evs s" and inv: "sys_inv pool_inv live c X (pg_system s)" and ok: "params_ok c"
    and st: "streams_ok c args m" and l: "linked c evs (pg_host s)"
    and "main_step c ops mx args m input es s s'"
  shows "program_inv c args m (evs @ es) s'"
  using assms(6)
proof cases
  case (main_acquires k r h')
  let ?n = "unat (oa_num_streams args)" and ?N = "unat (NUM_STREAMS c)"
  have oi: "obm_inv pool_inv live c (image_mset out_block (mset (sys_client (pg_system s))) + X) (pg_host s)"
    using inv by (simp add: sys_inv_def pg_host_def)
  have cap: "0 < BUFFER_CAPACITY c" using ok by (simp add: params_ok_def)
  from wpD_Inr [OF acquire_output_handle_wp [OF oi cap params_ok_request [OF ok]] main_acquires(4)]
  have r: "r = length (handles (pg_host s))" and h': "handles h' = handles (pg_host s) @ [OutputHandle_init m (NUM_STREAMS c)]"
    by (auto simp: streams_acquired_def)
  have len: "length (handles (pg_host s)) = num_opened evs" using l by (simp add: linked_def)
  have "count_list (filter (bit m) [0 ..< ?N]) j = (if j < ?n then 1 else 0)" if "j < ?N" for j
    using st that by (simp add: count_list_distinct_upt streams_ok_def)
  moreover have "fetch_inv (evs @ es) ?n (unat (oa_num_runs args)) NotStarted (map buffer_sizes (pg_output s))"
    unfolding main_acquires(1) by (rule fetch_inv_opened) (use p main_acquires(3) in \<open>auto simp: program_inv_def Let_def\<close>)
  ultimately show ?thesis
    using p main_acquires r h' len
    by (auto simp: program_inv_def Let_def pg_host_def set_host_def history_append opened_append
        simp del: fetch_inv.simps)
next
  case main_spawns
  let ?out = "map buffer_sizes (pg_output s)" and ?n = "unat (oa_num_streams args)" and ?R = "unat (oa_num_runs args)"
  have "fetch_inv evs ?n ?R NotStarted ?out"
    using p main_spawns(3) by (simp only: program_inv_def Let_def main_point.case) metis
  then have "fetch_inv evs ?n ?R (Asks 0) ?out" by (rule fetch_inv_starts)
  with p main_spawns show ?thesis
    by (auto simp: program_inv_def Let_def pg_host_def simp del: fetch_inv.simps)
next
  case (main_posts i j ps h')
  let ?n = "unat (oa_num_streams args)"
  from main_posts(4) obtain new ds where
    "h' = (after_maps new (pg_host s))\<lparr>host_cthread := host_cthread (pg_host s) @ user_maps new @ ds\<rparr>"
    by (rule enqueue_stream_input_frame)
  then have h': "handles h' = handles (pg_host s)" by simp
  have "grown evs (evs @ [Sent])" by (rule grown_quiet) simp_all
  moreover have "\<forall>j < ?n. distinct (opened j 0 evs)" using p st by (simp add: program_inv_def Let_def streams_ok_def)
  ultimately have "fetch_inv (evs @ [Sent]) ?n R pt out" if "fetch_inv evs ?n R pt out" for R pt out
    using fetch_inv_grown that by blast
  with p main_posts h' show ?thesis
    by (auto simp: program_inv_def Let_def pg_host_def set_host_def history_append opened_append)
qed

end

section \<open>Calls of the fetching thread\<close>

text \<open>The queues of a run.\<close>

definition run_queues :: "obm_args \<Rightarrow> 'p program \<Rightarrow> nat \<Rightarrow> Buffer list list" where
  "run_queues args s i = take (unat (oa_num_streams args)) (oh_output_buffers (handles (pg_host s) ! i))"

lemma in_flight_none:
  assumes "any_memory_in_flight h = Inr False" and "j < length (oh_output_buffers h)" and "bit (oh_active_streams h) j"
  shows "bit (oh_finished_streams h) j"
proof -
  have "in_flight_from h is = Inr False \<Longrightarrow> j \<in> set is \<Longrightarrow> bit (oh_finished_streams h) j" for "is"
    using assms(3) by (induction "is") (auto simp: mask_test_def split: sum.splits if_splits)
  then show ?thesis using assms(1,2) by (simp add: any_memory_in_flight_def)
qed

text \<open>The handle of a run, seen from the history.\<close>

lemma linked_handle:
  assumes "linked c evs H" and "i < num_opened evs" and "j < unat (NUM_STREAMS c)"
  shows "i < length (handles H)" and "length (oh_output_buffers (handles H ! i)) = unat (NUM_STREAMS c)"
    and "oh_NUM_STREAMS (handles H ! i) = NUM_STREAMS c" and "unat (of_nat j :: stream_t) = j"
    and "taken i j evs @ map (unat \<circ> buf_size) (oh_output_buffers (handles H ! i) ! j) = received_by evs i j"
    and "bit (oh_finished_streams (handles H ! i)) j \<longleftrightarrow> ended_at evs i j"
proof -
  show i: "i < length (handles H)" using assms(1,2) by (simp add: linked_def)
  then have "handle_shape (NUM_STREAMS c) (handles H ! i)" using assms(1) by (simp add: linked_def)
  then show "length (oh_output_buffers (handles H ! i)) = unat (NUM_STREAMS c)"
    "oh_NUM_STREAMS (handles H ! i) = NUM_STREAMS c" by (simp_all add: handle_shape_def)
  show "unat (of_nat j :: stream_t) = j" using assms(3) by (rule unat_of_nat_below)
  show "taken i j evs @ map (unat \<circ> buf_size) (oh_output_buffers (handles H ! i) ! j) = received_by evs i j"
    "bit (oh_finished_streams (handles H ! i)) j \<longleftrightarrow> ended_at evs i j"
    using assms by (simp_all add: linked_def)
qed

text \<open>The state the thread is in when it has a step.\<close>

lemma program_inv_fetching:
  assumes "program_inv c args m evs s" and "pg_fetch s \<noteq> NotStarted"
  shows "num_opened evs = unat (oa_num_runs args)" and "pg_handles s = [0 ..< unat (oa_num_runs args)]"
    and "\<And>j. j < unat (NUM_STREAMS c) \<Longrightarrow>
      opened j 0 evs = (if j < unat (oa_num_streams args) then [0 ..< unat (oa_num_runs args)] else [])"
    and "fetch_inv evs (unat (oa_num_streams args)) (unat (oa_num_runs args)) (pg_fetch s) (map buffer_sizes (pg_output s))"
    and "\<forall>g \<in> set (handles (pg_host s)). oh_active_streams g = m"
  using assms by (auto simp: program_inv_def Let_def split: main_point.splits)

text \<open>What the thread changes of the invariant.\<close>

lemma program_inv_fetched:
  assumes p: "program_inv c args m evs s" and "pg_fetch s \<noteq> NotStarted" and "pg_fetch s' \<noteq> NotStarted"
    and "pg_main s' = pg_main s" and "pg_handles s' = pg_handles s"
    and "\<forall>g \<in> set (handles (pg_host s')). oh_active_streams g = m"
    and "num_opened es = 0" and "\<And>j r. opened j r es = []" and "\<And>r. Released r \<notin> set es"
    and "fetch_inv (evs @ es) (unat (oa_num_streams args)) (unat (oa_num_runs args)) (pg_fetch s')
      (map buffer_sizes (pg_output s'))"
  shows "program_inv c args m (evs @ es) s'"
  using assms
  by (auto simp: program_inv_def Let_def history_append opened_append split: main_point.splits)

lemma fetch_point_takes:
  assumes "fetch_inv evs n R (Takes i (j # js)) out"
  shows "i < R" and "j < n" and "length out = R" and "j \<notin> set js"
  using assms by (auto simp: in_round_def other_runs_def dest: upt_eq_Cons_conv [THEN iffD1, OF sym])

text \<open>Output that is available belongs to one of the streams of the program.\<close>

lemma more_output_streams:
  assumes p: "program_inv c args m evs s" and st: "streams_ok c args m" and l: "linked c evs (pg_host s)"
    and f: "pg_fetch s = Asks i" "i < unat (oa_num_runs args)"
    and "any_stream_output_available (handles (pg_host s) ! i)"
  shows "\<exists>j < unat (oa_num_streams args). run_queues args s i ! j \<noteq> [] \<and>
    length (taken i j evs) < length (received_by evs i j)"
proof -
  let ?n = "unat (oa_num_streams args)" and ?g = "handles (pg_host s) ! i"
  have ns: "pg_fetch s \<noteq> NotStarted" using f(1) by simp
  note pf = program_inv_fetching [OF p ns]
  have i: "i < num_opened evs" using f(2) pf(1) by simp
  have N: "0 < unat (NUM_STREAMS c)" using st by (auto simp: streams_ok_def word_less_nat_alt)
  have "\<exists>q \<in> set (oh_output_buffers ?g). q \<noteq> []"
    using assms(6) by (simp add: any_stream_output_available_def list_ex_iff)
  then obtain j where j: "j < unat (NUM_STREAMS c)" "oh_output_buffers ?g ! j \<noteq> []"
    using linked_handle(2) [OF l i N] by (auto simp: in_set_conv_nth)
  note lh = linked_handle [OF l i j(1)]
  have "received_by evs i j \<noteq> []" using lh(5) j(2) by auto
  moreover have "received i [] ds = []" for ds by (cases ds) simp_all
  ultimately have "j < ?n" using pf(3) [OF j(1)] by (auto simp: received_by_def split: if_splits)
  moreover have "length (taken i j evs) < length (received_by evs i j)"
    using j(2) lh(5) by (metis length_append length_greater_0_conv less_add_same_cancel1 length_map)
  ultimately show ?thesis using j(2) by (auto simp: run_queues_def)
qed

text \<open>A stream the thread has still to take from in a round, and a run it asks for more output.\<close>

lemma fetching_takes:
  assumes p: "program_inv c args m evs s" and st: "streams_ok c args m" and f: "pg_fetch s = Takes i (j # js)"
  shows "fetch_inv evs (unat (oa_num_streams args)) (unat (oa_num_runs args)) (Takes i (j # js)) (map buffer_sizes (pg_output s))"
    and "i < unat (oa_num_runs args)" and "j < unat (oa_num_streams args)" and "length (pg_output s) = unat (oa_num_runs args)"
    and "j \<notin> set js" and "pg_handles s ! i = i" and "i < num_opened evs" and "j < unat (NUM_STREAMS c)"
    and "\<forall>g \<in> set (handles (pg_host s)). oh_active_streams g = m"
proof -
  have ns: "pg_fetch s \<noteq> NotStarted" using f by simp
  note pf = program_inv_fetching [OF p ns]
  show inv: "fetch_inv evs (unat (oa_num_streams args)) (unat (oa_num_runs args)) (Takes i (j # js)) (map buffer_sizes (pg_output s))"
    using pf(4) f by simp
  note pt = fetch_point_takes [OF inv]
  show "i < unat (oa_num_runs args)" "j < unat (oa_num_streams args)" "length (pg_output s) = unat (oa_num_runs args)"
    "j \<notin> set js" "pg_handles s ! i = i" "i < num_opened evs" "\<forall>g \<in> set (handles (pg_host s)). oh_active_streams g = m"
    using pt pf(1,2,5) by simp_all
  show "j < unat (NUM_STREAMS c)" using pt(2) st by (simp add: streams_ok_def)
qed

lemma fetching_asks:
  assumes p: "program_inv c args m evs s" and f: "pg_fetch s = Asks i" "i < unat (oa_num_runs args)"
  shows "fetch_inv evs (unat (oa_num_streams args)) (unat (oa_num_runs args)) (Asks i) (map buffer_sizes (pg_output s))"
    and "pg_handles s ! i = i" and "i < num_opened evs" and "\<forall>g \<in> set (handles (pg_host s)). oh_active_streams g = m"
proof -
  have ns: "pg_fetch s \<noteq> NotStarted" using f by simp
  note pf = program_inv_fetching [OF p ns]
  show "fetch_inv evs (unat (oa_num_streams args)) (unat (oa_num_runs args)) (Asks i) (map buffer_sizes (pg_output s))"
    "pg_handles s ! i = i" "i < num_opened evs" "\<forall>g \<in> set (handles (pg_host s)). oh_active_streams g = m"
    using pf f by simp_all
qed

text \<open>When no stream of a run can have more output, the thread has taken all of it.\<close>

lemma no_more_output_drained:
  assumes st: "streams_ok c args m" and l: "linked c evs (pg_host s)" and i: "i < num_opened evs"
    and a: "\<forall>g \<in> set (handles (pg_host s)). oh_active_streams g = m"
    and "\<not> any_stream_output_available (handles (pg_host s) ! i)" and "any_memory_in_flight (handles (pg_host s) ! i) = Inr False"
    and j: "j < unat (oa_num_streams args)"
  shows "drained evs i j"
proof -
  let ?g = "handles (pg_host s) ! i"
  have jN: "j < unat (NUM_STREAMS c)" using j st by (simp add: streams_ok_def)
  note lh = linked_handle [OF l i jN]
  have "oh_output_buffers ?g ! j = []"
    using assms(5) jN lh(2) by (auto simp: any_stream_output_available_def list_ex_iff)
  moreover have "bit (oh_active_streams ?g) j" using a lh(1) st j by (simp add: streams_ok_def)
  then have "bit (oh_finished_streams ?g) j" using assms(6) jN lh(2) in_flight_none by simp
  ultimately show ?thesis using lh(5,6) by (simp add: drained_def)
qed

lemma buffer_sizes_snoc: "buffer_sizes (bs @ [b]) = buffer_sizes bs @ [map_option (unat \<circ> buf_size) b]"
  by (simp add: buffer_sizes_def)

lemma program_inv_asks:
  assumes p: "program_inv c args m evs s" and st: "streams_ok c args m" and l: "linked c evs (pg_host s)"
    and f: "pg_fetch s = Asks i" "i < unat (oa_num_runs args)"
    and h: "on_handle (pg_handles s ! i) any_stream_has_more_output (pg_host s) = (Inr (Returns has_more), h')"
  shows "program_inv c args m evs ((set_host h' s)\<lparr>pg_fetch :=
    if has_more then next_take i [0 ..< unat (oa_num_streams args)] else Asks (Suc i)\<rparr>)"
proof -
  let ?n = "unat (oa_num_streams args)" and ?R = "unat (oa_num_runs args)"
  let ?s' = "(set_host h' s)\<lparr>pg_fetch := if has_more then next_take i [0 ..< ?n] else Asks (Suc i)\<rparr>"
  note fa = fetching_asks [OF p f]
  note ask = ask_keeps [OF h, unfolded fa(2)]
  have "fetch_inv evs ?n ?R (if has_more then next_take i [0 ..< ?n] else Asks (Suc i)) (map buffer_sizes (pg_output s))"
  proof (cases has_more)
    case True
    then have "any_stream_output_available (handles (pg_host s) ! i)" using ask(3) by simp
    from more_output_streams [OF p st l f this]
    show ?thesis using fetch_inv_more [OF fa(1) f(2)] True by auto
  next
    case False
    then have "\<forall>j < ?n. drained evs i j" using no_more_output_drained [OF st l fa(3,4)] ask(3) by simp
    then show ?thesis using fetch_inv_run_ends [OF fa(1) f(2)] False by simp
  qed
  moreover have "pg_fetch s \<noteq> NotStarted" using f by simp
  ultimately show ?thesis
    using program_inv_fetched [OF p, of ?s' "[]"] fa(4) ask(1)
    by (simp add: set_host_def pg_host_def next_take_def split: if_splits)
qed

lemma program_inv_takes:
  assumes p: "program_inv c args m evs s" and st: "streams_ok c args m" and l: "linked c evs (pg_host s)"
    and f: "pg_fetch s = Takes i (j # js)"
    and h: "on_handle (pg_handles s ! i) (get_next_stream_output (of_nat j)) (pg_host s) = (Inr (Returns (Some b)), h')"
    and s': "s' = add_output i (Some b) (s\<lparr>pg_system := (pg_system s)\<lparr>sys_host := h', sys_client := cl\<rparr>, pg_fetch := next_take i js\<rparr>)"
  shows "program_inv c args m (evs @ [Took i j (unat (buf_size b))]) s'"
proof -
  note ft = fetching_takes [OF p st f]
  note lh = linked_handle [OF l ft(7,8)]
  obtain rest where q: "oh_output_buffers (handles (pg_host s) ! i) ! j = b # rest"
    and h': "h' = (pg_host s)\<lparr>handles := (handles (pg_host s))[i := (handles (pg_host s) ! i)\<lparr>oh_output_buffers :=
      (oh_output_buffers (handles (pg_host s) ! i))[j := rest]\<rparr>]\<rparr>"
    using take_buffer [OF h] unfolding ft(6) lh(4) by blast
  have "length (taken i j evs) < length (received_by evs i j)"
    using arg_cong [OF lh(5), of length] by (simp add: q)
  note fi = fetch_inv_takes [OF ft(1) this, of "unat (buf_size b)"]
  have "\<forall>g \<in> set (handles h'). oh_active_streams g = m"
    using ft(9) lh(1) by (auto simp: h' dest!: set_update_subset_insert [THEN subsetD])
  then show ?thesis
    using program_inv_fetched [OF p, of s' "[Took i j (unat (buf_size b))]"] f fi ft(2,4)
    by (simp add: s' add_output_def map_update buffer_sizes_snoc pg_host_def next_take_def split: if_splits)
qed

lemma program_inv_takes_null:
  assumes p: "program_inv c args m evs s" and st: "streams_ok c args m" and l: "linked c evs (pg_host s)"
    and f: "pg_fetch s = Takes i (j # js)"
    and h: "on_handle (pg_handles s ! i) (get_next_stream_output (of_nat j)) (pg_host s) = (Inr (Returns None), h')"
  shows "program_inv c args m evs (add_output i None ((set_host h' s)\<lparr>pg_fetch := next_take i js\<rparr>))"
proof -
  let ?s' = "add_output i None ((set_host h' s)\<lparr>pg_fetch := next_take i js\<rparr>)"
  note ft = fetching_takes [OF p st f]
  note lh = linked_handle [OF l ft(7,8)]
  note nl = take_null [OF h, unfolded ft(6) lh(4)]
  have "drained evs i j" using nl(2) lh(5,6) by (simp add: drained_def)
  note fi = fetch_inv_null [OF ft(1) this]
  show ?thesis
    using program_inv_fetched [OF p, of ?s' "[]"] f fi ft(9) ft(2,4) nl(1)
    by (simp add: add_output_def map_update buffer_sizes_snoc set_host_def pg_host_def next_take_def split: if_splits)
qed

lemma program_inv_fetch:
  assumes p: "program_inv c args m evs s" and st: "streams_ok c args m" and l: "linked c evs (pg_host s)"
    and "fetch_step args es s s'"
  shows "program_inv c args m (evs @ es) s'"
  using assms(4)
proof cases
  case (fetch_asks i has_more h')
  with program_inv_asks [OF p st l fetch_asks(3-5)] show ?thesis by simp
next
  case (fetch_takes i j js b h')
  note ft = fetching_takes [OF p st fetch_takes(3)]
  from program_inv_takes [OF p st l fetch_takes(3,4,2)] linked_handle(4) [OF l ft(7,8)] ft(6) fetch_takes(1)
  show ?thesis by simp
next
  case (fetch_takes_null i j js h')
  with program_inv_takes_null [OF p st l fetch_takes_null(3,4)] show ?thesis by simp
qed

context memory_pool
begin

lemma program_trace_inv:
  assumes "program_trace c ops mx args m input h evs s" and "params_ok c" and "pool_inv (host_pool h)" and "tlb_inv h"
    and "\<And>i. i < NUM_STREAMS c \<Longrightarrow> csr_writes (stream_csr c i) (host_cthread h) = []" and "streams_ok c args m"
  shows "program_inv c args m evs s" and "linked c evs (pg_host s)"
proof -
  have link: "linked c evs (sys_host t)" if "sys_trace c ops h evs t" "\<forall>r. Released r \<notin> set evs" for evs t
    using sys_trace_linked [OF that(1) assms(2-5)] that(2) by blast
  show inv: "program_inv c args m evs s"
    using assms(1)
  proof (induction rule: program_trace.induct)
    case program_starts
    show ?case by (rule program_start_inv)
  next
    case (program_steps evs s es s')
    have tr: "sys_trace c ops h evs (pg_system s)" by (rule program_trace_system [OF program_steps.hyps(1)])
    have nr: "\<forall>r. Released r \<notin> set evs" using program_steps.IH by (simp add: program_inv_def Let_def)
    have l: "linked c evs (pg_host s)" using link [OF tr nr] by (simp add: pg_host_def)
    have si: "sys_inv pool_inv live c (live_blocks (live (host_pool h))) (pg_system s)"
      by (rule sys_reachable_inv [OF sys_trace_reachable [OF tr] assms(2-5)])
    from program_steps.hyps(2) show ?case
    proof cases
      case (by_device e t)
      have "linked c (evs @ [e]) (sys_host t)"
        by (rule link [OF trace_next [OF tr by_device(3)]]) (use nr by_device(4) in auto)
      from program_inv_device [OF program_steps.IH si assms(2,6) by_device(3,4) this] by_device show ?thesis by simp
    next
      case by_main
      then show ?thesis by (rule program_inv_main [OF program_steps.IH si assms(2,6) l])
    next
      case by_fetcher
      then show ?thesis by (rule program_inv_fetch [OF program_steps.IH assms(6) l])
    qed
  qed
  then have "\<forall>r. Released r \<notin> set evs" by (simp add: program_inv_def Let_def)
  from link [OF program_trace_system [OF assms(1)] this] show "linked c evs (pg_host s)" by (simp add: pg_host_def)
qed

end

section \<open>The work that is left\<close>

text \<open>
  A bound of the steps the threads have left when nothing more is delivered: a round for each buffer of
  the longest queue of a run, and a step to see that a run has ended.
\<close>

definition after_round :: "nat list \<Rightarrow> 'a list list \<Rightarrow> 'a list list" where
  "after_round js qs = map (\<lambda>j. if j \<in> set js then tl (qs ! j) else qs ! j) [0 ..< length qs]"

definition run_work :: "obm_args \<Rightarrow> 'p program \<Rightarrow> nat \<Rightarrow> nat" where
  "run_work args s i = Suc (Suc (unat (oa_num_streams args)) * rounds (run_queues args s i))"

definition fetch_work :: "obm_args \<Rightarrow> 'p program \<Rightarrow> nat" where
  "fetch_work args s =
     (case pg_fetch s of
        NotStarted \<Rightarrow> 0
      | Asks i \<Rightarrow> sum_list (map (run_work args s) [i ..< unat (oa_num_runs args)])
      | Takes i js \<Rightarrow> sum_list (map (run_work args s) [Suc i ..< unat (oa_num_runs args)]) +
          Suc (Suc (unat (oa_num_streams args)) * rounds (after_round js (run_queues args s i)) + length js))"

definition program_work :: "obm_args \<Rightarrow> 'p program \<Rightarrow> nat" where
  "program_work args s = (case pg_main s of Acquires k \<Rightarrow> k | Posts ps \<Rightarrow> length ps) + fetch_work args s"

lemma after_round_none [simp]: "after_round [] qs = qs"
  by (simp add: after_round_def map_nth)

lemma after_round_all: "after_round [0 ..< length qs] qs = map tl qs"
  by (rule nth_equalityI) (simp_all add: after_round_def)

lemma after_round_step:
  assumes "j \<notin> set js"
  shows "after_round js (qs[j := tl (qs ! j)]) = after_round (j # js) qs"
proof (rule nth_equalityI)
  fix k assume "k < length (after_round js (qs[j := tl (qs ! j)]))"
  then show "after_round js (qs[j := tl (qs ! j)]) ! k = after_round (j # js) qs ! k"
    using assms by (cases "k = j") (auto simp: after_round_def)
qed (simp add: after_round_def)

lemma fetch_work_handles:
  assumes "handles (pg_host s') = handles (pg_host s)" and "pg_fetch s' = pg_fetch s"
  shows "fetch_work args s' = fetch_work args s"
proof -
  have "run_queues args s' = run_queues args s" using assms(1) by (simp add: run_queues_def fun_eq_iff)
  then have "run_work args s' = run_work args s" by (simp add: run_work_def fun_eq_iff)
  then show ?thesis
    using \<open>run_queues args s' = run_queues args s\<close> assms(2) unfolding fetch_work_def by (simp only:)
qed

text \<open>After a call for stream \<open>j\<close> of a round.\<close>

lemma fetch_work_next:
  assumes f: "pg_fetch s = Takes i (j # js)" and f': "pg_fetch s' = next_take i js"
    and h': "handles (pg_host s') = (handles (pg_host s))[i := g]" and i: "i < length (handles (pg_host s))"
    and g: "oh_output_buffers g = (oh_output_buffers (handles (pg_host s) ! i))[j := tl (oh_output_buffers (handles (pg_host s) ! i) ! j)]"
    and j: "j < unat (oa_num_streams args)" "j \<notin> set js" and i': "i < unat (oa_num_runs args)"
  shows "fetch_work args s' < fetch_work args s"
proof -
  let ?q = "run_queues args s i" and ?R = "unat (oa_num_runs args)"
  have "run_queues args s' k = run_queues args s k" if "k \<noteq> i" for k using that by (simp add: run_queues_def h')
  then have "map (run_work args s') [Suc i ..< ?R] = map (run_work args s) [Suc i ..< ?R]"
    by (simp add: run_work_def)
  note other = arg_cong [OF this, of sum_list]
  have "run_queues args s' i = ?q[j := tl (?q ! j)]"
    using i j(1) by (simp add: run_queues_def h' g take_update_swap)
  then have after: "after_round js (run_queues args s' i) = after_round (j # js) ?q"
    using after_round_step [OF j(2)] by simp
  have up: "[i ..< ?R] = i # [Suc i ..< ?R]" using i' by (simp add: upt_conv_Cons)
  show ?thesis
  proof (cases "js = []")
    case True
    then have "run_queues args s' i = after_round [j] ?q" using after by simp
    then have w: "run_work args s' i = Suc (Suc (unat (oa_num_streams args)) * rounds (after_round [j] ?q))"
      by (simp add: run_work_def)
    show ?thesis
      unfolding fetch_work_def f f' next_take_def fetch_point.case using True other by (simp add: up w)
  next
    case False
    then show ?thesis
      using other unfolding fetch_work_def f f' next_take_def fetch_point.case by (simp add: after)
  qed
qed

text \<open>When there is more output, the round that begins takes a buffer from the longest queue.\<close>

lemma round_reduces:
  assumes p: "program_inv c args m evs s" and st: "streams_ok c args m" and l: "linked c evs (pg_host s)"
    and f: "pg_fetch s = Asks i" "i < unat (oa_num_runs args)" and "any_stream_output_available (handles (pg_host s) ! i)"
  shows "Suc (rounds (after_round [0 ..< unat (oa_num_streams args)] (run_queues args s i))) = rounds (run_queues args s i)"
proof -
  let ?q = "run_queues args s i" and ?n = "unat (oa_num_streams args)"
  have N: "0 < ?n" "?n \<le> unat (NUM_STREAMS c)" using st by (simp_all add: streams_ok_def word_less_nat_alt)
  have qs: "length ?q = ?n"
    using linked_handle(2) [OF l fetching_asks(3) [OF p f], of 0] N by (simp add: run_queues_def)
  from more_output_streams [OF p st l f assms(6)] obtain j where "j < ?n" "?q ! j \<noteq> []" by blast
  then have "rounds ?q \<noteq> 0" using nth_mem [of j ?q] qs by (auto simp: rounds_0)
  then show ?thesis using after_round_all [of ?q] qs by (simp add: rounds_tl)
qed

text \<open>Every step of the fetching thread takes some of its work away.\<close>

lemma fetch_step_work:
  assumes p: "program_inv c args m evs s" and st: "streams_ok c args m" and l: "linked c evs (pg_host s)"
    and "fetch_step args es s s'"
  shows "fetch_work args s' < fetch_work args s"
  using assms(4)
proof cases
  case (fetch_asks i has_more h')
  let ?n = "unat (oa_num_streams args)" and ?q = "run_queues args s i"
  note fa = fetching_asks [OF p fetch_asks(3,4)]
  note ask = ask_keeps [OF fetch_asks(5), unfolded fa(2)]
  have s': "run_queues args s' = run_queues args s" "run_work args s' = run_work args s"
    by (simp_all add: fetch_asks(2) ask(1) run_queues_def run_work_def fun_eq_iff)
  have up: "[i ..< unat (oa_num_runs args)] = i # [Suc i ..< unat (oa_num_runs args)]"
    using fetch_asks(4) by (simp add: upt_conv_Cons)
  show ?thesis
  proof (cases has_more)
    case True
    then have "any_stream_output_available (handles (pg_host s) ! i)" using ask(3) by simp
    from round_reduces [OF p st l fetch_asks(3,4) this]
    have r: "rounds ?q = Suc (rounds (after_round [0 ..< ?n] ?q))" by simp
    have "0 < ?n" using st by (simp add: streams_ok_def word_less_nat_alt)
    then show ?thesis using True s' by (simp add: fetch_work_def fetch_asks(2,3) next_take_def up run_work_def r)
  next
    case False
    then show ?thesis using s' by (simp add: fetch_work_def fetch_asks(2,3) up run_work_def)
  qed
next
  case (fetch_takes i j js b h')
  note ft = fetching_takes [OF p st fetch_takes(3)]
  note lh = linked_handle [OF l ft(7,8)]
  let ?g = "handles (pg_host s) ! i"
  obtain rest where "oh_output_buffers ?g ! j = b # rest" "h' = (pg_host s)\<lparr>handles := (handles (pg_host s))[i :=
      ?g\<lparr>oh_output_buffers := (oh_output_buffers ?g)[j := rest]\<rparr>]\<rparr>"
    using take_buffer [OF fetch_takes(4)] unfolding ft(6) lh(4) by blast
  then show ?thesis
    by (intro fetch_work_next [OF fetch_takes(3) _ _ lh(1) _ ft(3,5,2), where g = "?g\<lparr>oh_output_buffers :=
      (oh_output_buffers ?g)[j := rest]\<rparr>"]) (simp_all add: fetch_takes(2) add_output_def)
next
  case (fetch_takes_null i j js h')
  note ft = fetching_takes [OF p st fetch_takes_null(3)]
  note lh = linked_handle [OF l ft(7,8)]
  note nl = take_null [OF fetch_takes_null(4), unfolded ft(6) lh(4)]
  show ?thesis
    by (rule fetch_work_next [OF fetch_takes_null(3) _ _ lh(1) _ ft(3,5,2), where g = "handles (pg_host s) ! i"])
      (use nl in \<open>simp_all add: fetch_takes_null(2) add_output_def, metis list_update_id\<close>)
qed

section \<open>Progress\<close>

text \<open>The device has ended every run on every stream.\<close>

definition all_ended :: "obm_args \<Rightarrow> pipe_event list \<Rightarrow> bool" where
  "all_ended args evs \<longleftrightarrow>
     (\<forall>j < unat (oa_num_streams args). num_ended (delivered j evs) = unat (oa_num_runs args))"

text \<open>The handle of a run then never lets the thread wait.\<close>

lemma handle_ended:
  assumes p: "program_inv c args m evs s" and st: "streams_ok c args m" and l: "linked c evs (pg_host s)"
    and ns: "pg_fetch s \<noteq> NotStarted" and e: "all_ended args evs" and i: "i < unat (oa_num_runs args)"
    and N: "unat (NUM_STREAMS c) \<le> 64"
  shows "handle_complete (unat (oa_num_streams args)) (handles (pg_host s) ! i)"
proof -
  let ?n = "unat (oa_num_streams args)" and ?N = "unat (NUM_STREAMS c)" and ?g = "handles (pg_host s) ! i"
  note pf = program_inv_fetching [OF p ns]
  have ik: "i < num_opened evs" using i pf(1) by simp
  have n: "0 < ?N" "?n \<le> ?N" and act: "bit m j \<longleftrightarrow> j < ?n" for j
    using st by (auto simp: streams_ok_def word_less_nat_alt)
  note g = linked_handle [OF l ik n(1)]
  have a: "oh_active_streams ?g = m" using pf(5) g(1) by simp
  have fin: "bit (oh_finished_streams ?g) j" if "j < ?n" for j
  proof -
    have "j < ?N" using that n(2) by simp
    then show ?thesis
      using linked_handle(6) [OF l ik] pf(3) e that i by (simp add: ended_at_def all_ended_def)
  qed
  have "oh_output_buffers ?g ! j = []" if "?n \<le> j" "j < ?N" for j
  proof -
    have "received i [] ds = []" for ds by (cases ds) simp_all
    then have "received_by evs i j = []" using pf(3) [OF that(2)] that(1) by (simp add: received_by_def)
    then show ?thesis using linked_handle(5) [OF l ik that(2)] by simp
  qed
  then have "list_all (\<lambda>q. q = []) (drop ?n (oh_output_buffers ?g))"
    using g(2) by (simp add: list_all_length)
  then show ?thesis
    using g(2,3) n N a act fin by (simp add: handle_complete_def)
qed

lemma fetch_progress:
  assumes p: "program_inv c args m evs s" and st: "streams_ok c args m" and l: "linked c evs (pg_host s)"
    and ns: "pg_fetch s \<noteq> NotStarted" and e: "all_ended args evs" and N: "unat (NUM_STREAMS c) \<le> 64"
    and "pg_fetch s \<noteq> Asks (unat (oa_num_runs args))"
  shows "\<exists>es s'. fetch_step args es s s'"
proof -
  let ?n = "unat (oa_num_streams args)" and ?R = "unat (oa_num_runs args)"
  note pf = program_inv_fetching [OF p ns]
  have call: "on_handle i act (pg_host s) =
      (fst (act (handles (pg_host s) ! i)), (pg_host s)\<lparr>handles := (handles (pg_host s))[i := snd (act (handles (pg_host s) ! i))]\<rparr>)"
    if "i < ?R" for i and act :: "(OutputHandle, 'x) action"
    using that l pf(1) by (simp add: on_handle_def onE_def linked_def split: prod.split)
  show ?thesis
  proof (cases "pg_fetch s")
    case (Asks i)
    then have i: "i < ?R" using pf(4) assms(7) by simp
    note hc = handle_ended [OF p st l ns e i N]
    have "\<exists>b. fst (any_stream_has_more_output (handles (pg_host s) ! i)) = Inr (Returns b)"
      using no_memory_in_flight [OF hc] by (auto simp: any_stream_has_more_output_def method_defs)
    then show ?thesis
      using fetch_asks [OF Asks i] call [OF i, of any_stream_has_more_output] i by (simp add: pf(2)) metis
  next
    case (Takes i js)
    then have i: "i < ?R" and "js \<noteq> []" using pf(4) by (auto simp: in_round_def)
    then obtain j js' where js: "js = j # js'" by (cases js) auto
    have j: "j < ?n" using fetch_point_takes(2) pf(4) Takes js by simp
    note hc = handle_ended [OF p st l ns e i N]
    have r: "fst (get_next_stream_output (of_nat j) (handles (pg_host s) ! i)) =
        Inr (Returns (front_opt (oh_output_buffers (handles (pg_host s) ! i) ! j)))"
      using get_next_complete [OF hc j] by simp
    note fs = Takes [unfolded js]
    show ?thesis
      using fetch_takes [OF fs] fetch_takes_null [OF fs] call [OF i, of "get_next_stream_output (of_nat j)"] r i
      by (cases "front_opt (oh_output_buffers (handles (pg_host s) ! i) ! j)") (simp_all add: pf(2), metis+)
  qed (use ns in simp)
qed

context memory_pool
begin

text \<open>The device can then only raise interrupts that the host has no use for; nothing reaches the handles.\<close>

lemma device_quiet:
  assumes inv: "sys_inv pool_inv live c X (pg_system s)" and ok: "params_ok c" and p: "program_inv c args m evs s"
    and ns: "pg_fetch s \<noteq> NotStarted" and e: "all_ended args evs"
    and ev: "sys_event c ops e (pg_system s) t" "of_device e" and l: "linked c (evs @ [e]) (sys_host t)"
  shows "sys_host t = pg_host s"
  using ev(1)
proof cases
  case (ev_interrupt w v rest h' iv)
  let ?j = "unat (iv_stream_id iv)" and ?R = "unat (oa_num_runs args)"
  note pf = program_inv_fetching [OF p ns]
  have "iv_stream_id iv < NUM_STREAMS c"
    by (rule interrupt_active(1) [OF inv ok ev_interrupt(4,5) pf(5) [unfolded pg_host_def]])
  then have j: "?j < unat (NUM_STREAMS c)" by (simp add: word_less_nat_alt)
  then have "served (opened ?j 0 (evs @ [e])) (delivered ?j (evs @ [e]))" using l by (simp add: linked_def)
  then have "drop (num_ended (delivered ?j evs)) (opened ?j 0 evs) \<noteq> []"
    using served_snocD by (simp add: ev_interrupt(1) history_append opened_append)
  then show ?thesis using pf(3) [OF j] e by (auto simp: all_ended_def split: if_splits)
qed (use ev(2) in \<open>simp_all add: pg_host_def\<close>)

text \<open>Posting the input of a run always returns.\<close>

lemma main_progress:
  assumes inv: "sys_inv pool_inv live c X (pg_system s)" and "(input, oa_size args) \<in># X"
    and "pg_main s = Posts (x # ps)" and "0 < oa_size args" and "0 < mx" and "unat (oa_size args) + unat mx \<le> 2 ^ 64"
  shows "\<exists>es s'. main_step c ops mx args m input es s s'"
proof -
  have oi: "obm_inv pool_inv live c (image_mset out_block (mset (sys_client (pg_system s))) + X) (pg_host s)"
    using inv by (simp add: sys_inv_def pg_host_def)
  have lv: "live (host_pool (pg_host s)) input = Some (oa_size args)"
    by (rule others_live [OF oi]) (use assms(2) in simp)
  have pi: "pool_inv (host_pool (pg_host s))" "tlb_inv (pg_host s)" using oi by (simp_all add: obm_inv_def)
  obtain new where new: "ensure_tlb_mapping ops input (oa_size args) (pg_host s) = (Inr (), after_maps new (pg_host s))"
    using transfer_state [OF memory_pool_axioms pi lv order_refl assms(4)] by blast
  obtain i j where x: "x = (i, j)" by force
  from main_posts [OF assms(3) [unfolded x] enqueue_stream_input_posts [OF new assms(5,6)]] show ?thesis by blast
qed

lemma main_step_work:
  assumes "main_step c ops mx args m input es s s'" and "pg_fetch s \<noteq> NotStarted" and "program_inv c args m evs s"
  shows "program_work args s' < program_work args s"
  using assms(1)
proof cases
  case (main_posts i j ps h')
  from main_posts(4) obtain new ds where
    "h' = (after_maps new (pg_host s))\<lparr>host_cthread := host_cthread (pg_host s) @ user_maps new @ ds\<rparr>"
    by (rule enqueue_stream_input_frame)
  then have "fetch_work args s' = fetch_work args s"
    by (intro fetch_work_handles) (simp_all add: main_posts(2))
  then show ?thesis by (simp add: program_work_def main_posts(2,3))
qed (use assms(2,3) in \<open>auto simp: program_inv_def Let_def\<close>)

end

lemma fetch_step_main: "fetch_step args es s s' \<Longrightarrow> pg_main s' = pg_main s"
  by (induction rule: fetch_step.induct) (simp_all add: add_output_def)

end
