(* ===== verification/Output_Program.thy ===== *)
theory Output_Program
  imports Output_Threads
begin

text \<open>
  The program \<open>examples/01_output_buffer_manager/src/main.cpp\<close> from its arguments to its exit status: the
  preparation, the threads of theory Output_Threads, the comparison and the counters. The threads
  interleave, so the program is a relation between its input and its results. \<open>word\<close> is the memory
  when the output is compared, and \<open>csr'\<close> what the registers answer then.
\<close>

section \<open>The program\<close>

definition obm_finish ::
  "csr \<Rightarrow> Config \<Rightarrow> obm_args \<Rightarrow> (ptr \<Rightarrow> u64) \<Rightarrow> Buffer option list list \<Rightarrow>
   cpp_error + (nat \<times> (u64 \<times> u64 \<times> u64 \<times> u64) \<times> int)" where
  "obm_finish csr perf_config args word output =
     (let streams = [0 ..< unat (oa_num_streams args)] in
      bind_sum (obm_verify word args output streams 0) (\<lambda>num_wrong_values.
      bind_sum (obm_cycles csr perf_config streams (0, 0, 0, 0)) (\<lambda>cycles.
      Inr (num_wrong_values, cycles, EXIT_SUCCESS))))"

inductive obm_main ::
  "csr \<Rightarrow> csr \<Rightarrow> 'p MemoryPool \<Rightarrow> u64 \<Rightarrow> ('p \<Rightarrow> (ptr \<times> u64) option) \<Rightarrow> (ptr \<Rightarrow> u64) \<Rightarrow> (char \<times> string) list \<Rightarrow> 'p host \<Rightarrow>
   cpp_error + (nat \<times> (u64 \<times> u64 \<times> u64 \<times> u64) \<times> int) \<Rightarrow> bool"
  for csr csr' :: csr and ops :: "'p MemoryPool" and mx :: u64 and huge :: "'p \<Rightarrow> (ptr \<times> u64) option"
    and word :: "ptr \<Rightarrow> u64" and opts :: "(char \<times> string) list" and h :: "'p host" where
  obm_main_arguments:
    "obm_parse_args opts = Inl e \<Longrightarrow> obm_main csr csr' ops mx huge word opts h (Inl e)"
| obm_main_preparation:
    "obm_parse_args opts = Inr args \<Longrightarrow> obm_setup csr ops huge args h = (Inl e, h') \<Longrightarrow>
     obm_main csr csr' ops mx huge word opts h (Inl e)"
| obm_main_mask:
    "obm_parse_args opts = Inr args \<Longrightarrow> obm_setup csr ops huge args h = (Inr (c, perf_config, input), h') \<Longrightarrow>
     obm_mask_all args = Inl e \<Longrightarrow> obm_main csr csr' ops mx huge word opts h (Inl e)"
| obm_main_threads:
    "obm_parse_args opts = Inr args \<Longrightarrow> obm_setup csr ops huge args h = (Inr (c, perf_config, input), h') \<Longrightarrow>
     obm_mask_all args = Inr mask_all \<Longrightarrow> program_trace c ops mx args mask_all input h' evs s \<Longrightarrow>
     pg_main s = Posts [] \<Longrightarrow> pg_fetch s = Asks (unat (oa_num_runs args)) \<Longrightarrow>
     obm_main csr csr' ops mx huge word opts h (obm_finish csr' perf_config args word (pg_output s))"

section \<open>What the threads leave\<close>

context memory_pool
begin

lemma program_collects:
  assumes "program_trace c ops mx args m input h evs s" and "params_ok c" and "pool_inv (host_pool h)" and "tlb_inv h"
    and "\<And>i. i < NUM_STREAMS c \<Longrightarrow> csr_writes (stream_csr c i) (host_cthread h) = []" and st: "streams_ok c args m"
    and f: "pg_fetch s = Asks (unat (oa_num_runs args))" and i: "i < unat (oa_num_runs args)"
  shows "let qs = map (\<lambda>j. received i [0 ..< unat (oa_num_runs args)] (delivered j evs)) [0 ..< unat (oa_num_streams args)]
    in buffer_sizes (pg_output s ! i) = by_rounds qs (rounds qs)"
    and "\<And>j. j < unat (oa_num_streams args) \<Longrightarrow> i < num_ended (delivered j evs) \<and>
      oh_output_buffers (handles (pg_host s) ! i) ! j = []"
proof -
  let ?n = "unat (oa_num_streams args)" and ?R = "unat (oa_num_runs args)"
  note inv = program_trace_inv [OF assms(1-6)]
  have ns: "pg_fetch s \<noteq> NotStarted" using f by simp
  note pf = program_inv_fetching [OF inv(1) ns]
  have op: "opened j 0 evs = [0 ..< ?R]" "j < unat (NUM_STREAMS c)" if "j < ?n" for j
    using pf(3) [of j] that st by (simp_all add: streams_ok_def)
  have len: "length (pg_output s) = ?R" and c: "run_complete evs ?n i (buffer_sizes (pg_output s ! i))"
    using pf(4) i by (auto simp: f other_runs_def)
  have "map (received_by evs i) [0 ..< ?n] = map (\<lambda>j. received i [0 ..< ?R] (delivered j evs)) [0 ..< ?n]"
    using op by (simp add: received_by_def)
  with c show "let qs = map (\<lambda>j. received i [0 ..< ?R] (delivered j evs)) [0 ..< ?n]
    in buffer_sizes (pg_output s ! i) = by_rounds qs (rounds qs)"
    by (simp add: run_complete_def)
  fix j assume j: "j < ?n"
  have d: "drained evs i j" using c j by (simp add: run_complete_def)
  then have "i < num_ended (delivered j evs)"
    using op(1) [OF j] by (auto simp: drained_def ended_at_def in_set_conv_nth)
  moreover have "oh_output_buffers (handles (pg_host s) ! i) ! j = []"
  proof -
    have "i < num_opened evs" using i pf(1) by simp
    from linked_handle(5) [OF inv(2) this op(2) [OF j]] d show ?thesis by (simp add: drained_def)
  qed
  ultimately show "i < num_ended (delivered j evs) \<and> oh_output_buffers (handles (pg_host s) ! i) ! j = []" ..
qed

end

text \<open>The registers of the manager's streams are not written while the program is prepared.\<close>

lemma csr_writes_posted: "csr_writes a (host_cthread h) = csr_writes a (posted h)"
proof -
  have "csr_writes a cs = csr_writes a (filter (Not \<circ> is_mapping) cs)" for cs
    by (induction cs) (auto simp: csr_writes_def elim: is_mapping.elims)
  then show ?thesis by (simp add: posted_def)
qed

lemma setup_registers:
  assumes "posted h1 = posted h @ [SetCSR v (addr_offset perf), SetCSR w (addr_offset mc + ucast (num_streams mc))]"
    and "OutputBufferManager_init mc managed n cap = Inr c" and "i < NUM_STREAMS c"
    and "csr_writes (stream_csr c i) (host_cthread h) = []" and "addr_offset perf \<noteq> stream_csr c i"
  shows "csr_writes (stream_csr c i) (host_cthread h1) = []"
proof -
  have c: "obm_mem_config c = mc" "NUM_STREAMS c = num_streams mc"
    using assms(2) by (auto simp: OutputBufferManager_init_def split: if_splits)
  then have "addr_offset mc + ucast (num_streams mc) = stream_csr c (NUM_STREAMS c)"
    by (simp add: stream_csr_def)
  then have "addr_offset mc + ucast (num_streams mc) \<noteq> stream_csr c i" using assms(3) by simp
  then show ?thesis using assms(1,4,5) by (simp add: csr_writes_posted)
qed

lemma obm_finish_single:
  assumes "unat (oa_num_streams args) = 1" and "output ! 0 = map Some bs" and "output \<noteq> []"
  shows "obm_finish csr perf args word output =
    (let ws = concat (map (buffer_words word) bs) in
     if of_nat (length ws) \<noteq> oa_size args div 8 then Inl AssertionFailure
     else map_sum id (\<lambda>cycles. (length (filter (\<lambda>k. ws ! k \<noteq> of_nat k) [0 ..< length ws]), cycles, EXIT_SUCCESS))
       (obm_cycles csr perf [0] (0, 0, 0, 0)))"
  using assms
  by (simp add: obm_finish_def vec_at_def bind_sum_def verify_stream_taken Let_def split: sum.split)

lemma buffer_sizes_taken:
  assumes "buffer_sizes out = map Some ns"
  shows "\<exists>bs. out = map Some bs \<and> map (unat \<circ> buf_size) bs = ns"
  using assms
proof (induction out arbitrary: ns)
  case (Cons b out)
  then obtain c k ks where b: "b = Some c" "ns = k # ks" "unat (buf_size c) = k" "buffer_sizes out = map Some ks"
    by (cases ns; cases b) (auto simp: buffer_sizes_def)
  from Cons.IH [OF b(4)] obtain bs where "out = map Some bs" "map (unat \<circ> buf_size) bs = ks" by blast
  then show ?case using b by (intro exI [of _ "c # bs"]) (simp add: o_def)
qed (simp add: buffer_sizes_def)

section \<open>A run of the program\<close>

text \<open>One run of 128 bytes over one stream, on a design with five registers for the counters.\<close>

definition run_csr :: csr where
  "run_csr a = (if a = 3 then 13 else obm_csr a)"

definition run_opts :: "(char \<times> string) list" where
  "run_opts = [(CHR ''b'', ''65536''), (CHR ''s'', ''128''), (CHR ''r'', ''1'')]"

definition run_args :: obm_args where
  "run_args = \<lparr>oa_num_enqueued_buffers = 2, oa_buffer_size = 65536, oa_num_streams = 1, oa_size = 128, oa_num_runs = 1\<rparr>"

abbreviation run_ops :: "SimpleMemoryPool MemoryPool" where
  "run_ops \<equiv> SimpleMemoryPool_ops"

abbreviation run_params :: obm_params where
  "run_params \<equiv> obm_example_params"

definition run_host :: "SimpleMemoryPool host" where
  "run_host = snd (obm_setup run_csr run_ops (\<lambda>_. None) run_args program_host)"

lemma run_setup:
  "obm_setup run_csr run_ops (\<lambda>_. None) run_args program_host =
     (Inr (run_params, \<lparr>addr_offset = 8, num_regs = 5\<rparr>, 65536), run_host)"
proof -
  have "fst (obm_setup run_csr run_ops (\<lambda>_. None) run_args program_host) =
      Inr (run_params, \<lparr>addr_offset = 8, num_regs = 5\<rparr>, 65536)" by code_simp
  then show ?thesis by (metis run_host_def prod.collapse)
qed

text \<open>The host after each call, and what the calls return.\<close>

definition run_acquired :: "SimpleMemoryPool obm" where
  "run_acquired = snd (acquire_output_handle run_params run_ops 1 (obm_start run_params run_host))"

definition run_sent :: "SimpleMemoryPool obm" where
  "run_sent = snd (enqueue_stream_input 64 run_ops 65536 128 0 True run_acquired)"

definition run_handled :: "SimpleMemoryPool obm" where
  "run_handled = snd (handle_fpga_interrupt run_params run_ops (notify_value 0 128 True) run_sent)"

definition run_buffer :: Buffer where
  "run_buffer = \<lparr>buf_ptr = 196736, buf_size = 128, buf_capacity = 65536\<rparr>"

definition run_taken :: "SimpleMemoryPool obm" where
  "run_taken = snd (on_handle 0 (get_next_stream_output 0) run_handled)"

lemma run_calls:
  "acquire_output_handle run_params run_ops 1 (obm_start run_params run_host) = (Inr 0, run_acquired)"
  "enqueue_stream_input 64 run_ops 65536 128 0 True run_acquired = (Inr (), run_sent)"
  "handle_fpga_interrupt run_params run_ops (notify_value 0 128 True) run_sent = (Inr (), run_handled)"
  "on_handle 0 (get_next_stream_output 0) run_handled = (Inr (Returns (Some run_buffer)), run_taken)"
proof -
  have "fst (acquire_output_handle run_params run_ops 1 (obm_start run_params run_host)) = Inr 0"
    "fst (enqueue_stream_input 64 run_ops 65536 128 0 True run_acquired) = Inr ()"
    "fst (handle_fpga_interrupt run_params run_ops (notify_value 0 128 True) run_sent) = Inr ()"
    "fst (on_handle 0 (get_next_stream_output 0) run_handled) = Inr (Returns (Some run_buffer))"
    by code_simp+
  then show "acquire_output_handle run_params run_ops 1 (obm_start run_params run_host) = (Inr 0, run_acquired)"
    "enqueue_stream_input 64 run_ops 65536 128 0 True run_acquired = (Inr (), run_sent)"
    "handle_fpga_interrupt run_params run_ops (notify_value 0 128 True) run_sent = (Inr (), run_handled)"
    "on_handle 0 (get_next_stream_output 0) run_handled = (Inr (Returns (Some run_buffer)), run_taken)"
    by (metis run_acquired_def run_sent_def run_handled_def run_taken_def prod.collapse)+
qed

lemma run_asks:
  "on_handle 0 any_stream_has_more_output run_handled = (Inr (Returns True), run_handled)"
  "on_handle 0 any_stream_has_more_output run_taken = (Inr (Returns False), run_taken)"
proof -
  have "fst (on_handle 0 any_stream_has_more_output run_handled) = Inr (Returns True)"
    "fst (on_handle 0 any_stream_has_more_output run_taken) = Inr (Returns False)"
    by code_simp+
  then show "on_handle 0 any_stream_has_more_output run_handled = (Inr (Returns True), run_handled)"
    "on_handle 0 any_stream_has_more_output run_taken = (Inr (Returns False), run_taken)"
    using ask_keeps(1) by (metis prod.collapse)+
qed

lemma run_writes: "csr_writes (stream_csr run_params 0) (host_cthread run_sent) = [268959745, 537395201]"
  by code_simp

lemma run_constants:
  "oa_num_runs run_args = 1" "oa_num_streams run_args = 1" "oa_size run_args = 128" "NUM_STREAMS run_params = 1"
  "all_inputs run_args = [(0, 0)]" "filter (bit (1 :: u64)) [0 ..< unat (NUM_STREAMS run_params)] = [0]"
  by (simp_all add: run_args_def obm_example_params_def all_inputs_def upt_rec)

text \<open>The states of the program, up to the interrupt and at the end.\<close>

definition run_ready :: "SimpleMemoryPool program" where
  "run_ready = \<lparr>pg_system = \<lparr>sys_host = run_handled, sys_fetched = (\<lambda>_. 0)(0 := 1), sys_irqs = [], sys_client = []\<rparr>,
     pg_main = Posts [], pg_handles = [0], pg_fetch = Asks 0, pg_output = [[]]\<rparr>"

definition run_end :: "SimpleMemoryPool program" where
  "run_end = \<lparr>pg_system = \<lparr>sys_host = run_taken, sys_fetched = (\<lambda>_. 0)(0 := 1), sys_irqs = [], sys_client = [run_buffer]\<rparr>,
     pg_main = Posts [], pg_handles = [0], pg_fetch = Asks 1, pg_output = [[Some run_buffer]]\<rparr>"

abbreviation run_trace :: "pipe_event list \<Rightarrow> SimpleMemoryPool program \<Rightarrow> bool" where
  "run_trace \<equiv> program_trace run_params run_ops 64 run_args 1 65536 run_host"

lemma run_ready_trace: "run_trace [Opened [0], Sent, Raised 0 128 True, Delivered 0 128 True] run_ready"
proof -
  let ?s0 = "program_start run_params run_args run_host"
  let ?s1 = "(set_host run_acquired ?s0)\<lparr>pg_main := Acquires 0, pg_handles := [0]\<rparr>"
  let ?s2 = "?s1\<lparr>pg_main := Posts [(0, 0)], pg_fetch := Asks 0\<rparr>"
  let ?s3 = "(set_host run_sent ?s2)\<lparr>pg_main := Posts []\<rparr>"
  let ?v = "268959745 :: u64"
  let ?t = "(pg_system ?s3)\<lparr>sys_fetched := (\<lambda>_. 0)(0 := 1), sys_irqs := [(notify_value 0 128 True, Some ?v)]\<rparr>"
  note start = run_constants program_start_def pg_host_def set_host_def
  have "main_step run_params run_ops 64 run_args 1 65536 [Opened [0]] ?s0 ?s1"
    using main_acquires [of ?s0 0 run_params run_ops 1 0 run_acquired 64 run_args 65536] run_calls(1)
    by (simp add: start)
  from program_steps [OF program_starts by_main [OF this]] have s1: "run_trace [Opened [0]] ?s1" by simp
  have "main_step run_params run_ops 64 run_args 1 65536 [] ?s1 ?s2"
    using main_spawns [of ?s1 run_params run_ops 64 run_args 1 65536] by (simp add: start)
  from program_steps [OF s1 by_main [OF this]] have s2: "run_trace [Opened [0]] ?s2" by simp
  have "main_step run_params run_ops 64 run_args 1 65536 [Sent] ?s2 ?s3"
    using main_posts [of ?s2 0 0 "[]" 64 run_ops 65536 run_args run_sent run_params 1] run_calls(2) by (simp add: start)
  from program_steps [OF s2 by_main [OF this]] have s3: "run_trace [Opened [0], Sent] ?s3" by simp
  have use: "uses_buffer run_params 128" "(ucast (0 :: 3 word) :: stream_t) < NUM_STREAMS run_params"
    "unat (128 :: 28 word) \<le> buffer_bytes ?v"
    by (simp_all add: uses_buffer_def obm_example_params_def buffer_bytes_def buffer_t_of_def)
  have "sys_event run_params run_ops (Raised (unat (0 :: 3 word)) (unat (128 :: 28 word)) True) (pg_system ?s3)
    ((pg_system ?s3)\<lparr>sys_fetched := (sys_fetched (pg_system ?s3))(ucast (0 :: 3 word) := Suc (sys_fetched (pg_system ?s3) (ucast (0 :: 3 word)))),
      sys_irqs := sys_irqs (pg_system ?s3) @ [(notify_value 0 128 True, Some ?v)]\<rparr>)"
    by (rule ev_uses_buffer [OF use(1,2)]) (use use(3) in \<open>simp_all add: start run_writes\<close>)
  then have "sys_event run_params run_ops (Raised 0 128 True) (pg_system ?s3) ?t" by (simp add: start)
  from program_steps [OF s3 by_device [OF this]]
  have s4: "run_trace [Opened [0], Sent, Raised 0 128 True] (?s3\<lparr>pg_system := ?t\<rparr>)" by simp
  have "sys_event run_params run_ops (Delivered (unat (ucast (0 :: 3 word) :: u8))
      (unat (ucast (128 :: 28 word) :: u32)) True) ?t (?t\<lparr>sys_host := run_handled, sys_irqs := []\<rparr>)"
    using ev_interrupt [of ?t "notify_value 0 128 True" "Some ?v" "[]" run_params run_ops run_handled] run_calls(3)
    by (simp add: start parse_notify_value)
  then have "sys_event run_params run_ops (Delivered 0 128 True) (pg_system (?s3\<lparr>pg_system := ?t\<rparr>))
      (?t\<lparr>sys_host := run_handled, sys_irqs := []\<rparr>)" by simp
  from program_steps [OF s4 by_device [OF this]] show ?thesis by (simp add: start run_ready_def)
qed

lemma run_end_trace:
  "run_trace [Opened [0], Sent, Raised 0 128 True, Delivered 0 128 True, Took 0 0 128] run_end"
proof -
  let ?evs = "[Opened [0], Sent, Raised 0 128 True, Delivered 0 128 True]"
  let ?s1 = "run_ready\<lparr>pg_fetch := Takes 0 [0]\<rparr>"
  let ?s2 = "run_end\<lparr>pg_fetch := Asks 0\<rparr>"
  have "fetch_step run_args [] run_ready ?s1"
    using fetch_asks [of run_ready 0 run_args True run_handled] run_asks(1)
    by (simp add: run_ready_def run_constants pg_host_def set_host_def next_take_def)
  from program_steps [OF run_ready_trace by_fetcher [OF this]] have s1: "run_trace ?evs ?s1" by simp
  have "fetch_step run_args [Took 0 0 128] ?s1 ?s2"
    using fetch_takes [of ?s1 0 0 "[]" run_buffer run_taken run_args] run_calls(4)
    by (simp add: run_ready_def run_end_def run_constants pg_host_def next_take_def add_output_def run_buffer_def)
  from program_steps [OF s1 by_fetcher [OF this]] have s2: "run_trace (?evs @ [Took 0 0 128]) ?s2" by simp
  have "fetch_step run_args [] ?s2 run_end"
    using fetch_asks [of ?s2 0 run_args False run_taken] run_asks(2)
    by (simp add: run_end_def run_constants pg_host_def set_host_def)
  from program_steps [OF s2 by_fetcher [OF this]] show ?thesis by simp
qed

lemma run_received:
  "received 0 [0] [(128, True)] = [128]" "[0 ..< Suc 0] = [0]"
  "\<And>q. rounds [q] = length q" "\<And>q. by_rounds [q] (Suc 0) = [front_opt q]" "front_opt (128 # q) = Some 128"
  by (simp_all add: amount_def by_rounds_def front_opt_def)

text \<open>The premises of the properties hold of this run.\<close>

lemma run_premises:
  shows "host_sound sp_inv program_host" "huge_range_ok run_ops sp_inv (\<lambda>_. None)" "host_sound sp_inv run_host"
    "sp_live (host_pool run_host) 65536 = Some 128" "obm_mask_all run_args = Inr 1"
    "\<forall>i < NUM_STREAMS run_params. csr_writes (stream_csr run_params i) (host_cthread run_host) = []"
    "OutputBufferManager_init (obm_mem_config run_params) (- 1) 2 65536 = Inr run_params"
proof -
  show h: "host_sound sp_inv program_host" by (rule program_host_sound)
  show huge: "huge_range_ok run_ops sp_inv (\<lambda>_. None)" by (simp add: huge_range_ok_def)
  have sz: "0 < oa_size run_args" "unat (oa_size run_args) \<le> max_request" by (simp_all add: run_constants max_request_def)
  from wpD_Inr [OF simple_pool.wp_obm_setup [OF h huge sz] run_setup]
  show "host_sound sp_inv run_host" "sp_live (host_pool run_host) 65536 = Some 128" by (auto simp: run_constants)
  show "obm_mask_all run_args = Inr 1" by (simp add: obm_mask_all_def run_constants)
  have "csr_writes (stream_csr run_params 0) (host_cthread run_host) = []" by code_simp
  then show "\<forall>i < NUM_STREAMS run_params. csr_writes (stream_csr run_params i) (host_cthread run_host) = []"
    by (simp add: run_constants word_less_nat_alt unat_eq_0)
  show "OutputBufferManager_init (obm_mem_config run_params) (- 1) 2 65536 = Inr run_params"
    by (simp add: OutputBufferManager_init_def obm_example_params_def stf_consts)
qed

section \<open>Properties\<close>

text \<open>C6. The program collects what the device reports: over any pool and for any interleaving of its threads with
  the device and the interrupts, when the fetching thread has ended, every run has been ended by the
  device on every stream, its handle is empty, and the buffers it took are, round by round, the next
  buffer of every stream or a null pointer where a stream has none left, with exactly the sizes the
  device reported for this run, as many rounds as the longest stream has buffers.\<close>

theorem output_program_collects_reports:
  assumes "memory_pool ops pool_inv live" and "OutputBufferManager_init mc managed n cap = Inr c"
    and "pool_inv (host_pool h)" and "tlb_inv h" and "\<forall>i < NUM_STREAMS c. csr_writes (stream_csr c i) (host_cthread h) = []"
    and "obm_mask_all args = Inr m" and "0 < oa_num_streams args" and "oa_num_streams args \<le> ucast (NUM_STREAMS c)"
    and "program_trace c ops mx args m input h evs s" and "pg_fetch s = Asks (unat (oa_num_runs args))"
  shows "\<forall>i < unat (oa_num_runs args).
    (let qs = map (\<lambda>j. received i [0 ..< unat (oa_num_runs args)] (delivered j evs)) [0 ..< unat (oa_num_streams args)]
     in buffer_sizes (pg_output s ! i) = by_rounds qs (rounds qs)) \<and>
    (\<forall>j < unat (oa_num_streams args). i < num_ended (delivered j evs) \<and>
       oh_output_buffers (handles (pg_host s) ! i) ! j = [])"
proof (intro allI impI conjI)
  note st = mask_all_streams [OF assms(6-8)]
  have csr: "\<And>i. i < NUM_STREAMS c \<Longrightarrow> csr_writes (stream_csr c i) (host_cthread h) = []" using assms(5) by blast
  note pc = memory_pool.program_collects [OF assms(1,9) params_ok_init [OF assms(2)] assms(3,4) csr st assms(10)]
  fix i assume i: "i < unat (oa_num_runs args)"
  show "let qs = map (\<lambda>j. received i [0 ..< unat (oa_num_runs args)] (delivered j evs)) [0 ..< unat (oa_num_streams args)]
     in buffer_sizes (pg_output s ! i) = by_rounds qs (rounds qs)" by (rule pc(1) [OF _ i])
  fix j assume "j < unat (oa_num_streams args)"
  from pc(2) [OF _ i this] show "i < num_ended (delivered j evs)" "oh_output_buffers (handles (pg_host s) ! i) ! j = []"
    by blast+
qed

theorem output_program_collects_reports_witness:
  "buffer_sizes (pg_output run_end ! 0) = [Some 128] \<and> oh_output_buffers (handles (pg_host run_end) ! 0) ! 0 = []"
proof -
  have "pg_fetch run_end = Asks (unat (oa_num_runs run_args))" by (simp add: run_end_def run_constants)
  from output_program_collects_reports [OF simple_pool.memory_pool_axioms run_premises(7) _ _ run_premises(6,5) _ _
      run_end_trace this] run_premises(3)
  show ?thesis by (simp add: host_sound_def run_constants run_received amount_def)
qed

text \<open>C7. The program cannot get stuck: once the fetching thread runs and the interrupts that end every run on every
  stream were handled, the two threads have ended or one of them has a step, whatever the
  interleaving so far; each of their steps takes away some of the work that is left, and nothing the
  device does adds to it, so both end after finitely many steps.\<close>

theorem output_program_ends:
  assumes "memory_pool ops pool_inv live" and "OutputBufferManager_init mc managed n cap = Inr c"
    and "pool_inv (host_pool h)" and "tlb_inv h" and "\<forall>i < NUM_STREAMS c. csr_writes (stream_csr c i) (host_cthread h) = []"
    and "obm_mask_all args = Inr m" and "0 < oa_num_streams args" and "oa_num_streams args \<le> ucast (NUM_STREAMS c)"
    and "NUM_STREAMS c \<le> 64" and "live (host_pool h) input = Some (oa_size args)" and "0 < oa_size args" and "0 < mx"
    and "unat (oa_size args) + unat mx \<le> 2 ^ 64"
    and "program_trace c ops mx args m input h evs s" and "pg_fetch s \<noteq> NotStarted" and "all_ended args evs"
  shows "(pg_main s = Posts [] \<and> pg_fetch s = Asks (unat (oa_num_runs args)) \<or>
      (\<exists>es s'. main_step c ops mx args m input es s s' \<or> fetch_step args es s s')) \<and>
    (\<forall>es s'. main_step c ops mx args m input es s s' \<or> fetch_step args es s s' \<longrightarrow>
       program_work args s' < program_work args s) \<and>
    (\<forall>e t. sys_event c ops e (pg_system s) t \<longrightarrow> of_device e \<longrightarrow>
       program_work args (s\<lparr>pg_system := t\<rparr>) = program_work args s)"
proof (intro conjI)
  note st = mask_all_streams [OF assms(6-8)] and ok = params_ok_init [OF assms(2)]
  have csr: "\<And>i. i < NUM_STREAMS c \<Longrightarrow> csr_writes (stream_csr c i) (host_cthread h) = []" using assms(5) by blast
  have inv: "program_inv c args m evs s" "linked c evs (pg_host s)"
    using memory_pool.program_trace_inv [OF assms(1,14) ok assms(3,4) _ st] csr by blast+
  let ?X = "live_blocks (live (host_pool h))"
  note tr = program_trace_system [OF assms(14)]
  have si: "sys_inv pool_inv live c ?X (pg_system s)"
    using memory_pool.sys_reachable_inv [OF assms(1) sys_trace_reachable [OF tr] ok assms(3,4)] csr by blast
  have N: "unat (NUM_STREAMS c) \<le> 64" using assms(9) by (simp add: word_le_nat_alt)
  have inp: "(input, oa_size args) \<in># ?X" using assms(10) by (simp add: live_blocks_mem)
  show "pg_main s = Posts [] \<and> pg_fetch s = Asks (unat (oa_num_runs args)) \<or>
      (\<exists>es s'. main_step c ops mx args m input es s s' \<or> fetch_step args es s s')"
  proof (cases "pg_fetch s = Asks (unat (oa_num_runs args))")
    case True
    obtain ps where ps: "pg_main s = Posts ps"
      using inv(1) assms(15) by (cases "pg_main s") (auto simp: program_inv_def Let_def)
    show ?thesis
    proof (cases ps)
      case (Cons x xs)
      with memory_pool.main_progress [OF assms(1) si inp _ assms(11-13), of x xs] ps show ?thesis by blast
    qed (use True ps in simp)
  next
    case False
    with fetch_progress [OF inv(1) st inv(2) assms(15,16) N] show ?thesis by blast
  qed
  show "\<forall>es s'. main_step c ops mx args m input es s s' \<or> fetch_step args es s s' \<longrightarrow>
       program_work args s' < program_work args s"
    using memory_pool.main_step_work [OF assms(1) _ assms(15) inv(1)] fetch_step_work [OF inv(1) st inv(2)]
      fetch_step_main by (fastforce simp: program_work_def)
  have "sys_host t = pg_host s" if e: "sys_event c ops e (pg_system s) t" "of_device e" for e t
  proof (rule memory_pool.device_quiet [OF assms(1) si ok inv(1) assms(15,16) e])
    have "\<forall>r. Released r \<notin> set (evs @ [e])" using inv(1) e(2) by (auto simp: program_inv_def Let_def)
    then show "linked c (evs @ [e]) (sys_host t)"
      using memory_pool.sys_trace_linked [OF assms(1) trace_next [OF tr e(1)] ok assms(3,4)] csr by blast
  qed
  then show "\<forall>e t. sys_event c ops e (pg_system s) t \<longrightarrow> of_device e \<longrightarrow>
       program_work args (s\<lparr>pg_system := t\<rparr>) = program_work args s"
    using fetch_work_handles [of "s\<lparr>pg_system := t\<rparr>" s for t] by (auto simp: program_work_def)
qed

theorem output_program_ends_witness:
  "\<exists>es s'. (main_step run_params run_ops 64 run_args 1 65536 es run_ready s' \<or> fetch_step run_args es run_ready s') \<and>
      program_work run_args s' < program_work run_args run_ready"
proof -
  have "pg_fetch run_ready \<noteq> NotStarted" "all_ended run_args [Opened [0], Sent, Raised 0 128 True, Delivered 0 128 True]"
    "NUM_STREAMS run_params \<le> 64"
    by (simp_all add: run_ready_def all_ended_def run_constants)
  from output_program_ends [OF simple_pool.memory_pool_axioms run_premises(7) _ _ run_premises(6,5) _ _ this(3) _ _ _ _
      run_ready_trace this(1,2)] run_premises(3,4)
  show ?thesis by (auto simp: host_sound_def run_constants run_ready_def)
qed

text \<open>C8. The verdict of the program, for one stream: from the preparation to the exit status and for any
  interleaving, the output of the first run has exactly the buffers the device reported for it, in
  order and without a null pointer; the program fails its assertion when these do not have as many
  words as the input, and otherwise it counts the words that differ from the input and exits with
  success, whatever their number, unless a counter of the design cannot be read.\<close>

theorem output_program_verdict:
  assumes "memory_pool ops pool_inv live" and "host_sound pool_inv h" and "huge_range_ok ops pool_inv huge"
    and "obm_parse_args opts = Inr args" and "0 < oa_size args" and "unat (oa_size args) \<le> max_request"
    and "obm_setup csr ops huge args h = (Inr (c, perf, input), h1)" and "obm_mask_all args = Inr m"
    and "\<forall>i < NUM_STREAMS c. csr_writes (stream_csr c i) (host_cthread h) = [] \<and> addr_offset perf \<noteq> stream_csr c i"
    and "program_trace c ops mx args m input h1 evs s" and "pg_main s = Posts []"
    and "pg_fetch s = Asks (unat (oa_num_runs args))" and "oa_num_streams args = 1" and "0 < oa_num_runs args"
  shows "\<exists>bs r. pg_output s ! 0 = map Some bs \<and>
    map (unat \<circ> buf_size) bs = received 0 [0 ..< unat (oa_num_runs args)] (delivered 0 evs) \<and>
    obm_main csr csr' ops mx huge word opts h r \<and>
    r = (let ws = concat (map (buffer_words word) bs) in
      if of_nat (length ws) \<noteq> oa_size args div 8 then Inl AssertionFailure
      else map_sum id (\<lambda>cycles. (length (filter (\<lambda>k. ws ! k \<noteq> of_nat k) [0 ..< length ws]), cycles, EXIT_SUCCESS))
        (obm_cycles csr' perf [0] (0, 0, 0, 0)))"
proof -
  from wpD_Inr [OF memory_pool.wp_obm_setup [OF assms(1-3,5,6)] assms(7)]
  obtain mc where sound: "host_sound pool_inv h1" and le: "oa_num_streams args \<le> ucast (NUM_STREAMS c)"
    and init: "OutputBufferManager_init mc (NOT 0) (oa_num_enqueued_buffers args) (oa_buffer_size args) = Inr c"
    and calls: "posted h1 = posted h @ [SetCSR (oa_num_runs args) (addr_offset perf),
      SetCSR 0 (addr_offset mc + ucast (num_streams mc))]"
    by auto
  have csr: "csr_writes (stream_csr c i) (host_cthread h1) = []" if "i < NUM_STREAMS c" for i
    using setup_registers [OF calls init that] assms(9) that by blast
  have one: "0 < oa_num_streams args" "unat (oa_num_streams args) = 1" and runs: "0 < unat (oa_num_runs args)"
    using assms(13,14) by (simp_all add: word_less_nat_alt)
  note st = mask_all_streams [OF assms(8) one(1) le] and ok = params_ok_init [OF init]
  have hs: "pool_inv (host_pool h1)" "tlb_inv h1" using sound by (simp_all add: host_sound_def)
  let ?q = "received 0 [0 ..< unat (oa_num_runs args)] (delivered 0 evs)"
  have "buffer_sizes (pg_output s ! 0) = map Some ?q"
    using memory_pool.program_collects(1) [OF assms(1,10) ok hs csr st assms(12) runs] by (simp add: one by_rounds_single)
  from buffer_sizes_taken [OF this] obtain bs where bs: "pg_output s ! 0 = map Some bs" "map (unat \<circ> buf_size) bs = ?q" by blast
  have "program_inv c args m evs s" using memory_pool.program_trace_inv(1) [OF assms(1,10) ok hs csr st] .
  then have "length (pg_output s) = unat (oa_num_runs args)" by (simp add: program_inv_def Let_def assms(12) other_runs_def)
  then have "pg_output s \<noteq> []" using runs by auto
  note fin = obm_finish_single [where csr = csr' and perf = perf and word = word, OF one(2) bs(1) this]
  show ?thesis
    using bs obm_main_threads [where csr' = csr' and word = word, OF assms(4,7,8,10-12)] unfolding fin by blast
qed

theorem output_program_verdict_witness:
  "obm_main run_csr (\<lambda>_. 5) run_ops 64 (\<lambda>_. None) (\<lambda>_. 0) run_opts program_host (Inr (15, (5, 5, 5, 5), EXIT_SUCCESS))"
proof -
  have "stoi ''65536'' = Inr 65536" "stoi ''128'' = Inr 128" "stoi ''1'' = Inr 1"
    by (simp_all add: stoi_def scan_number_def is_digit_def is_space_def digits_value_def digit_value_def Let_def)
  then have args: "obm_parse_args run_opts = Inr run_args"
    by (simp add: obm_parse_args_def run_opts_def run_args_def obm_default_args_def stoi_size_def bind_sum_def)
  have csr: "csr_writes (stream_csr run_params 0) (host_cthread program_host) = []" "stream_csr run_params 0 \<noteq> 8" by code_simp+
  have cycles: "obm_cycles (\<lambda>_. 5) \<lparr>addr_offset = 8, num_regs = 5\<rparr> [0] (0, 0, 0, 0) = Inr (5, 5, 5, 5)" by code_simp
  have words: "buffer_words (\<lambda>_. 0) run_buffer = replicate 16 0"
    by (simp add: buffer_words_def run_buffer_def map_replicate_const)
  have wrong: "length (filter (\<lambda>k. replicate 16 (0 :: u64) ! k \<noteq> of_nat k) [0 ..< 16]) = 15" by code_simp
  have main: "obm_main run_csr (\<lambda>_. 5) run_ops 64 (\<lambda>_. None) (\<lambda>_. 0) run_opts program_host
      (let ws = buffer_words (\<lambda>_. 0) run_buffer in
        if of_nat (length ws) \<noteq> (16 :: u64) then Inl AssertionFailure
        else map_sum id (\<lambda>cycles. (length (filter (\<lambda>k. ws ! k \<noteq> of_nat k) [0 ..< length ws]), cycles, EXIT_SUCCESS))
          (obm_cycles (\<lambda>_. 5) \<lparr>addr_offset = 8, num_regs = 5\<rparr> [0] (0, 0, 0, 0)))"
    using output_program_verdict [OF simple_pool.memory_pool_axioms run_premises(1,2) args _ _ run_setup run_premises(5) _
      run_end_trace, of "\<lambda>_. 5" "\<lambda>_. 0"] csr
    by (auto simp: run_constants run_end_def max_request_def simp del: obm_cycles.simps)
  then show ?thesis using wrong by (simp add: Let_def words cycles run_constants del: obm_cycles.simps)
qed

end
