(* ===== verification/Spec2Isabelle.thy ===== *)
theory Spec2Isabelle
  imports Huge_Page_System Stream_Refinement Shutdown Config_Device Logging Printers Profiling Replay_Program
    Dictionary_Program Output_Types Output_Program
begin

text \<open>
  libSTF is the host library of a streaming design on an FPGA. This development models its C++ code,
  \<open>src/software/libstf/\<close>, and the three example programs under \<open>src/examples/\<close>, and proves what makes
  them correct. Paths below are relative to \<open>src/software/libstf/\<close> unless they start with \<open>examples\<close> or
  \<open>hardware\<close>. Every operation is an executable function of explicit states; a method that may throw has
  type \<open>('s, 'a) action\<close>, a function from the state to an error or a result and the state that is left in
  both cases (theory Prelude, with its weakest preconditions).

  The program and the theories that model it:

  \<^item> Types and constants: \<open>common.hpp\<close>, \<open>common.cpp\<close>, \<open>error_handling.hpp\<close> in Common_Types; numbers as text
    in Text; what is printed for registers, interrupts, statuses and values in Printers (also
    \<open>demangle_type_name\<close> of \<open>util.cpp\<close>).
  \<^item> Memory: \<open>memory_pool.hpp\<close>, \<open>memory_pool.cpp\<close>. Memory_Pool has the linear allocator, the pool used in
    simulation and the interface \<open>MemoryPool\<close>, a record of operations, with its contract as the locale
    \<open>memory_pool\<close>. The pool of huge pages is spread over Huge_Pages (the callbacks that give jemalloc its
    extents), Huge_Page_Pool (thread caches, allocate, reallocate, free, page lookup),
    Huge_Page_Lifetime (constructor, destructor) and Huge_Page_Properties; Extent_Allocator is an
    allocator that meets the contract required of jemalloc, on which the locales are interpreted.
    Both pools interpret \<open>memory_pool\<close>, so all that follows holds over either.
  \<^item> Buffers: \<open>buffer.hpp\<close>, \<open>buffer.cpp\<close> in Buffers.
  \<^item> The device's address translation: \<open>tlb_manager.cpp\<close> in Tlb_Manager. The record \<open>host\<close> there (pool,
    mapped pages, calls of the driver) is the state all host components share.
  \<^item> Registers: \<open>configuration.hpp\<close>, \<open>configuration.cpp\<close> in Configuration; the hardware's decoding of them,
    \<open>hardware/src/hdl/config\<close>, in Config_Device; the packed values the host and the hardware exchange
    in Hardware.
  \<^item> Input: \<open>enqueue_stream_input\<close> of \<open>util.cpp\<close>, and the output and offload counterparts of the examples, in
    Transfers; over the pool of huge pages in Huge_Page_Transfers.
  \<^item> Output: \<open>output_handle.cpp\<close> in Output_Handle, \<open>output_buffer_manager.cpp\<close> in Output_Buffer_Manager (state
    \<open>obm\<close>: the host, the handles, and for each stream the queues of handles and of buffers; a handle is
    an index, because several queues and clients share it). Acquire and Buffer_Ownership have the
    effect of its operations and the ownership invariant; Readers has several threads that wait on a
    handle; Output_Types has the shape of the data and that the methods are defined; Output_System is the
    step relation of manager, device and clients: its steps are the calls that return (also the
    destruction of a handle that waits for no stream, and the input that is sent); a call that throws
    is no step, and neither is \<open>flush_buffers\<close>, which makes the device drop the buffers it holds and which
    programs call before they acquire a handle. Huge_Page_System is the same with a calling thread for
    every step, over the pool of huge pages. Shutdown has the destructors.
  \<^item> Specification of the output path: Stream_Spec (what transfers, reports and clients promise, without
    memory and registers) and Stream_Refinement (the system refines it).
  \<^item> Logging (\<open>logging.cpp\<close>) and Profiling (\<open>profiling.cpp\<close>).
  \<^item> The examples: Output_Example, Output_Threads and Output_Program (\<open>examples/01_output_buffer_manager\<close>:
    the parts of its \<open>main\<close>, its two threads over the system of Output_System, and the program from its
    arguments to its exit status), Dictionary_Example and
    Dictionary_Program (\<open>examples/02_typed_dictionary\<close>), Replay_Example and Replay_Program
    (\<open>examples/03_replay_buffer\<close>), with what they share in Host_Programs and Host_Device.

  How the parts interact: a client acquires a handle from the manager, which takes buffers from the
  pool, has the TLB manager map them and writes them to registers of the design. The device fills the
  buffers of a stream in order and raises an interrupt for each; the handler moves the buffer to the
  handle of the transfer, from which clients take it; dropping it gives its memory back to the pool.

  What is proved, by group of lemmas:

  \<^item> This theory: the system refines the specification (every run of host, device and clients is a run
    of the abstract streams); an interrupt is attributed to the buffer it is for; every allocated
    block has exactly one owner, also after exceptions and at shutdown; the queues of the device do
    not overflow; every transfer receives what was reported for it, in order.
  \<^item> Memory pools: blocks are inside the arena or the pages, aligned, disjoint; reallocation keeps the
    contents; extents never overlap; the constructor's errors.
  \<^item> Registers: the table of configurations is read as the design publishes it, a write reaches the
    register it is for, the packed values are decoded to what was encoded.
  \<^item> Transfers: the loops over chunks end and cover the range exactly, with the end of the stream on the
    last chunk; every page of a buffer is mapped; a mapped pool needs no further calls.
  \<^item> Handles: no lost wake-up, first in first out, no output is announced only when there is none,
    callbacks once and in order.
  \<^item> Examples: the arguments they accept, the calls of the driver they make, that every wait ends when
    the driver counts what it was asked for, and that the exit status says exactly whether the
    received data is right. For the first example: what its threads collect is, run by run, what the
    device reported, for every interleaving; they end when the device has ended all runs; and what
    its comparison misses.
  \<^item> Types: with assertions on, no public method of the manager or a handle has undefined behaviour,
    whatever its arguments, except for one kind of interrupt.

  Assertions. An \<open>assert\<close> of the code is \<open>assertE\<close>, which throws \<open>AssertionFailure\<close>: the model is the program
  of a Debug build. The default build type of \<open>CMakeLists.txt\<close> is Release, which drops assertions. A call
  whose result here is not \<open>AssertionFailure\<close> does the same in both builds; a call that fails an assertion
  here goes on in a Release build, and what it then does is not modelled. What the device reports in an
  interrupt is checked by assertions only.

  Parameters. jemalloc is an argument of the pool of huge pages, with its documented behaviour as the
  assumptions of the locales \<open>jemalloc\<close> and \<open>jemalloc_start\<close>; files, \<open>mmap\<close> and the address of an arena are
  arguments of the constructors. The driver Coyote is not in the repository: the calls made of it are
  recorded (theory Coyote), register reads are a function \<open>csr\<close>, its maximal transfer is \<open>mx\<close>, and the
  examples see a \<open>device\<close> (theory Host_Device). The device of the output path is the environment of
  Output_System. Random numbers, floating-point operations, the demangler, \<open>vsnprintf\<close> (with its
  documented behaviour as the locale \<open>formatting\<close>) and the error of Caliper's manager are arguments. What the build selects with \<open>EN_SIMULATION\<close> or \<open>LIBSTF_WITH_PROFILING\<close> is an argument.

  Bounds and loops. Machine integers keep their width and wrap around. Loops that count in 64 bits or
  wait are \<open>partial_function (option)\<close>, so a loop that never ends is \<open>None\<close>: \<open>for_offsets\<close> (which ends when
  limit and step together are at most 2^64), \<open>offload_loop\<close>, \<open>fetch_outputs\<close> and \<open>wait_completed\<close> (which
  ends exactly when the counter takes the expected value). \<open>max_request\<close> is 2^48, the size of the
  device's address space: requests up to it cannot overflow any pool's arithmetic, and the contract
  \<open>memory_pool\<close> is about them. For the simple pool alone it is 2^64 - 2^49 (\<open>max_simple_request\<close>), and larger
  requests, which wrap around, are among the findings.

  Concurrency. Each method of the manager, of a handle and of a pool holds its mutex, so it is one step;
  the relations interleave the steps of threads freely. A wait on a condition variable is a step that
  enqueues the thread and one that resumes it.

  The threads of the first example take a step per call they make (main: acquire, start the thread, post an
  input; the fetching thread: ask, take); a call that throws ends the program, so it has no step.
  \<open>program_work\<close> counts the calls that are left.

  Not modelled: the text the examples print (usage, parameters, results) and their clocks; a second pool
  of huge pages, which would share the static extents of the first; the pipelines, handshakes and
  resets of the SystemVerilog code, of which only the register space and the packed values are modelled; the Python and TCL
  scripts, the build files and the unit tests, which have no logic of the library.
\<close>

section \<open>The output path over any pool\<close>

text \<open>What the host looks like before a manager is made over it.\<close>

definition host_ok :: "('p \<Rightarrow> bool) \<Rightarrow> obm_params \<Rightarrow> 'p host \<Rightarrow> bool" where
  "host_ok pool_inv c h \<longleftrightarrow> pool_inv (host_pool h) \<and> tlb_inv h \<and>
     (\<forall>i < NUM_STREAMS c. csr_writes (stream_csr c i) (host_cthread h) = [])"

lemma reachable_inv:
  assumes "memory_pool ops pool_inv live" and "OutputBufferManager_init mc managed n cap = Inr c"
    and "host_ok pool_inv c h" and "sys_reachable c ops h s"
  shows "sys_inv pool_inv live c (live_blocks (live (host_pool h))) s" and "params_ok c"
  using assms params_ok_init [OF assms(2)] memory_pool.sys_reachable_inv [OF assms(1)]
  by (auto simp: host_ok_def)

text \<open>The invariant of a manager over the simple pool, for the witnesses; \<open>X\<close> are the blocks others hold.\<close>

abbreviation simple_obm_inv ::
  "obm_params \<Rightarrow> (ptr \<times> u64) multiset \<Rightarrow> SimpleMemoryPool obm \<Rightarrow> bool" where
  "simple_obm_inv \<equiv> obm_inv sp_inv sp_live"

lemmas simple_pool_ok = simple_pool.memory_pool_axioms

text \<open>A small system to evaluate the properties on.\<close>

definition example_mem_config :: MemConfig where
  "example_mem_config = \<lparr>addr_offset = 5, num_regs = 5, num_streams = 2,
     maximum_num_enqueued_buffers = 256, empty_stream_consumes_buffer = False\<rparr>"

definition example_params :: obm_params where
  "example_params = \<lparr>obm_mem_config = example_mem_config, NUM_STREAMS = 2, MANAGED_STREAMS = 1,
     NUM_BUFFERS_TO_ENQUEUE = 1, BUFFER_CAPACITY = 65536\<rparr>"

definition fresh_host :: "SimpleMemoryPool host" where
  "fresh_host = \<lparr>host_pool = example_pool, existing_tlb_mappings = {}, host_cthread = []\<rparr>"

lemma example_params_init: "OutputBufferManager_init example_mem_config 1 1 65536 = Inr example_params"
  by (simp add: OutputBufferManager_init_def example_params_def example_mem_config_def stf_consts)

lemma example_pool_inv: "sp_inv example_pool"
  by (intro sp_reachable_inv sp_honest_reachable example_honest)

lemma fresh_host_ok: "host_ok sp_inv c fresh_host"
  by (simp add: host_ok_def fresh_host_def example_pool_inv tlb_inv_def mapped_after_def)

text \<open>After a handle for stream 0 was acquired.\<close>

definition example_acquired :: "SimpleMemoryPool obm" where
  "example_acquired =
     snd (acquire_output_handle example_params SimpleMemoryPool_ops 1 (obm_start example_params fresh_host))"

lemma example_acquired:
  "acquire_output_handle example_params SimpleMemoryPool_ops 1 (obm_start example_params fresh_host) =
     (Inr 0, example_acquired)"
proof -
  have "fst (acquire_output_handle example_params SimpleMemoryPool_ops 1
      (obm_start example_params fresh_host)) = Inr 0"
    by code_simp
  then show ?thesis by (metis example_acquired_def prod.collapse)
qed

text \<open>The value written for its buffer, and the interrupt for 100 bytes that end the stream.\<close>

definition example_value :: u64 where "example_value = 268435457"

definition example_irq :: u32 where "example_irq = notify_value 0 100 True"

lemma example_writes:
  "csr_writes (stream_csr example_params 0) (host_cthread example_acquired) = [example_value]"
  by code_simp

definition example_raised :: "SimpleMemoryPool system" where
  "example_raised = \<lparr>sys_host = example_acquired, sys_fetched = (\<lambda>_. 0)(0 := Suc 0),
     sys_irqs = [(example_irq, Some example_value)], sys_client = []\<rparr>"

lemma example_raised_trace:
  "sys_trace example_params SimpleMemoryPool_ops fresh_host [Opened [0], Raised 0 100 True] example_raised"
proof -
  let ?s0 = "\<lparr>sys_host = obm_start example_params fresh_host, sys_fetched = (\<lambda>_. 0), sys_irqs = [],
    sys_client = []\<rparr>"
  let ?s1 = "\<lparr>sys_host = example_acquired, sys_fetched = (\<lambda>_. 0), sys_irqs = [], sys_client = []\<rparr>"
  have "filter (bit (1 :: u64)) [0 ..< unat (NUM_STREAMS example_params)] = [0]"
    by (simp add: example_params_def upt_rec)
  moreover have "sys_event example_params SimpleMemoryPool_ops
      (Opened (filter (bit (1 :: u64)) [0 ..< unat (NUM_STREAMS example_params)])) ?s0 (?s0\<lparr>sys_host := example_acquired\<rparr>)"
    by (rule ev_acquire) (use example_acquired in simp)
  ultimately have s1: "sys_trace example_params SimpleMemoryPool_ops fresh_host [Opened [0]] ?s1"
    using trace_next [OF trace_start] by fastforce
  have use: "uses_buffer example_params 100" "(ucast (0 :: 3 word) :: stream_t) < NUM_STREAMS example_params"
    "unat (100 :: 28 word) \<le> buffer_bytes example_value"
    by (simp_all add: uses_buffer_def example_params_def example_value_def buffer_bytes_def buffer_t_of_def)
  have "sys_event example_params SimpleMemoryPool_ops (Raised (unat (0 :: 3 word)) (unat (100 :: 28 word)) True) ?s1
    (?s1\<lparr>sys_fetched := (sys_fetched ?s1)(ucast (0 :: 3 word) := Suc (sys_fetched ?s1 (ucast (0 :: 3 word)))),
      sys_irqs := sys_irqs ?s1 @ [(notify_value 0 100 True, Some example_value)]\<rparr>)"
    by (rule ev_uses_buffer [OF use(1,2)]) (use use(3) in \<open>simp_all add: example_writes\<close>)
  from trace_next [OF s1 this] show ?thesis by (simp add: example_raised_def example_irq_def)
qed

lemmas example_raised_reachable = sys_trace_reachable [OF example_raised_trace]

section \<open>Properties\<close>

text \<open>C2. The host attributes every interrupt to the right buffer: over any pool, in every reachable state of host,
  device and clients, when the oldest pending interrupt is for a buffer that the hardware was given
  as the register value \<open>v\<close>, the front buffer of that stream on the host is exactly this one, its
  address and capacity are what the hardware decodes from \<open>v\<close>, and the bytes the interrupt reports
  fit into it, so the out-of-bounds assertion of the handler cannot fail.\<close>

theorem interrupt_is_for_front_buffer:
  assumes "memory_pool ops pool_inv live" and "OutputBufferManager_init mc managed n cap = Inr c"
    and "host_ok pool_inv c h" and "sys_reachable c ops h s" and "sys_irqs s = (w, Some v) # rest"
  shows "\<exists>iv b bs. parse_interrupt_value w = Inr iv \<and> iv_stream_id iv < NUM_STREAMS c \<and>
    enqueued_buffers (sys_host s) ! unat (iv_stream_id iv) = b # bs \<and> buffer_register_value b = v \<and>
    unat (bt_vaddr (buffer_t_of v)) = unat (buf_ptr b) \<and> buffer_bytes v = unat (buf_capacity b) \<and>
    ucast (iv_bytes_written iv) \<le> buf_capacity b"
proof -
  note inv = reachable_inv [OF assms(1-4)]
  have sync: "obm_synced c (pending ((w, Some v) # rest)) (sys_fetched s) (sys_host s)"
    and irq: "irq_ok c (w, Some v)"
    and bok: "\<forall>q \<in> set (enqueued_buffers (sys_host s)). list_all buffer_ok q"
    and shape: "obm_shape c (sys_host s)"
    using inv(1) by (simp_all add: sys_inv_def assms(5) obm_inv_def)
  obtain i k l where w: "w = notify_value i k l" and i: "ucast i < NUM_STREAMS c"
    and k: "unat k \<le> buffer_bytes v"
    using irq by (auto simp: irq_ok_def)
  obtain b bs where b: "enqueued_buffers (sys_host s) ! unat (ucast i :: stream_t) = b # bs"
    "buffer_register_value b = v"
    using synced_front [OF sync i] by (auto simp: w)
  have "unat (ucast i :: stream_t) < length (enqueued_buffers (sys_host s))"
    using shape i by (simp add: obm_shape_def word_less_nat_alt)
  then have "list_all buffer_ok (b # bs)" using bok b(1) by (metis nth_mem)
  then have ok: "buffer_ok b" by simp
  have "unat (bt_vaddr (buffer_t_of v)) = unat (buf_ptr b)"
    using buffer_t_of_value(1) [of b] ok b(2) by (simp add: buffer_ok_def)
  moreover have bytes: "buffer_bytes v = unat (buf_capacity b)"
    using buffer_bytes_value [OF ok] b(2) by simp
  moreover have "(ucast (ucast k :: u32) :: u64) \<le> buf_capacity b"
    using k bytes by (simp add: word_le_nat_alt unat_ucast_32_64 unat_ucast_28_32)
  ultimately show ?thesis
    using b i by (simp add: w parse_notify_value)
qed

theorem interrupt_is_for_front_buffer_witness:
  "\<exists>iv b bs. parse_interrupt_value example_irq = Inr iv \<and> iv_stream_id iv < NUM_STREAMS example_params \<and>
    enqueued_buffers (sys_host example_raised) ! unat (iv_stream_id iv) = b # bs \<and>
    buffer_register_value b = example_value \<and>
    unat (bt_vaddr (buffer_t_of example_value)) = unat (buf_ptr b) \<and>
    buffer_bytes example_value = unat (buf_capacity b) \<and>
    ucast (iv_bytes_written iv) \<le> buf_capacity b"
  by (rule interrupt_is_for_front_buffer [OF simple_pool_ok example_params_init fresh_host_ok example_raised_reachable])
    (simp add: example_raised_def)

text \<open>C3. Single ownership: over any pool, in every reachable state the blocks allocated from the pool are exactly, as a
  multiset, the buffers enqueued for the device, the outputs waiting in handles, the buffers that
  clients hold and the blocks that were allocated before; no block appears twice, and no two of
  them share a byte.\<close>

theorem every_block_has_one_owner:
  assumes "memory_pool ops pool_inv live" and "OutputBufferManager_init mc managed n cap = Inr c"
    and "host_ok pool_inv c h" and "sys_reachable c ops h s"
  shows "let owned = held_blocks (sys_host s) + image_mset out_block (mset (sys_client s)) +
        live_blocks (live (host_pool h))
    in owned = live_blocks (live (host_pool (sys_host s))) \<and> (\<forall>b. count owned b \<le> 1) \<and>
      (\<forall>q k r m. (q, k) \<in># owned \<longrightarrow> (r, m) \<in># owned \<longrightarrow> q \<noteq> r \<longrightarrow> range_of q k \<inter> range_of r m = {})"
  by (rule memory_pool.sys_inv_ownership [OF assms(1) reachable_inv(1) [OF assms]])

theorem every_block_has_one_owner_witness:
  "let owned = held_blocks (sys_host example_raised) + image_mset out_block (mset (sys_client example_raised)) +
        live_blocks (sp_live (host_pool fresh_host))
    in owned = live_blocks (sp_live (host_pool (sys_host example_raised))) \<and> (\<forall>b. count owned b \<le> 1) \<and>
      (\<forall>q k r m. (q, k) \<in># owned \<longrightarrow> (r, m) \<in># owned \<longrightarrow> q \<noteq> r \<longrightarrow> range_of q k \<inter> range_of r m = {})"
  by (rule every_block_has_one_owner [OF simple_pool_ok example_params_init fresh_host_ok example_raised_reachable])

text \<open>C11. The queues of the device do not overflow: over any pool, for every managed stream the number of buffers written
  to its register that the device has not used yet never exceeds the number the hardware can hold.\<close>

theorem device_queues_never_overflow:
  assumes "memory_pool ops pool_inv live" and "OutputBufferManager_init mc managed n cap = Inr c"
    and "host_ok pool_inv c h" and "sys_reachable c ops h s"
    and "i < NUM_STREAMS c" and "bit (MANAGED_STREAMS c) (unat i)"
  shows "length (csr_writes (stream_csr c i) (host_cthread (sys_host s))) - sys_fetched s i
    \<le> unat (maximum_num_enqueued_buffers (obm_mem_config c))"
proof -
  have "NUM_BUFFERS_TO_ENQUEUE c \<le> maximum_num_enqueued_buffers (obm_mem_config c)"
    using assms(2) by (auto simp: OutputBufferManager_init_def not_less split: if_splits)
  with memory_pool.outstanding_bound [OF assms(1,4) params_ok_init [OF assms(2)] _ _ _ assms(5,6)] assms(3)
  show ?thesis by (simp add: host_ok_def word_le_nat_alt)
qed

theorem device_queues_never_overflow_witness:
  "length (csr_writes (stream_csr example_params 0) (host_cthread (sys_host example_raised))) -
     sys_fetched example_raised 0
    \<le> unat (maximum_num_enqueued_buffers (obm_mem_config example_params))"
  by (rule device_queues_never_overflow [OF simple_pool_ok example_params_init fresh_host_ok example_raised_reachable])
    (simp_all add: example_params_def)

text \<open>
  The state the next witnesses start from: a handle was acquired for stream 0, whose writer has
  used the buffer.
\<close>

lemma example_acquired_inv:
  "simple_obm_inv example_params (live_blocks (sp_live (host_pool fresh_host))) example_acquired"
  "params_ok example_params"
  using reachable_inv [OF simple_pool_ok example_params_init fresh_host_ok example_raised_reachable]
  by (simp_all add: sys_inv_def example_raised_def)

lemma start_inv:
  "simple_obm_inv example_params (live_blocks (sp_live (host_pool fresh_host)))
     (obm_start example_params fresh_host)"
  using reachable_inv(1) [OF simple_pool_ok example_params_init fresh_host_ok sys_start]
  by (simp add: sys_inv_def)

text \<open>C4. Delivery of an interrupt, over any pool: when the handler returns, the front buffer of the stream has
  left the manager's queue (a report of no bytes keeps it there unless the design says that it uses a
  buffer) and, when bytes were reported, its block is the newest output of the handle at the front of
  the stream: at the address where the pool's \<open>reallocate\<close> put it when the report is shorter than the
  buffer, and where it was otherwise, allocated with exactly the reported bytes; no other output of any
  handle has changed; the handle leaves the stream's queue, and its mark that the stream is finished
  is set, exactly when the interrupt is the last one; and behind the remaining buffers a managed stream
  got new ones up to the configured number, and no other stream got any.\<close>

theorem interrupt_delivers_buffer:
  assumes "memory_pool ops pool_inv live" and "obm_inv pool_inv live c X s" and "params_ok c"
    and "handle_fpga_interrupt c ops (notify_value i n l) s = (Inr (), s')"
  shows "let sid = unat (ucast i :: stream_t); r = hd (enqueued_handles s ! sid);
      b = hd (enqueued_buffers s ! sid); h = handles s ! r; h' = handles s' ! r;
      q = delivered_ptr ops (host_pool s) b (ucast n);
      rest = (if n > 0 \<or> empty_stream_consumes_buffer (obm_mem_config c)
        then tl (enqueued_buffers s ! sid) else enqueued_buffers s ! sid)
    in enqueued_handles s ! sid \<noteq> [] \<and> enqueued_buffers s ! sid \<noteq> [] \<and> ucast n \<le> buf_capacity b \<and>
      oh_output_buffers h' = (if n > 0
        then (oh_output_buffers h)[sid := oh_output_buffers h ! sid @
          [\<lparr>buf_ptr = q, buf_size = ucast n, buf_capacity = buf_capacity b\<rparr>]]
        else oh_output_buffers h) \<and>
      (n > 0 \<longrightarrow> live (host_pool s') q = Some (ucast n)) \<and>
      (\<forall>r'. r' \<noteq> r \<longrightarrow> handles s' ! r' = handles s ! r') \<and>
      enqueued_handles s' = (enqueued_handles s)[sid :=
        if l then tl (enqueued_handles s ! sid) else enqueued_handles s ! sid] \<and>
      oh_finished_streams h' = (if l then set_bit sid (oh_finished_streams h) else oh_finished_streams h) \<and>
      (\<exists>bs. enqueued_buffers s' = (enqueued_buffers s)[sid := rest @ bs] \<and>
        (\<forall>b' \<in> set bs. buf_capacity b' = BUFFER_CAPACITY c) \<and>
        length bs = (if bit (MANAGED_STREAMS c) sid
          then unat (NUM_BUFFERS_TO_ENQUEUE c) - length rest else 0))"
proof -
  let ?i = "ucast i :: stream_t" and ?n = "ucast n :: u32"
  have cap: "0 < BUFFER_CAPACITY c" "unat (BUFFER_CAPACITY c) \<le> max_request"
    using assms(3) by (simp_all add: params_ok_def params_ok_request)
  have shape: "obm_shape c s" using assms(2) by (simp add: obm_inv_def)
  from wpD_Inr [OF memory_pool.handle_fpga_interrupt_wp [OF assms(1,2) cap] assms(4)]
  obtain t bs where inv: "obm_inv pool_inv live c X s'" and i: "?i < NUM_STREAMS c"
    and mv: "moved_to_handle c ops ?i ?n l s t" and hq: "enqueued_handles s' = enqueued_handles t"
    and bs: "buffers_enqueued c ?i bs t s'" "\<forall>b \<in> set bs. buf_capacity b = BUFFER_CAPACITY c"
    and len: "length (enqueued_buffers s' ! unat ?i) =
      (if bit (MANAGED_STREAMS c) (unat ?i)
       then max (length (enqueued_buffers t ! unat ?i)) (unat (NUM_BUFFERS_TO_ENQUEUE c))
       else length (enqueued_buffers t ! unat ?i))"
    by (auto simp: parse_notify_value)
  obtain r hs where r: "enqueued_handles s ! unat ?i = r # hs"
    using mv by (cases "enqueued_handles s ! unat ?i") (auto simp: moved_to_handle_def)
  note sh = shape_handle [OF shape i r]
  have pos: "?n > 0 \<longleftrightarrow> n > 0" by (rule ucast_28_32_pos)
  have up: "(ucast ?n :: u64) = ucast n"
    by (rule bit_word_eqI) (auto simp: bit_simps dest: bit_imp_le_length)
  obtain h where "handles s' = (handles s)[r := h]"
    and "handle_moved ?i ?n l (delivered_ptr ops (host_pool s) (hd (enqueued_buffers s ! unat ?i)) ?n)
      (hd (enqueued_buffers s ! unat ?i)) (handles s ! r) h"
    using mv bs(1) by (auto simp: moved_to_handle_def Let_def r buffers_enqueued_def)
  moreover note mv [unfolded moved_to_handle_def Let_def pos up]
  moreover have "enqueued_buffers s' = (enqueued_buffers t)[unat ?i := enqueued_buffers t ! unat ?i @ bs]"
    using bs(1) by (simp add: buffers_enqueued_def)
  moreover note delivered_live [OF inv shape i mv bs(1), unfolded pos up]
  ultimately show ?thesis
    using len sh bs(2) hq
    by (auto simp: Let_def r handle_moved_def pos up intro!: exI [of _ bs])
qed

definition example_handled :: "SimpleMemoryPool obm" where
  "example_handled = snd (handle_fpga_interrupt example_params SimpleMemoryPool_ops example_irq example_acquired)"

lemma example_handled:
  "handle_fpga_interrupt example_params SimpleMemoryPool_ops (notify_value 0 100 True) example_acquired =
     (Inr (), example_handled)"
proof -
  have "fst (handle_fpga_interrupt example_params SimpleMemoryPool_ops example_irq example_acquired) = Inr ()"
    by code_simp
  then show ?thesis by (metis example_handled_def example_irq_def prod.collapse)
qed

theorem interrupt_delivers_buffer_witness:
  "let sid = unat (ucast (0 :: 3 word) :: stream_t); r = hd (enqueued_handles example_acquired ! sid);
      b = hd (enqueued_buffers example_acquired ! sid); h = handles example_acquired ! r;
      h' = handles example_handled ! r;
      q = delivered_ptr SimpleMemoryPool_ops (host_pool example_acquired) b (ucast (100 :: 28 word))
    in oh_output_buffers h' = (oh_output_buffers h)[sid := oh_output_buffers h ! sid @
          [\<lparr>buf_ptr = q, buf_size = ucast (100 :: 28 word), buf_capacity = buf_capacity b\<rparr>]] \<and>
      sp_live (host_pool example_handled) q = Some (ucast (100 :: 28 word)) \<and>
      enqueued_handles example_handled = (enqueued_handles example_acquired)[sid :=
        tl (enqueued_handles example_acquired ! sid)] \<and>
      oh_finished_streams h' = set_bit sid (oh_finished_streams h) \<and>
      (\<exists>bs. enqueued_buffers example_handled =
        (enqueued_buffers example_acquired)[sid := tl (enqueued_buffers example_acquired ! sid) @ bs])"
  using interrupt_delivers_buffer [OF simple_pool_ok example_acquired_inv example_handled]
  unfolding Let_def by (auto simp: word_gt_0)

text \<open>C1. The output path refines its specification: over any pool, every sequence of steps of host, device and
  clients (calls that return) is labelled with events, and on these events the specification, which knows no buffers,
  registers or memory, runs to exactly the abstraction of the state that is reached.\<close>

theorem output_path_refines_streams:
  assumes "memory_pool ops pool_inv live" and "OutputBufferManager_init mc managed n cap = Inr c"
    and "pool_inv (host_pool h)" and "tlb_inv h" and "\<forall>i < NUM_STREAMS c. csr_writes (stream_csr c i) (host_cthread h) = []"
  shows "(sys_reachable c ops h s \<longleftrightarrow> (\<exists>evs. sys_trace c ops h evs s)) \<and>
    (\<forall>evs. sys_trace c ops h evs s \<longrightarrow>
       pipe_run (unat (NUM_STREAMS c)) evs (pipe_start (unat (NUM_STREAMS c))) = Some (pipe_of c s))"
  using memory_pool.refine_trace [OF assms(1) _ params_ok_init [OF assms(2)] assms(3,4)] assms(5)
    sys_trace_reachable sys_reachable_trace
  by blast

text \<open>The example after its interrupt was handled.\<close>

definition example_delivered :: "SimpleMemoryPool system" where
  "example_delivered = example_raised\<lparr>sys_host := example_handled, sys_irqs := []\<rparr>"

lemma example_delivered_trace:
  "sys_trace example_params SimpleMemoryPool_ops fresh_host [Opened [0], Raised 0 100 True, Delivered 0 100 True]
    example_delivered"
proof -
  have "sys_event example_params SimpleMemoryPool_ops (Delivered (unat (ucast (0 :: 3 word) :: u8))
      (unat (ucast (100 :: 28 word) :: u32)) True) example_raised example_delivered"
    using ev_interrupt [of example_raised example_irq "Some example_value" "[]" example_params SimpleMemoryPool_ops
        example_handled] example_handled
    by (simp add: example_raised_def example_delivered_def example_irq_def parse_notify_value)
  with trace_next [OF example_raised_trace] show ?thesis by fastforce
qed

theorem output_path_refines_streams_witness:
  "pipe_run 2 [Opened [0], Raised 0 100 True, Delivered 0 100 True] (pipe_start 2) =
    Some (pipe_of example_params example_delivered)"
  using output_path_refines_streams [OF simple_pool.memory_pool_axioms example_params_init, of fresh_host
      example_delivered] fresh_host_ok [of example_params] example_delivered_trace
  by (auto simp: host_ok_def example_params_def)

text \<open>C5. What a transfer receives is determined by the events: over any pool, after any sequence of steps, the
  transfers that wait for a stream are those opened for it, in this order, without the ones that a
  last report has ended; what clients took of a transfer from a stream followed by what is left is
  exactly the amounts of the reports delivered to it, in order, each exactly once (of a transfer whose
  handle was destroyed the clients took a first part, and nothing is left); the stream is finished for a
  transfer exactly when the transfer was ended; and reports of a stream are delivered in the order in
  which the device raised them.\<close>

theorem transfers_receive_their_reports:
  assumes "memory_pool ops pool_inv live" and "OutputBufferManager_init mc managed n cap = Inr c"
    and "pool_inv (host_pool h)" and "tlb_inv h" and "\<forall>i < NUM_STREAMS c. csr_writes (stream_csr c i) (host_cthread h) = []"
    and "sys_trace c ops h evs s" and "i < unat (NUM_STREAMS c)"
  shows "let as = opened i 0 evs; ds = delivered i evs; H = sys_host s
    in enqueued_handles H ! i = drop (num_ended ds) as \<and> raised i evs = ds @ reports i (map (report_of \<circ> fst) (sys_irqs s)) \<and>
      (\<forall>r < length (handles H). let left = map (unat \<circ> buf_size) (oh_output_buffers (handles H ! r) ! i) in
         (if Released r \<in> set evs then left = [] \<and> (\<exists>lost. taken r i evs @ lost = received r as ds)
          else taken r i evs @ left = received r as ds) \<and>
         (bit (oh_finished_streams (handles H ! r)) i \<longleftrightarrow> r \<in> set (take (num_ended ds) as)))"
proof -
  have "pipe_run (unat (NUM_STREAMS c)) evs (pipe_start (unat (NUM_STREAMS c))) = Some (pipe_of c s)"
    using memory_pool.refine_trace [OF assms(1,6) params_ok_init [OF assms(2)] assms(3,4)] assms(5) by blast
  from history_run [OF this]
  have sh: "stream_history evs (pipe_of c s) i" and N: "length (handles (sys_host s)) = num_opened evs"
    and len: "\<forall>h \<in> set (handles (sys_host s)). length (oh_output_buffers h) = unat (NUM_STREAMS c)"
    using assms(7) by (auto simp: pipe_history_def)
  then show ?thesis
    using assms(7) by (auto simp: stream_history_def transfer_history_def Let_def ended_streams_def split: if_splits)
qed

theorem transfers_receive_their_reports_witness:
  "taken 0 0 [Opened [0], Raised 0 100 True, Delivered 0 100 True] @
     map (unat \<circ> buf_size) (oh_output_buffers (handles (sys_host example_delivered) ! 0) ! 0) = [100] \<and>
   bit (oh_finished_streams (handles (sys_host example_delivered) ! 0)) 0"
proof -
  have "handles (sys_host example_delivered) \<noteq> []"
    using example_delivered_trace memory_pool.refine_trace [OF simple_pool.memory_pool_axioms example_delivered_trace]
      history_run fresh_host_ok [of example_params] example_acquired_inv(2)
    by (fastforce simp: pipe_history_def host_ok_def)
  then show ?thesis
    using transfers_receive_their_reports [OF simple_pool.memory_pool_axioms example_params_init _ _ _ example_delivered_trace,
        of 0] fresh_host_ok [of example_params]
    by (auto simp: host_ok_def Let_def example_params_def amount_def)
qed

text \<open>C20. Acquiring a handle over any pool: when it succeeds the handle is new and active for the requested streams, which
  are managed and not none; it is the last in the queue of each of these streams, each of them has at
  least the configured number of buffers, all of the configured capacity if new, and the queues of
  the other streams are unchanged.\<close>

theorem acquire_fills_managed_streams:
  assumes "memory_pool ops pool_inv live" and "obm_inv pool_inv live c X s" and "params_ok c"
    and "acquire_output_handle c ops m s = (Inr r, s')"
  shows "m \<noteq> 0 \<and> m AND NOT (MANAGED_STREAMS c) = 0 \<and>
    r = length (handles s) \<and> handles s' = handles s @ [OutputHandle_init m (NUM_STREAMS c)] \<and>
    (\<forall>i < unat (NUM_STREAMS c).
       if bit m i
       then enqueued_handles s' ! i = enqueued_handles s ! i @ [r] \<and>
         length (enqueued_buffers s' ! i) =
           max (length (enqueued_buffers s ! i)) (unat (NUM_BUFFERS_TO_ENQUEUE c)) \<and>
         (\<exists>bs. enqueued_buffers s' ! i = enqueued_buffers s ! i @ bs \<and>
            (\<forall>b \<in> set bs. buf_capacity b = BUFFER_CAPACITY c))
       else enqueued_handles s' ! i = enqueued_handles s ! i \<and>
         enqueued_buffers s' ! i = enqueued_buffers s ! i)"
proof -
  have cap: "0 < BUFFER_CAPACITY c" "unat (BUFFER_CAPACITY c) \<le> max_request"
    using assms(3) by (simp_all add: params_ok_def params_ok_request)
  from wpD_Inr [OF memory_pool.acquire_output_handle_wp [OF assms(1,2) cap] assms(4)]
  have acq: "streams_acquired c m r {..< unat (NUM_STREAMS c)}
      (s\<lparr>handles := handles s @ [OutputHandle_init m (NUM_STREAMS c)]\<rparr>) s'"
    and rest: "r = length (handles s)" "m \<noteq> 0" "m AND NOT (MANAGED_STREAMS c) = 0" by blast+
  have sel: "enqueued_buffers (s\<lparr>handles := hs\<rparr>) = enqueued_buffers s"
    "enqueued_handles (s\<lparr>handles := hs\<rparr>) = enqueued_handles s" for hs by simp_all
  have "\<forall>i < unat (NUM_STREAMS c).
       if bit m i
       then enqueued_handles s' ! i = enqueued_handles s ! i @ [r] \<and>
         length (enqueued_buffers s' ! i) =
           max (length (enqueued_buffers s ! i)) (unat (NUM_BUFFERS_TO_ENQUEUE c)) \<and>
         (\<exists>bs. enqueued_buffers s' ! i = enqueued_buffers s ! i @ bs \<and>
            (\<forall>b \<in> set bs. buf_capacity b = BUFFER_CAPACITY c))
       else enqueued_handles s' ! i = enqueued_handles s ! i \<and>
         enqueued_buffers s' ! i = enqueued_buffers s ! i"
    using streams_acquired_stream [OF acq, unfolded sel] by simp
  with acq rest show ?thesis unfolding streams_acquired_def by simp
qed

theorem acquire_fills_managed_streams_witness:
  "1 AND NOT (MANAGED_STREAMS example_params) = 0 \<and>
    handles example_acquired = [OutputHandle_init 1 (NUM_STREAMS example_params)] \<and>
    enqueued_handles example_acquired ! 0 = [0] \<and> length (enqueued_buffers example_acquired ! 0) = 1 \<and>
    enqueued_handles example_acquired ! 1 = [] \<and> enqueued_buffers example_acquired ! 1 = []"
proof -
  note acq = acquire_fills_managed_streams [OF simple_pool_ok start_inv example_acquired_inv(2) example_acquired]
  have start: "handles (obm_start example_params fresh_host) = []"
    "enqueued_handles (obm_start example_params fresh_host) = [[], []]"
    "enqueued_buffers (obm_start example_params fresh_host) = [[], []]"
    "unat (NUM_STREAMS example_params) = 2" "NUM_BUFFERS_TO_ENQUEUE example_params = 1"
    by (simp_all add: obm_start_def example_params_def host.defs) (simp_all add: numeral_2_eq_2)
  have bits: "bit (1 :: u64) 0" "\<not> bit (1 :: u64) 1" by simp_all
  from acq have "1 AND NOT (MANAGED_STREAMS example_params) = 0"
    "handles example_acquired = [OutputHandle_init 1 (NUM_STREAMS example_params)]"
    by (simp_all add: start)
  moreover from acq have all: "\<forall>i < 2.
       if bit (1 :: u64) i
       then enqueued_handles example_acquired ! i = [[], []] ! i @ [0] \<and>
         length (enqueued_buffers example_acquired ! i) = max (length ([[], []] ! i :: Buffer list)) 1 \<and>
         (\<exists>bs. enqueued_buffers example_acquired ! i = [[], []] ! i @ bs \<and>
            (\<forall>b \<in> set bs. buf_capacity b = BUFFER_CAPACITY example_params))
       else enqueued_handles example_acquired ! i = [[], []] ! i \<and>
         enqueued_buffers example_acquired ! i = [[], []] ! i"
    by (simp only: start) simp
  ultimately show ?thesis using all [rule_format, of 0] all [rule_format, of 1] bits by simp
qed

text \<open>C21. A transfer of a known size, over any pool: when acquiring it succeeds the stream is not managed and the
  size is not 0; the transfer is cut into as few buffers as the largest buffer of the hardware allows, each of
  them a whole number of 64 KiB transfers, together exactly the size rounded up to whole transfers;
  they are enqueued in order behind the stream's buffers, and the new handle is put into the queue of
  the stream once for every one of them. The total is the size itself only when that is a multiple of
  64 KiB, though the comments of \<open>output_buffer_manager.hpp\<close> and \<open>.cpp\<close> promise exactly the size.\<close>

theorem sized_acquire_cuts_transfer:
  assumes "memory_pool ops pool_inv live" and "obm_inv pool_inv live c X s"
    and "acquire_output_handle_sized c ops i n s = (Inr r, s')"
  shows "i < NUM_STREAMS c \<and> \<not> bit (MANAGED_STREAMS c) (unat i) \<and> 0 < n \<and> r = length (handles s) \<and>
    (\<exists>bs. enqueued_buffers s' = (enqueued_buffers s)[unat i := enqueued_buffers s ! unat i @ bs] \<and>
       length bs = (unat n + unat MAXIMUM_OUTPUT_WRITER_BUFFER_SIZE - 1) div unat MAXIMUM_OUTPUT_WRITER_BUFFER_SIZE \<and>
       sum_list (map (\<lambda>b. unat (buf_capacity b)) bs) = round_up (unat n) (unat BYTES_PER_FPGA_TRANSFER) \<and>
       (\<forall>b \<in> set bs. unat BYTES_PER_FPGA_TRANSFER dvd unat (buf_capacity b) \<and>
          unat (buf_capacity b) \<le> unat MAXIMUM_OUTPUT_WRITER_BUFFER_SIZE) \<and>
       enqueued_handles s' = (enqueued_handles s)[unat i :=
         enqueued_handles s ! unat i @ replicate (length bs) r])"
proof -
  from wpD_Inr [OF memory_pool.acquire_output_handle_sized_wp [OF assms(1,2)] assms(3)]
  obtain bs where bs: "transfer_buffers (unat n) bs"
    "buffers_enqueued c i bs (s\<lparr>handles := handles s @ [OutputHandle_init (2 ^ unat i) (NUM_STREAMS c)]\<rparr>) s'"
    "enqueued_handles s' = (enqueued_handles s)[unat i := enqueued_handles s ! unat i @ replicate (length bs) r]"
    and rest: "i < NUM_STREAMS c" "\<not> bit (MANAGED_STREAMS c) (unat i)" "0 < n" "r = length (handles s)"
    by blast
  then show ?thesis
    by (intro conjI exI [of _ bs]) (simp_all add: buffers_enqueued_def transfer_buffers_def stf_consts)
qed

theorem sized_acquire_cuts_transfer_witness:
  "\<exists>s' :: SimpleMemoryPool obm. (1 :: stream_t) < NUM_STREAMS example_params \<and> \<not> bit (MANAGED_STREAMS example_params) (unat (1 :: stream_t)) \<and>
    (\<exists>bs. enqueued_buffers s' = (enqueued_buffers example_acquired)[unat (1 :: stream_t) :=
         enqueued_buffers example_acquired ! unat (1 :: stream_t) @ bs] \<and>
       sum_list (map (\<lambda>b. unat (buf_capacity b)) bs) = round_up (unat (70000 :: u64)) (unat BYTES_PER_FPGA_TRANSFER))"
proof -
  let ?r = "acquire_output_handle_sized example_params SimpleMemoryPool_ops 1 70000 example_acquired"
  have "fst ?r = Inr 1" by code_simp
  then have "?r = (Inr 1, snd ?r)" by (metis prod.collapse)
  from sized_acquire_cuts_transfer [OF simple_pool_ok example_acquired_inv(1) this] show ?thesis by blast
qed

text \<open>C33. Exceptions lose nothing: over any pool, whether the handling of an interrupt or either way of acquiring
  a handle returns or throws (an assertion, a full pool, a refused register write), the single-ownership invariant of the manager holds of the state they
  leave, with the same blocks held by others.\<close>

theorem exceptions_keep_ownership:
  assumes "memory_pool ops pool_inv live" and "obm_inv pool_inv live c X s" and "params_ok c"
  shows "obm_inv pool_inv live c X (snd (handle_fpga_interrupt c ops w s)) \<and>
    obm_inv pool_inv live c X (snd (acquire_output_handle c ops m s)) \<and>
    obm_inv pool_inv live c X (snd (acquire_output_handle_sized c ops i n s))"
proof -
  have cap: "0 < BUFFER_CAPACITY c" "unat (BUFFER_CAPACITY c) \<le> max_request"
    using assms(3) by (simp_all add: params_ok_def params_ok_request)
  have "obm_inv pool_inv live c X (snd (handle_fpga_interrupt c ops w s))"
    by (rule wp_snd [OF memory_pool.handle_fpga_interrupt_wp [OF assms(1,2) cap]])
      (elim conjE exE, assumption)+
  moreover have "obm_inv pool_inv live c X (snd (acquire_output_handle c ops m s))"
    by (rule wp_snd [OF memory_pool.acquire_output_handle_wp [OF assms(1,2) cap]])
      (elim conjE exE, assumption)+
  moreover have "obm_inv pool_inv live c X (snd (acquire_output_handle_sized c ops i n s))"
    by (rule wp_snd [OF memory_pool.acquire_output_handle_sized_wp [OF assms(1,2)]])
      (elim conjE exE, assumption)+
  ultimately show ?thesis by (intro conjI)
qed

theorem exceptions_keep_ownership_witness:
  "\<exists>X. simple_obm_inv example_params X
      (snd (handle_fpga_interrupt example_params SimpleMemoryPool_ops 7 example_acquired)) \<and>
    simple_obm_inv example_params X
      (snd (acquire_output_handle example_params SimpleMemoryPool_ops 2 example_acquired)) \<and>
    simple_obm_inv example_params X
      (snd (acquire_output_handle_sized example_params SimpleMemoryPool_ops 0 5 example_acquired))"
  using exceptions_keep_ownership [OF simple_pool_ok example_acquired_inv] by blast

text \<open>Parameters of a manager: the constructor accepts exactly the parameters with at least one buffer per
  stream, not more than the hardware can hold, and a capacity that is a multiple of 64 KiB, at least
  one transfer and less than the largest buffer.\<close>

theorem manager_parameters_are_checked:
  "(\<exists>c. OutputBufferManager_init mc m n cap = Inr c) \<longleftrightarrow>
     0 < n \<and> n \<le> maximum_num_enqueued_buffers mc \<and> unat BYTES_PER_FPGA_TRANSFER \<le> unat cap \<and>
     unat cap < 2 ^ unat INTERRUPT_TRANSFER_SIZE_BITS - 1 \<and> unat BYTES_PER_FPGA_TRANSFER dvd unat cap"
proof -
  have "cap mod 65536 = 0 \<longleftrightarrow> (65536 :: nat) dvd unat cap"
    by (simp add: word_unat_eq_iff unat_mod dvd_eq_mod_eq_0)
  then show ?thesis
    by (auto simp: OutputBufferManager_init_def stf_consts word_le_nat_alt word_less_nat_alt word_gt_0
        unat_gt_0)
qed

text \<open>
  A failed acquire leaves its handle behind. With four of the largest buffers per stream the simple pool
  has room for the first stream only, so acquiring a handle for two streams throws; the caller has no
  handle, but the one that was made stays in the queue of stream 0. The output of the next transfer of
  that stream goes to it, not to the handle that was acquired for it (the interrupt's handler throws
  for the same lack of memory, but after it has delivered the output).
\<close>

definition full_params :: obm_params where
  "full_params = \<lparr>obm_mem_config = example_mem_config, NUM_STREAMS = 2, MANAGED_STREAMS = 3,
     NUM_BUFFERS_TO_ENQUEUE = 4, BUFFER_CAPACITY = ucast MAXIMUM_OUTPUT_WRITER_BUFFER_SIZE\<rparr>"

lemma full_params_init:
  "OutputBufferManager_init example_mem_config 3 4 (ucast MAXIMUM_OUTPUT_WRITER_BUFFER_SIZE) = Inr full_params"
  by (simp add: OutputBufferManager_init_def full_params_def example_mem_config_def stf_consts)

theorem failed_acquire_leaves_handle:
  "let (r, s1) = acquire_output_handle full_params SimpleMemoryPool_ops 3 (obm_start full_params fresh_host);
       (r', s2) = acquire_output_handle full_params SimpleMemoryPool_ops 1 s1;
       s3 = snd (handle_fpga_interrupt full_params SimpleMemoryPool_ops (notify_value 0 100 True) s2)
   in (\<exists>e. r = Inl e) \<and> enqueued_handles s1 = [[0], []] \<and> r' = Inr 1 \<and>
      map length (oh_output_buffers (handles s3 ! 0)) = [1, 0] \<and>
      map length (oh_output_buffers (handles s3 ! 1)) = [0, 0]"
proof -
  let ?s1 = "snd (acquire_output_handle full_params SimpleMemoryPool_ops 3 (obm_start full_params fresh_host))"
  let ?s2 = "snd (acquire_output_handle full_params SimpleMemoryPool_ops 1 ?s1)"
  let ?s3 = "snd (handle_fpga_interrupt full_params SimpleMemoryPool_ops (notify_value 0 100 True) ?s2)"
  have "isl (fst (acquire_output_handle full_params SimpleMemoryPool_ops 3 (obm_start full_params fresh_host)))"
    by code_simp
  then have "\<exists>e. fst (acquire_output_handle full_params SimpleMemoryPool_ops 3 (obm_start full_params fresh_host)) = Inl e"
    by (simp only: isl_def)
  moreover have "enqueued_handles ?s1 = [[0], []]" by code_simp
  moreover have "fst (acquire_output_handle full_params SimpleMemoryPool_ops 1 ?s1) = Inr 1" by code_simp
  moreover have "map length (oh_output_buffers (handles ?s3 ! 0)) = [1, 0]" by code_simp
  moreover have "map length (oh_output_buffers (handles ?s3 ! 1)) = [0, 0]" by code_simp
  ultimately show ?thesis unfolding Let_def case_prod_beta by (intro conjI)
qed

text \<open>C34. Shutting down: over any pool that does not throw when it frees a live block, from any state of the
  invariant the destructor of the manager and then those of all its handles return, and what is left in
  the pool are exactly the blocks that others hold: the library has leaked nothing and freed nothing
  that is not its own. The pool used in simulation is such a pool; the pool of huge pages is one for a
  thread that has its thread cache (\<open>huge_pool_settled\<close>), while the first call of a thread may throw.\<close>

theorem shutdown_leaks_nothing:
  assumes "settled_pool ops pool_inv live" and "obm_inv pool_inv live c X s"
  shows "\<exists>s' p'. OutputBufferManager_destroy ops s = (Inr (), s') \<and>
    destroy_handles ops (handles s') (host_pool s') = (Inr (), p') \<and> live_blocks (live p') = X"
  using settled_pool.shutdown_returns [OF assms] .

theorem shutdown_leaks_nothing_witness:
  "\<exists>s' p'. OutputBufferManager_destroy SimpleMemoryPool_ops example_acquired = (Inr (), s') \<and>
    destroy_handles SimpleMemoryPool_ops (handles s') (host_pool s') = (Inr (), p') \<and>
    live_blocks (sp_live p') = live_blocks (sp_live (host_pool fresh_host))"
  by (rule shutdown_leaks_nothing [OF simple_settled.settled_pool_axioms example_acquired_inv(1)])

end
